(* ===== verification/Prelude.thy ===== *)
theory Prelude
  imports Main "HOL-Library.Word"
begin

text \<open>
  Shared vocabulary of the development.  It fixes the machine types the Rust sources use, the
  result of a Rust call (a value, a typed error or a panic), and the big-endian and little-endian
  byte codecs of \<open>u16\<close>, \<open>u32\<close> and \<open>u64\<close> (\<open>to_be_bytes\<close>, \<open>from_be_bytes\<close> and their
  little-endian twins) together with bounds-checked reads of a byte buffer.  The lemmas collected
  in \<open>codec\<close> let the simplifier walk over an encoded message field by field; the
  lemmas in \<open>rust\<close> evaluate the result monad.  The locale \<open>codec\<close> is the contract of every wire
  format of the system: what was encoded decodes to itself.
\<close>

section \<open>Machine types\<close>

type_synonym u8 = "8 word"
type_synonym u16 = "16 word"
type_synonym u32 = "32 word"
type_synonym u64 = "64 word"
type_synonym bytes = "u8 list"

named_theorems codec \<open>reading back an encoded message\<close>
named_theorems rust \<open>evaluation of the result monad\<close>

section \<open>Results of Rust calls\<close>

text \<open>
  \<open>Ok\<close> and \<open>Err\<close> are the two constructors of \<open>Result\<close>; \<open>Panic\<close> is a call that does not return
  because an index, a slice bound or an \<open>unwrap\<close> failed.
\<close>

datatype ('e, 'a) result = Ok 'a | Err 'e | Panic

fun rbind :: "('e, 'a) result \<Rightarrow> ('a \<Rightarrow> ('e, 'b) result) \<Rightarrow> ('e, 'b) result" where
  "rbind (Ok x) f = f x"
| "rbind (Err e) f = Err e"
| "rbind Panic f = Panic"

fun map_err :: "('e \<Rightarrow> 'f) \<Rightarrow> ('e, 'a) result \<Rightarrow> ('f, 'a) result" where
  "map_err f (Ok x) = Ok x"
| "map_err f (Err e) = Err (f e)"
| "map_err f Panic = Panic"

definition ok_or :: "'a option \<Rightarrow> 'e \<Rightarrow> ('e, 'a) result" where
  "ok_or m e = (case m of None \<Rightarrow> Err e | Some x \<Rightarrow> Ok x)"

definition unwrap :: "'a option \<Rightarrow> ('e, 'a) result" where
  "unwrap m = (case m of None \<Rightarrow> Panic | Some x \<Rightarrow> Ok x)"

lemma ok_or_simps [simp, rust]: "ok_or None e = Err e" "ok_or (Some x) e = Ok x"
  by (simp_all add: ok_or_def)

lemma unwrap_simps [simp, rust]: "unwrap None = Panic" "unwrap (Some x) = Ok x"
  by (simp_all add: unwrap_def)

lemma rbind_eq_Ok [rust]: "rbind m f = Ok y \<longleftrightarrow> (\<exists>x. m = Ok x \<and> f x = Ok y)"
  by (cases m) auto

lemma rbind_eq_Err: "rbind m f = Err e \<longleftrightarrow> m = Err e \<or> (\<exists>x. m = Ok x \<and> f x = Err e)"
  by (cases m) auto

lemma rbind_eq_Panic: "rbind m f = Panic \<longleftrightarrow> m = Panic \<or> (\<exists>x. m = Ok x \<and> f x = Panic)"
  by (cases m) auto

lemma rbind_no_panic: "m \<noteq> Panic \<Longrightarrow> (\<And>x. m = Ok x \<Longrightarrow> f x \<noteq> Panic) \<Longrightarrow> rbind m f \<noteq> Panic"
  by (cases m) auto

lemma rbind_assoc: "rbind (rbind m f) g = rbind m (\<lambda>x. rbind (f x) g)"
  by (cases m) auto

lemma ok_or_eq_Ok [rust]: "ok_or m e = Ok x \<longleftrightarrow> m = Some x"
  by (cases m) auto

lemma ok_or_no_panic [simp]: "ok_or m e \<noteq> Panic"
  by (cases m) auto

section \<open>Integers as bytes\<close>

fun nat_to_be :: "nat \<Rightarrow> nat \<Rightarrow> bytes" where
  "nat_to_be 0 v = []"
| "nat_to_be (Suc k) v = nat_to_be k (v div 256) @ [of_nat v]"

definition nat_of_be :: "bytes \<Rightarrow> nat" where
  "nat_of_be bs = foldl (\<lambda>acc b. acc * 256 + unat b) 0 bs"

lemma length_nat_to_be [simp, codec]: "length (nat_to_be k v) = k"
  by (induction k arbitrary: v) auto

lemma nat_of_be_Nil [simp]: "nat_of_be [] = 0"
  by (simp add: nat_of_be_def)

lemma nat_of_be_snoc [simp]: "nat_of_be (bs @ [b]) = nat_of_be bs * 256 + unat b"
  by (simp add: nat_of_be_def)

lemma unat_of_nat_u8 [simp]: "unat (of_nat v :: u8) = v mod 256"
  by (simp add: unat_of_nat)

lemma nat_of_be_to_be: "nat_of_be (nat_to_be k v) = v mod 256 ^ k"
proof (induction k arbitrary: v)
  case 0
  then show ?case by simp
next
  case (Suc k)
  have "v mod (256 * 256 ^ k) = 256 * (v div 256 mod 256 ^ k) + v mod 256"
    by (rule mod_mult2_eq)
  with Suc show ?case by (simp add: ac_simps)
qed

lemma nat_of_be_less: "nat_of_be bs < 256 ^ length bs"
proof (induction bs rule: rev_induct)
  case Nil
  then show ?case by simp
next
  case (snoc b bs)
  have "unat b < 256" using unsigned_less [of b] by simp
  with snoc show ?case by simp
qed

lemma nat_to_be_of_be: "length bs = k \<Longrightarrow> nat_to_be k (nat_of_be bs) = bs"
proof (induction k arbitrary: bs)
  case 0
  then show ?case by simp
next
  case (Suc k)
  then obtain cs c where bs: "bs = cs @ [c]" and len: "length cs = k"
    by (metis append_butlast_last_id length_append_singleton list.size(3) nat.inject nat.simps(3))
  have lt: "unat c < 256" using unsigned_less [of c] by simp
  then have "(nat_of_be cs * 256 + unat c) div 256 = nat_of_be cs" by simp
  moreover have "(of_nat (nat_of_be cs * 256 + unat c) :: u8) = c"
    by (rule word_unat_eq_iff [THEN iffD2], use lt in \<open>simp add: unat_of_nat del: of_nat_add of_nat_mult\<close>)
  ultimately show ?case
    using Suc.IH [OF len] bs by simp
qed

text \<open>
  \<open>to_be_bytes\<close> and \<open>from_be_bytes\<close> of the integer types, and \<open>from_le_bytes\<close> where the
  sources decode PostgreSQL's little-endian WAL.
\<close>

definition u16_to_be :: "u16 \<Rightarrow> bytes" where "u16_to_be w = nat_to_be 2 (unat w)"
definition u32_to_be :: "u32 \<Rightarrow> bytes" where "u32_to_be w = nat_to_be 4 (unat w)"
definition u64_to_be :: "u64 \<Rightarrow> bytes" where "u64_to_be w = nat_to_be 8 (unat w)"

definition u16_of_be :: "bytes \<Rightarrow> u16" where "u16_of_be bs = of_nat (nat_of_be bs)"
definition u32_of_be :: "bytes \<Rightarrow> u32" where "u32_of_be bs = of_nat (nat_of_be bs)"
definition u64_of_be :: "bytes \<Rightarrow> u64" where "u64_of_be bs = of_nat (nat_of_be bs)"

definition u16_of_le :: "bytes \<Rightarrow> u16" where "u16_of_le bs = u16_of_be (rev bs)"
definition u32_of_le :: "bytes \<Rightarrow> u32" where "u32_of_le bs = u32_of_be (rev bs)"
definition u64_of_le :: "bytes \<Rightarrow> u64" where "u64_of_le bs = u64_of_be (rev bs)"

definition u16_to_le :: "u16 \<Rightarrow> bytes" where "u16_to_le w = rev (u16_to_be w)"
definition u32_to_le :: "u32 \<Rightarrow> bytes" where "u32_to_le w = rev (u32_to_be w)"
definition u64_to_le :: "u64 \<Rightarrow> bytes" where "u64_to_le w = rev (u64_to_be w)"

lemma unat_bounds:
  "unat (a :: u8) < 256" "unat (b :: u16) < 65536" "unat (c :: u32) < 4294967296"
  "unat (d :: u64) < 18446744073709551616"
  using unsigned_less [of a] unsigned_less [of b] unsigned_less [of c] unsigned_less [of d] by simp_all

lemma of_nat_unat_mod: "of_nat (unat w mod 2 ^ LENGTH('a)) = (w :: 'a::len word)"
  using unsigned_less [of w] by (simp add: mod_less)

lemma length_to_be [simp, codec]:
  "length (u16_to_be a) = 2" "length (u32_to_be b) = 4" "length (u64_to_be c) = 8"
  by (simp_all add: u16_to_be_def u32_to_be_def u64_to_be_def)

lemma length_to_le [simp, codec]:
  "length (u16_to_le a) = 2" "length (u32_to_le b) = 4" "length (u64_to_le c) = 8"
  by (simp_all add: u16_to_le_def u32_to_le_def u64_to_le_def)

lemma of_be_to_be [simp, codec]:
  "u16_of_be (u16_to_be a) = a" "u32_of_be (u32_to_be b) = b" "u64_of_be (u64_to_be c) = c"
  using of_nat_unat_mod [of a] of_nat_unat_mod [of b] of_nat_unat_mod [of c]
  by (simp_all add: u16_of_be_def u32_of_be_def u64_of_be_def u16_to_be_def u32_to_be_def
      u64_to_be_def nat_of_be_to_be)

lemma of_le_to_le [simp, codec]:
  "u16_of_le (u16_to_le a) = a" "u32_of_le (u32_to_le b) = b" "u64_of_le (u64_to_le c) = c"
  by (simp_all add: u16_of_le_def u32_of_le_def u64_of_le_def u16_to_le_def u32_to_le_def
      u64_to_le_def)

lemma unat_of_nat_be:
  "length bs = 2 \<Longrightarrow> unat (u16_of_be bs) = nat_of_be bs"
  "length bs = 4 \<Longrightarrow> unat (u32_of_be bs) = nat_of_be bs"
  "length bs = 8 \<Longrightarrow> unat (u64_of_be bs) = nat_of_be bs"
  using nat_of_be_less [of bs]
  by (simp_all add: u16_of_be_def u32_of_be_def u64_of_be_def unat_of_nat)

lemma to_be_of_be:
  "length bs = 2 \<Longrightarrow> u16_to_be (u16_of_be bs) = bs"
  "length bs = 4 \<Longrightarrow> u32_to_be (u32_of_be bs) = bs"
  "length bs = 8 \<Longrightarrow> u64_to_be (u64_of_be bs) = bs"
  by (simp_all add: u16_to_be_def u32_to_be_def u64_to_be_def unat_of_nat_be nat_to_be_of_be)

section \<open>Bounds-checked reads\<close>

text \<open>
  \<open>get_bytes buf off n\<close> is the slice \<open>&buf[off..off + n]\<close>: it panics when the range leaves the
  buffer.  \<open>get_u8\<close> is \<open>buf[off]\<close>, the others are the \<open>get_u16\<close>/\<open>get_u32\<close>/\<open>get_u64\<close> helpers the
  protocol modules share.
\<close>

definition get_bytes :: "bytes \<Rightarrow> nat \<Rightarrow> nat \<Rightarrow> ('e, bytes) result" where
  "get_bytes buf off n = (if off + n \<le> length buf then Ok (take n (drop off buf)) else Panic)"

definition get_u8 :: "bytes \<Rightarrow> nat \<Rightarrow> ('e, u8) result" where
  "get_u8 buf off = (if off < length buf then Ok (buf ! off) else Panic)"

definition get_u16 :: "bytes \<Rightarrow> nat \<Rightarrow> ('e, u16) result" where
  "get_u16 buf off = rbind (get_bytes buf off 2) (\<lambda>bs. Ok (u16_of_be bs))"

definition get_u32 :: "bytes \<Rightarrow> nat \<Rightarrow> ('e, u32) result" where
  "get_u32 buf off = rbind (get_bytes buf off 4) (\<lambda>bs. Ok (u32_of_be bs))"

definition get_u64 :: "bytes \<Rightarrow> nat \<Rightarrow> ('e, u64) result" where
  "get_u64 buf off = rbind (get_bytes buf off 8) (\<lambda>bs. Ok (u64_of_be bs))"

lemma get_bytes_skip [codec]:
  "length xs \<le> off \<Longrightarrow> get_bytes (xs @ ys) off n = get_bytes ys (off - length xs) n"
  by (auto simp: get_bytes_def)

lemma get_bytes_skip1 [codec]: "0 < off \<Longrightarrow> get_bytes (x # ys) off n = get_bytes ys (off - 1) n"
  using get_bytes_skip [of "[x]" off ys n] by simp

lemma get_bytes_here [codec]: "length xs = n \<Longrightarrow> get_bytes (xs @ ys) 0 n = Ok xs"
  by (auto simp: get_bytes_def)

lemma get_bytes_all [codec]: "length xs = n \<Longrightarrow> get_bytes xs 0 n = Ok xs"
  by (auto simp: get_bytes_def)

lemma get_bytes_none [codec]: "get_bytes xs 0 0 = Ok []"
  by (simp add: get_bytes_def)

lemma get_bytes_ok: "off + n \<le> length buf \<Longrightarrow> get_bytes buf off n = Ok (take n (drop off buf))"
  by (simp add: get_bytes_def)

lemma get_u8_skip [codec]: "length xs \<le> off \<Longrightarrow> get_u8 (xs @ ys) off = get_u8 ys (off - length xs)"
  by (auto simp: get_u8_def nth_append)

lemma get_u8_skip1 [codec]: "0 < off \<Longrightarrow> get_u8 (x # ys) off = get_u8 ys (off - 1)"
  by (auto simp: get_u8_def nth_Cons split: nat.splits)

lemma get_u8_here [codec]: "get_u8 (x # ys) 0 = Ok x"
  by (simp add: get_u8_def)

lemma get_int_skip [codec]:
  "length xs \<le> off \<Longrightarrow> get_u16 (xs @ ys) off = get_u16 ys (off - length xs)"
  "length xs \<le> off \<Longrightarrow> get_u32 (xs @ ys) off = get_u32 ys (off - length xs)"
  "length xs \<le> off \<Longrightarrow> get_u64 (xs @ ys) off = get_u64 ys (off - length xs)"
  by (simp_all add: get_u16_def get_u32_def get_u64_def get_bytes_skip)

lemma get_int_skip1 [codec]:
  "0 < off \<Longrightarrow> get_u16 (x # ys) off = get_u16 ys (off - 1)"
  "0 < off \<Longrightarrow> get_u32 (x # ys) off = get_u32 ys (off - 1)"
  "0 < off \<Longrightarrow> get_u64 (x # ys) off = get_u64 ys (off - 1)"
  by (simp_all add: get_u16_def get_u32_def get_u64_def get_bytes_skip1)

lemma get_int_here [codec]:
  "get_u16 (u16_to_be a @ ys) 0 = Ok a" "get_u16 (u16_to_be a) 0 = Ok a"
  "get_u32 (u32_to_be b @ ys) 0 = Ok b" "get_u32 (u32_to_be b) 0 = Ok b"
  "get_u64 (u64_to_be c @ ys) 0 = Ok c" "get_u64 (u64_to_be c) 0 = Ok c"
  by (simp_all add: get_u16_def get_u32_def get_u64_def get_bytes_here get_bytes_all)

lemma get_ok:
  "off < length buf \<Longrightarrow> get_u8 buf off = Ok (buf ! off)"
  "off + 2 \<le> length buf \<Longrightarrow> get_u16 buf off = Ok (u16_of_be (take 2 (drop off buf)))"
  "off + 4 \<le> length buf \<Longrightarrow> get_u32 buf off = Ok (u32_of_be (take 4 (drop off buf)))"
  "off + 8 \<le> length buf \<Longrightarrow> get_u64 buf off = Ok (u64_of_be (take 8 (drop off buf)))"
  by (simp_all add: get_u8_def get_u16_def get_u32_def get_u64_def get_bytes_ok)

lemmas reads_ok = get_ok get_bytes_ok

section \<open>The contract of a wire format\<close>

text \<open>
  \<open>wf\<close> delimits the messages the format can carry (a payload length that fits its length
  field), \<open>total\<close> reads the length of a whole message off its fixed header.  A receiver that
  reads a header of \<open>hlen\<close> bytes, computes the total and reads the rest, as every connection loop
  of the servers does, cuts a byte stream into exactly the messages that were sent.
\<close>

locale codec =
  fixes enc :: "'m \<Rightarrow> bytes"
    and dec :: "bytes \<Rightarrow> ('e, 'm) result"
    and wf :: "'m \<Rightarrow> bool"
  assumes dec_enc_append: "wf m \<Longrightarrow> dec (enc m @ rest) = Ok m"
begin

lemma dec_enc: "wf m \<Longrightarrow> dec (enc m) = Ok m"
  using dec_enc_append [of m "[]"] by simp

lemma enc_prefix_free:
  assumes "wf m" "wf n" and eq: "enc m @ xs = enc n @ ys"
  shows "m = n \<and> xs = ys"
proof -
  have "Ok m = dec (enc m @ xs)" by (rule dec_enc_append [OF \<open>wf m\<close>, symmetric])
  also have "\<dots> = dec (enc n @ ys)" by (rule arg_cong [OF eq])
  also have "\<dots> = Ok n" by (rule dec_enc_append [OF \<open>wf n\<close>])
  finally have "m = n" by (rule result.inject(1) [THEN iffD1])
  with eq show ?thesis by simp
qed

lemma enc_inj: "inj_on enc (Collect wf)"
proof (rule inj_onI)
  fix m n assume "m \<in> Collect wf" "n \<in> Collect wf" "enc m = enc n"
  then show "m = n" using enc_prefix_free [of m n "[]" "[]"] by auto
qed

end

locale framed_codec = codec enc dec wf
  for enc :: "'m \<Rightarrow> bytes" and dec :: "bytes \<Rightarrow> ('e, 'm) result" and wf :: "'m \<Rightarrow> bool" +
  fixes hlen :: nat
    and total :: "bytes \<Rightarrow> ('e, nat) result"
  assumes hlen_pos: "0 < hlen"
    and hlen_enc: "wf m \<Longrightarrow> hlen \<le> length (enc m)"
    and total_enc: "wf m \<Longrightarrow> total (take hlen (enc m)) = Ok (length (enc m))"
begin

definition read_frame :: "bytes \<Rightarrow> ('m \<times> bytes) option" where
  "read_frame s =
     (if length s < hlen then None
      else case total (take hlen s) of
        Ok n \<Rightarrow> (if length s < n then None
                 else case dec (take n s) of Ok m \<Rightarrow> Some (m, drop n s) | _ \<Rightarrow> None)
      | _ \<Rightarrow> None)"

lemma read_frame_enc: "wf m \<Longrightarrow> read_frame (enc m @ rest) = Some (m, rest)"
  using hlen_enc [of m] total_enc [of m] dec_enc [of m] by (simp add: read_frame_def)

fun read_frames :: "nat \<Rightarrow> bytes \<Rightarrow> 'm list \<times> bytes" where
  "read_frames 0 s = ([], s)"
| "read_frames (Suc k) s =
     (case read_frame s of
        None \<Rightarrow> ([], s)
      | Some (m, r) \<Rightarrow> (let (ms, r') = read_frames k r in (m # ms, r')))"

lemma read_frames_concat:
  "\<forall>m \<in> set ms. wf m \<Longrightarrow> read_frames (length ms) (concat (map enc ms) @ rest) = (ms, rest)"
  by (induction ms) (simp_all add: read_frame_enc)

end

end
