(* ===== verification/Common_Types.thy ===== *)
theory Common_Types
  imports Prelude "HOL-Library.Product_Lexorder" "HOL-Library.Sublist"
begin

text \<open>
  The identifiers every service shares: \<open>Lsn\<close> (\<open>common/src/lsn.rs\<close>), \<open>TenantId\<close> and
  \<open>TimelineId\<close> (\<open>common/src/ids.rs\<close>), \<open>ForkNumber\<close>, \<open>RelTag\<close> and \<open>PageKey\<close>
  (\<open>common/src/page.rs\<close>), with the orders \<open>derive(Ord)\<close> gives them and the textual forms the
  control interfaces print and parse.  A Rust \<open>str\<close> is a \<^typ>\<open>string\<close> whose characters are its
  UTF-8 bytes; \<open>[u8; 16]\<close> is a \<open>128 word\<close>, whose order is the lexicographic one of its
  big-endian bytes.  The main results are the print/parse round trips of LSNs and identifiers.
\<close>

section \<open>Errors of the shared crate\<close>

datatype Error = Parse string

section \<open>Text: what the sources use of the Rust string library\<close>

definition hex_digit_upper :: "nat \<Rightarrow> char" where
  "hex_digit_upper d = char_of (if d < 10 then 48 + d else 55 + d)"

definition hex_digit_lower :: "nat \<Rightarrow> char" where
  "hex_digit_lower d = char_of (if d < 10 then 48 + d else 87 + d)"

definition to_digit16 :: "char \<Rightarrow> nat option" where
  "to_digit16 c =
     (let n = of_char c :: nat in
      if 48 \<le> n \<and> n \<le> 57 then Some (n - 48)
      else if 65 \<le> n \<and> n \<le> 70 then Some (n - 55)
      else if 97 \<le> n \<and> n \<le> 102 then Some (n - 87)
      else None)"

fun to_hex :: "(nat \<Rightarrow> char) \<Rightarrow> nat \<Rightarrow> string" where
  "to_hex dig n = (if n < 16 then [dig n] else to_hex dig (n div 16) @ [dig (n mod 16)])"

declare to_hex.simps [simp del]

fun to_dec :: "nat \<Rightarrow> string" where
  "to_dec n = (if n < 10 then [char_of (48 + n)] else to_dec (n div 10) @ [char_of (48 + n mod 10)])"

declare to_dec.simps [simp del]

definition quoted :: "string \<Rightarrow> string" where
  "quoted s = CHR 0x27 # s @ [CHR 0x27]"

datatype IntErrorKind = Empty | InvalidDigit | PosOverflow

fun int_error_display :: "IntErrorKind \<Rightarrow> string" where
  "int_error_display Empty = ''cannot parse integer from empty string''"
| "int_error_display InvalidDigit = ''invalid digit found in string''"
| "int_error_display PosOverflow = ''number too large to fit in target type''"

text \<open>
  \<open>from_str_radix(s, 16)\<close> of an unsigned type with largest value \<open>mx\<close>: an empty string, a lone
  sign and a non-digit are refused, one leading plus sign is accepted.
\<close>

fun parse_hex_digits :: "nat \<Rightarrow> nat \<Rightarrow> string \<Rightarrow> (IntErrorKind, nat) result" where
  "parse_hex_digits mx acc [] = Ok acc"
| "parse_hex_digits mx acc (c # cs) =
     (case to_digit16 c of
        None \<Rightarrow> Err InvalidDigit
      | Some d \<Rightarrow>
          (if acc * 16 + d > mx then Err PosOverflow else parse_hex_digits mx (acc * 16 + d) cs))"

definition from_str_radix16 :: "nat \<Rightarrow> string \<Rightarrow> (IntErrorKind, nat) result" where
  "from_str_radix16 mx s =
     (case s of
        [] \<Rightarrow> Err Empty
      | [c] \<Rightarrow> (if c = CHR ''+'' \<or> c = CHR ''-'' then Err InvalidDigit
                else parse_hex_digits mx 0 [c])
      | c # cs \<Rightarrow> (if c = CHR ''+'' then parse_hex_digits mx 0 cs
                   else parse_hex_digits mx 0 (c # cs)))"

text \<open>\<open>str::trim\<close>: the UTF-8 forms of the Unicode white space characters.\<close>

definition white_space :: "string list" where
  "white_space =
     [[CHR 0x09], [CHR 0x0A], [CHR 0x0B], [CHR 0x0C], [CHR 0x0D], [CHR 0x20],
      [CHR 0xC2, CHR 0x85], [CHR 0xC2, CHR 0xA0], [CHR 0xE1, CHR 0x9A, CHR 0x80]]
     @ map (\<lambda>b. [CHR 0xE2, CHR 0x80, char_of b]) ([128..<139] @ [168, 169, 175 :: nat])
     @ [[CHR 0xE2, CHR 0x81, CHR 0x9F], [CHR 0xE3, CHR 0x80, CHR 0x80]]"

fun strip_prefixes :: "string list \<Rightarrow> nat \<Rightarrow> string \<Rightarrow> string" where
  "strip_prefixes ws 0 s = s"
| "strip_prefixes ws (Suc k) s =
     (case find (\<lambda>w. prefix w s) ws of
        None \<Rightarrow> s
      | Some w \<Rightarrow> strip_prefixes ws k (drop (length w) s))"

definition trim_start :: "string \<Rightarrow> string" where
  "trim_start s = strip_prefixes white_space (length s) s"

definition trim_end :: "string \<Rightarrow> string" where
  "trim_end s = rev (strip_prefixes (map rev white_space) (length s) (rev s))"

definition trim :: "string \<Rightarrow> string" where
  "trim s = trim_end (trim_start s)"

fun split_once :: "char \<Rightarrow> string \<Rightarrow> (string \<times> string) option" where
  "split_once d [] = None"
| "split_once d (c # cs) =
     (if c = d then Some ([], cs)
      else case split_once d cs of None \<Rightarrow> None | Some (a, b) \<Rightarrow> Some (c # a, b))"

definition str_bytes :: "string \<Rightarrow> bytes" where
  "str_bytes s = map (\<lambda>c. of_nat (of_char c)) s"

definition bytes_str :: "bytes \<Rightarrow> string" where
  "bytes_str bs = map (\<lambda>b. char_of (unat b)) bs"

text \<open>
  One step of the UTF-8 scanner behind \<open>String::from_utf8\<close> and \<open>from_utf8_lossy\<close>: how many bytes
  the next chunk has and whether it is a valid character.  An invalid chunk is the longest prefix
  of a character that could still have been completed.
\<close>

definition in_rng :: "bytes \<Rightarrow> nat \<Rightarrow> nat \<Rightarrow> nat \<Rightarrow> bool" where
  "in_rng bs i lo hi \<longleftrightarrow> i < length bs \<and> lo \<le> unat (bs ! i) \<and> unat (bs ! i) \<le> hi"

definition utf8_step :: "bytes \<Rightarrow> nat \<times> bool" where
  "utf8_step bs =
     (if in_rng bs 0 0 127 then (1, True)
      else if in_rng bs 0 194 223 then (if in_rng bs 1 128 191 then (2, True) else (1, False))
      else if in_rng bs 0 224 239 then
        (let lo = (if in_rng bs 0 224 224 then 160 else 128);
             hi = (if in_rng bs 0 237 237 then 159 else 191) in
         if \<not> in_rng bs 1 lo hi then (1, False)
         else if \<not> in_rng bs 2 128 191 then (2, False) else (3, True))
      else if in_rng bs 0 240 244 then
        (let lo = (if in_rng bs 0 240 240 then 144 else 128);
             hi = (if in_rng bs 0 244 244 then 143 else 191) in
         if \<not> in_rng bs 1 lo hi then (1, False)
         else if \<not> in_rng bs 2 128 191 then (2, False)
         else if \<not> in_rng bs 3 128 191 then (3, False) else (4, True))
      else (1, False))"

lemma utf8_step_pos: "0 < fst (utf8_step bs)"
  by (auto simp: utf8_step_def Let_def)

lemma utf8_step_shrinks: "bs \<noteq> [] \<Longrightarrow> (n, ok) = utf8_step bs \<Longrightarrow> length (drop n bs) < length bs"
  using utf8_step_pos [of bs] by (metis diff_less fst_conv length_drop length_greater_0_conv)

function from_utf8_lossy :: "bytes \<Rightarrow> bytes" where
  "from_utf8_lossy bs =
     (if bs = [] then []
      else let (n, ok) = utf8_step bs in
        (if ok then take n bs else [0xEF, 0xBF, 0xBD]) @ from_utf8_lossy (drop n bs))"
  by auto

termination
proof (relation "measure length", goal_cases)
  case 1
  then show ?case by simp
next
  case (2 bs x n ok)
  then show ?case using utf8_step_shrinks [of bs n ok] by simp
qed

function utf8_valid :: "bytes \<Rightarrow> bool" where
  "utf8_valid bs =
     (if bs = [] then True
      else let (n, ok) = utf8_step bs in ok \<and> utf8_valid (drop n bs))"
  by auto

termination
proof (relation "measure length", goal_cases)
  case 1
  then show ?case by simp
next
  case (2 bs x n ok)
  then show ?case using utf8_step_shrinks [of bs n ok] by simp
qed

declare from_utf8_lossy.simps [simp del] utf8_valid.simps [simp del]

section \<open>Log sequence numbers\<close>

type_synonym Lsn = u64

abbreviation INVALID :: Lsn where "INVALID \<equiv> 0"

definition is_valid :: "Lsn \<Rightarrow> bool" where
  "is_valid l \<longleftrightarrow> l \<noteq> 0"

definition align_down :: "Lsn \<Rightarrow> u64 \<Rightarrow> (Error, Lsn) result" where
  "align_down l block_size = (if block_size = 0 then Panic else Ok (l - l mod block_size))"

definition checked_add :: "Lsn \<Rightarrow> u64 \<Rightarrow> Lsn option" where
  "checked_add l n = (if unat l + unat n < 2 ^ 64 then Some (l + n) else None)"

definition lsn_display :: "Lsn \<Rightarrow> string" where
  "lsn_display l =
     to_hex hex_digit_upper (unat (drop_bit 32 l)) @ ''/''
     @ to_hex hex_digit_upper (unat (take_bit 32 l))"

definition u32_max :: nat where "u32_max = 4294967295"

definition lsn_from_str :: "string \<Rightarrow> (Error, Lsn) result" where
  "lsn_from_str s =
     rbind (ok_or (split_once (CHR ''/'') s)
        (Parse (''LSN '' @ quoted s @ '' is missing the '' @ quoted ''/'' @ '' separator''))) (\<lambda>(hi, lo).
     rbind (map_err (\<lambda>e. Parse (''invalid LSN high half '' @ quoted hi @ '': '' @ int_error_display e))
        (from_str_radix16 u32_max (trim hi))) (\<lambda>h.
     rbind (map_err (\<lambda>e. Parse (''invalid LSN low half '' @ quoted lo @ '': '' @ int_error_display e))
        (from_str_radix16 u32_max (trim lo))) (\<lambda>l.
     Ok (or (push_bit 32 (of_nat h)) (of_nat l)))))"

section \<open>Tenant and timeline identifiers\<close>

type_synonym TenantId = "128 word"
type_synonym TimelineId = "128 word"

definition ZERO :: "128 word" where "ZERO = 0"

definition as_bytes :: "128 word \<Rightarrow> bytes" where
  "as_bytes i = nat_to_be 16 (unat i)"

definition from_bytes :: "bytes \<Rightarrow> 128 word" where
  "from_bytes bs = of_nat (nat_of_be bs)"

definition hex_byte :: "u8 \<Rightarrow> string" where
  "hex_byte b = [hex_digit_lower (unat b div 16), hex_digit_lower (unat b mod 16)]"

definition id_display :: "128 word \<Rightarrow> string" where
  "id_display i = concat (map hex_byte (as_bytes i))"

definition char_boundary :: "string \<Rightarrow> nat \<Rightarrow> bool" where
  "char_boundary s i \<longleftrightarrow>
     i = 0 \<or> i = length s \<or> (i < length s \<and> \<not> (128 \<le> (of_char (s ! i) :: nat) \<and> (of_char (s ! i) :: nat) < 192))"

text \<open>\<open>nm\<close> is the type name the \<open>hex_id\<close> macro splices into its messages.\<close>

fun id_bytes_from :: "string \<Rightarrow> string \<Rightarrow> nat \<Rightarrow> nat \<Rightarrow> (Error, bytes) result" where
  "id_bytes_from nm s i 0 = Ok []"
| "id_bytes_from nm s i (Suc k) =
     (if \<not> (char_boundary s (i * 2) \<and> char_boundary s (i * 2 + 2)) then Panic
      else rbind (map_err (\<lambda>e. Parse (''invalid hex in '' @ nm @ '': '' @ int_error_display e))
             (from_str_radix16 255 (take 2 (drop (i * 2) s)))) (\<lambda>b.
           rbind (id_bytes_from nm s (i + 1) k) (\<lambda>bs. Ok (of_nat b # bs))))"

definition id_from_str :: "string \<Rightarrow> string \<Rightarrow> (Error, 128 word) result" where
  "id_from_str nm s =
     (if length s \<noteq> 32
      then Err (Parse (nm @ '' must be 32 hex chars, got '' @ to_dec (length s)))
      else rbind (id_bytes_from nm s 0 16) (\<lambda>bs. Ok (from_bytes bs)))"

section \<open>Pages\<close>

definition PAGE_SIZE :: nat where "PAGE_SIZE = 8192"

datatype ForkNumber = Main | Fsm | VisibilityMap | Init

fun fork_raw :: "ForkNumber \<Rightarrow> u8" where
  "fork_raw Main = 0"
| "fork_raw Fsm = 1"
| "fork_raw VisibilityMap = 2"
| "fork_raw Init = 3"

definition from_raw :: "u8 \<Rightarrow> ForkNumber option" where
  "from_raw raw =
     (if raw = 0 then Some Main
      else if raw = 1 then Some Fsm
      else if raw = 2 then Some VisibilityMap
      else if raw = 3 then Some Init
      else None)"

datatype RelTag = RelTag (spc_node: u32) (db_node: u32) (rel_node: u32) (fork: ForkNumber)

datatype PageKey = PageKey (rel: RelTag) (block: u32)

definition reltag_ord_key :: "RelTag \<Rightarrow> u32 \<times> u32 \<times> u32 \<times> u8" where
  "reltag_ord_key r = (spc_node r, db_node r, rel_node r, fork_raw (fork r))"

definition pagekey_ord_key :: "PageKey \<Rightarrow> (u32 \<times> u32 \<times> u32 \<times> u8) \<times> u32" where
  "pagekey_ord_key k = (reltag_ord_key (rel k), block k)"

lemma fork_raw_inject [simp]: "fork_raw a = fork_raw b \<longleftrightarrow> a = b"
  by (cases a; cases b) simp_all

lemma from_raw_fork_raw [simp, codec]: "from_raw (fork_raw f) = Some f"
  by (cases f) (simp_all add: from_raw_def)

lemma fork_raw_from_raw: "from_raw r = Some f \<Longrightarrow> fork_raw f = r"
  by (auto simp: from_raw_def split: if_splits)

lemma reltag_ord_key_inject [simp]: "reltag_ord_key a = reltag_ord_key b \<longleftrightarrow> a = b"
  by (cases a; cases b) (auto simp: reltag_ord_key_def)

lemma pagekey_ord_key_inject [simp]: "pagekey_ord_key a = pagekey_ord_key b \<longleftrightarrow> a = b"
  by (cases a; cases b) (auto simp: pagekey_ord_key_def)

instantiation RelTag :: linorder
begin

definition less_eq_RelTag :: "RelTag \<Rightarrow> RelTag \<Rightarrow> bool" where
  "less_eq_RelTag a b \<longleftrightarrow> reltag_ord_key a \<le> reltag_ord_key b"

definition less_RelTag :: "RelTag \<Rightarrow> RelTag \<Rightarrow> bool" where
  "less_RelTag a b \<longleftrightarrow> reltag_ord_key a < reltag_ord_key b"

instance
  by intro_classes (auto simp: less_eq_RelTag_def less_RelTag_def
      simp del: less_eq_prod_simp less_prod_simp dest: antisym)

end

instantiation PageKey :: linorder
begin

definition less_eq_PageKey :: "PageKey \<Rightarrow> PageKey \<Rightarrow> bool" where
  "less_eq_PageKey a b \<longleftrightarrow> pagekey_ord_key a \<le> pagekey_ord_key b"

definition less_PageKey :: "PageKey \<Rightarrow> PageKey \<Rightarrow> bool" where
  "less_PageKey a b \<longleftrightarrow> pagekey_ord_key a < pagekey_ord_key b"

instance
  by intro_classes (auto simp: less_eq_PageKey_def less_PageKey_def
      simp del: less_eq_prod_simp less_prod_simp dest: antisym)

end

section \<open>Printing and parsing\<close>

lemma char_of_le_inject: "x < 256 \<Longrightarrow> of_char (char_of (x :: nat)) = x"
  by simp

lemma to_digit16_upper [simp]: "d < 16 \<Longrightarrow> to_digit16 (hex_digit_upper d) = Some d"
  by (auto simp: to_digit16_def hex_digit_upper_def Let_def)

lemma to_digit16_lower [simp]: "d < 16 \<Longrightarrow> to_digit16 (hex_digit_lower d) = Some d"
  by (auto simp: to_digit16_def hex_digit_lower_def Let_def)

lemma parse_hex_digits_append:
  "parse_hex_digits mx acc (xs @ ys) =
     rbind (parse_hex_digits mx acc xs) (\<lambda>a. parse_hex_digits mx a ys)"
  by (induction xs arbitrary: acc) (auto split: option.splits)

lemma parse_to_hex:
  assumes "\<And>d. d < 16 \<Longrightarrow> to_digit16 (dig d) = Some d"
  shows "n \<le> mx \<Longrightarrow> parse_hex_digits mx 0 (to_hex dig n) = Ok n"
proof (induction n rule: less_induct)
  case (less n)
  show ?case
  proof (cases "n < 16")
    case True
    with assms less.prems show ?thesis by (simp add: to_hex.simps)
  next
    case False
    then have "parse_hex_digits mx 0 (to_hex dig (n div 16)) = Ok (n div 16)"
      using less by auto
    with False assms less.prems show ?thesis
      by (simp add: to_hex.simps [of dig n] parse_hex_digits_append)
  qed
qed

lemma to_hex_chars: "set (to_hex dig n) \<subseteq> dig ` {..<16}"
  by (induction dig n rule: to_hex.induct) (subst to_hex.simps, auto)

lemma to_hex_not_Nil [simp]: "to_hex dig n \<noteq> []"
  by (subst to_hex.simps) auto

lemma digit_is_hex: "to_digit16 c = Some d \<Longrightarrow>
   c \<noteq> CHR ''+'' \<and> c \<noteq> CHR ''-'' \<and> c \<noteq> CHR ''/'' \<and> c \<noteq> CHR '' '' \<and> 32 < (of_char c :: nat) \<and> (of_char c :: nat) < 128"
  by (auto simp: to_digit16_def Let_def split: if_splits)

lemma from_str_radix16_digits:
  assumes "s \<noteq> []" "\<And>c. c \<in> set s \<Longrightarrow> to_digit16 c \<noteq> None"
  shows "from_str_radix16 mx s = parse_hex_digits mx 0 s"
  using assms digit_is_hex [of "hd s"]
  by (cases s) (fastforce simp: from_str_radix16_def split: list.splits)+

lemma strip_prefixes_none:
  "(\<And>w. w \<in> set ws \<Longrightarrow> w \<noteq> [] \<and> hd w \<notin> set s) \<Longrightarrow> strip_prefixes ws k s = s"
proof (induction k)
  case 0
  then show ?case by simp
next
  case (Suc k)
  have "find (\<lambda>w. prefix w s) ws = None"
    using Suc.prems by (fastforce simp: find_None_iff prefix_def)
  then show ?case by simp
qed

lemma white_space_ends:
  "w \<in> set white_space \<Longrightarrow> w \<noteq> [] \<and> \<not> (32 < (of_char (hd w) :: nat) \<and> (of_char (hd w) :: nat) < 128)
     \<and> \<not> (32 < (of_char (last w) :: nat) \<and> (of_char (last w) :: nat) < 128)"
  unfolding white_space_def by auto

lemma trim_graphic:
  assumes "\<And>c. c \<in> set s \<Longrightarrow> 32 < (of_char c :: nat) \<and> (of_char c :: nat) < 128"
  shows "trim s = s"
proof -
  have "trim_start s = s"
    unfolding trim_start_def
  proof (rule strip_prefixes_none)
    fix w assume "w \<in> set white_space"
    then show "w \<noteq> [] \<and> hd w \<notin> set s" using white_space_ends [of w] assms [of "hd w"] by blast
  qed
  moreover have "strip_prefixes (map rev white_space) (length s) (rev s) = rev s"
  proof (rule strip_prefixes_none)
    fix w assume "w \<in> set (map rev white_space)"
    then obtain v where v: "v \<in> set white_space" "w = rev v" by auto
    then have "hd w = last v" "v \<noteq> []" using white_space_ends [of v] by (simp_all add: hd_rev)
    then show "w \<noteq> [] \<and> hd w \<notin> set (rev s)"
      using v white_space_ends [of v] assms [of "last v"] by auto
  qed
  ultimately show ?thesis by (simp add: trim_def trim_end_def)
qed

lemma split_once_append: "d \<notin> set xs \<Longrightarrow> split_once d (xs @ d # ys) = Some (xs, ys)"
  by (induction xs) auto

lemma bytes_str_bytes [simp, codec]: "bytes_str (str_bytes s) = s"
  by (simp add: bytes_str_def str_bytes_def o_def map_idI)

lemma str_bytes_str [simp]: "str_bytes (bytes_str bs) = bs"
proof -
  have "(of_nat (of_char (char_of (unat b))) :: u8) = b" for b :: u8
    using of_nat_unat_mod [of b] by simp
  then show ?thesis by (simp add: bytes_str_def str_bytes_def o_def map_idI)
qed

lemma length_str_bytes [simp, codec]: "length (str_bytes s) = length s"
  by (simp add: str_bytes_def)

lemma from_utf8_lossy_valid: "utf8_valid bs \<Longrightarrow> from_utf8_lossy bs = bs"
proof (induction "length bs" arbitrary: bs rule: less_induct)
  case less
  show ?case
  proof (cases "bs = []")
    case True
    then show ?thesis by (simp add: from_utf8_lossy.simps)
  next
    case False
    obtain n ok where st: "utf8_step bs = (n, ok)" by (cases "utf8_step bs")
    then have "ok" "utf8_valid (drop n bs)"
      using less.prems False by (simp_all add: utf8_valid.simps [of bs])
    moreover from this have "from_utf8_lossy (drop n bs) = drop n bs"
      using less.hyps utf8_step_shrinks [OF False st [symmetric]] by blast
    ultimately show ?thesis using False st by (simp add: from_utf8_lossy.simps [of bs])
  qed
qed

lemma utf8_valid_ascii:
  assumes "\<And>b. b \<in> set bs \<Longrightarrow> unat b < 128"
  shows "utf8_valid bs"
  using assms
proof (induction bs)
  case Nil
  then show ?case by (simp add: utf8_valid.simps)
next
  case (Cons b bs)
  have "unat b < 128" by (rule Cons.prems) simp
  then have "utf8_step (b # bs) = (1, True)"
    unfolding utf8_step_def in_rng_def by simp
  moreover have "utf8_valid bs" by (rule Cons.IH) (rule Cons.prems, simp)
  ultimately show ?case by (subst utf8_valid.simps) simp
qed

lemma in_rng_append: "i < length a \<Longrightarrow> in_rng (a @ b) i lo hi \<longleftrightarrow> in_rng a i lo hi"
  by (simp add: in_rng_def nth_append)

lemma utf8_step_append:
  assumes "utf8_step a = (n, True)"
  shows "utf8_step (a @ b) = (n, True)" "n \<le> length a"
proof -
  have "a \<noteq> []" using assms by (auto simp: utf8_step_def in_rng_def Let_def)
  then have zero: "in_rng (a @ b) 0 lo hi \<longleftrightarrow> in_rng a 0 lo hi" for lo hi by (simp add: in_rng_append)
  have more: "in_rng a i lo hi \<Longrightarrow> in_rng (a @ b) i lo hi \<and> i < length a" for i lo hi
    using in_rng_append [of i a b lo hi] by (auto simp: in_rng_def)
  show "utf8_step (a @ b) = (n, True)"
    using assms more unfolding utf8_step_def zero Let_def by (auto split: if_splits)
  show "n \<le> length a"
    using assms unfolding utf8_step_def in_rng_def Let_def by (auto simp: Suc_le_eq split: if_splits)
qed

lemma utf8_valid_append: "utf8_valid a \<Longrightarrow> utf8_valid b \<Longrightarrow> utf8_valid (a @ b)"
proof (induction a rule: utf8_valid.induct)
  case (1 a)
  show ?case
  proof (cases "a = []")
    case False
    obtain n ok where st: "utf8_step a = (n, ok)" by (cases "utf8_step a")
    then have ok: "ok" "utf8_valid (drop n a)" using 1(2) False by (simp_all add: utf8_valid.simps [of a])
    have ap: "utf8_step (a @ b) = (n, True)" "n \<le> length a" using utf8_step_append [of a n] st ok(1) by simp_all
    have "utf8_valid (drop n a @ b)" using 1(1) [OF False st [symmetric] refl] ok 1(3) by simp
    then show ?thesis using ap False by (subst utf8_valid.simps) simp
  qed (use 1(3) in simp)
qed

lemma lsn_parts: "or (push_bit 32 (of_nat (unat (drop_bit 32 l)))) (of_nat (unat (take_bit 32 l))) = (l :: Lsn)"
  by (rule bit_eqI) (auto simp: bit_or_iff bit_push_bit_iff bit_drop_bit_eq bit_take_bit_iff)

lemma u32_half_bounds: "unat (drop_bit 32 (l :: Lsn)) \<le> u32_max" "unat (take_bit 32 (l :: Lsn)) \<le> u32_max"
proof -
  have "unat l div 2 ^ 32 < 2 ^ 32"
    using unsigned_less [of l] by (simp add: div_less_iff_less_mult)
  then show "unat (drop_bit 32 l) \<le> u32_max"
    by (simp add: drop_bit_eq_div unat_div_distrib u32_max_def)
  show "unat (take_bit 32 l) \<le> u32_max"
    using take_bit_nat_less_exp [of 32 "unat l"] by (simp add: unsigned_take_bit_eq u32_max_def)
qed

lemma parse_upper_hex:
  assumes "n \<le> u32_max"
  shows "from_str_radix16 u32_max (trim (to_hex hex_digit_upper n)) = Ok n"
proof -
  let ?s = "to_hex hex_digit_upper n"
  have dig: "c \<in> set ?s \<Longrightarrow> to_digit16 c \<noteq> None" for c
    using to_hex_chars [of hex_digit_upper n] by auto
  then have "trim ?s = ?s"
    by (intro trim_graphic) (use digit_is_hex in blast)
  with dig assms show ?thesis
    by (simp add: from_str_radix16_digits parse_to_hex)
qed

lemma as_bytes_length [simp, codec]: "length (as_bytes i) = 16"
  by (simp add: as_bytes_def)

lemma from_bytes_as_bytes [simp, codec]: "from_bytes (as_bytes i) = i"
  using of_nat_unat_mod [of i] by (simp add: from_bytes_def as_bytes_def nat_of_be_to_be)

lemma as_bytes_from_bytes: "length bs = 16 \<Longrightarrow> as_bytes (from_bytes bs) = bs"
  using nat_of_be_less [of bs] by (simp add: from_bytes_def as_bytes_def unat_of_nat nat_to_be_of_be)

lemma hex_byte_props:
  "length (hex_byte b) = 2" "c \<in> set (hex_byte b) \<Longrightarrow> to_digit16 c \<noteq> None"
  "parse_hex_digits 255 0 (hex_byte b) = Ok (unat b)"
proof -
  have b: "unat b < 256" using unsigned_less [of b] by simp
  then have d: "unat b div 16 < 16" "unat b div 16 * 16 + unat b mod 16 = unat b" by auto
  show "length (hex_byte b) = 2" by (simp add: hex_byte_def)
  show "c \<in> set (hex_byte b) \<Longrightarrow> to_digit16 c \<noteq> None" using d by (auto simp: hex_byte_def)
  show "parse_hex_digits 255 0 (hex_byte b) = Ok (unat b)"
    using b d by (simp add: hex_byte_def)
qed

lemma from_str_hex_byte [simp]: "from_str_radix16 255 (hex_byte b) = Ok (unat b)"
  by (subst from_str_radix16_digits) (use hex_byte_props in \<open>auto simp: hex_byte_def\<close>)

lemma length_concat_hex: "length (concat (map hex_byte bs)) = 2 * length bs"
  by (induction bs) (simp_all add: hex_byte_props)

lemma char_boundary_ascii:
  "(\<And>c. c \<in> set s \<Longrightarrow> (of_char c :: nat) < 128) \<Longrightarrow> i \<le> length s \<Longrightarrow> char_boundary s i"
  by (auto simp: char_boundary_def)
     (metis leD le_neq_implies_less nth_mem)

lemma concat_hex_ascii: "c \<in> set (concat (map hex_byte bs)) \<Longrightarrow> (of_char c :: nat) < 128"
  using hex_byte_props(2) digit_is_hex by fastforce

lemma id_bytes_from_hex:
  "length pre = i \<Longrightarrow> id_bytes_from nm (concat (map hex_byte (pre @ bs))) i (length bs) = Ok bs"
proof (induction bs arbitrary: pre i)
  case Nil
  then show ?case by simp
next
  case (Cons b bs)
  let ?s = "concat (map hex_byte (pre @ b # bs))"
  have len: "length ?s = 2 * i + 2 + 2 * length bs"
    using Cons.prems by (simp only: length_concat_hex) simp
  have bnd: "char_boundary ?s (i * 2)" "char_boundary ?s (i * 2 + 2)"
    using concat_hex_ascii [of _ "pre @ b # bs"] len by (intro char_boundary_ascii; fastforce)+
  have tk: "take 2 (drop (i * 2) ?s) = hex_byte b"
    using Cons.prems length_concat_hex [of pre] by (simp add: hex_byte_props)
  have "id_bytes_from nm ?s (i + 1) (length bs) = Ok bs"
    using Cons.IH [of "pre @ [b]" "i + 1"] Cons.prems by simp
  then show ?case using bnd tk by simp
qed

lemma lsn_parse_display: "lsn_from_str (lsn_display l) = Ok l"
proof -
  let ?hi = "to_hex hex_digit_upper (unat (drop_bit 32 l))"
  let ?lo = "to_hex hex_digit_upper (unat (take_bit 32 l))"
  have "CHR ''/'' \<notin> set ?hi"
    using to_hex_chars [of hex_digit_upper] digit_is_hex [of "CHR ''/''"] by fastforce
  then have "split_once (CHR ''/'') (lsn_display l) = Some (?hi, ?lo)"
    by (simp add: lsn_display_def split_once_append)
  then show ?thesis
    using u32_half_bounds [of l] lsn_parts [of l]
    by (simp add: lsn_from_str_def parse_upper_hex del: of_nat_unat)
qed

lemma id_parse_display: "length (id_display i) = 32 \<and> id_from_str nm (id_display i) = Ok i"
proof -
  have len: "length (id_display i) = 32"
    by (simp add: id_display_def length_concat_hex)
  have "id_bytes_from nm (id_display i) 0 16 = Ok (as_bytes i)"
    using id_bytes_from_hex [of "[]" 0 nm "as_bytes i"] by (simp add: id_display_def)
  with len show ?thesis by (simp add: id_from_str_def)
qed

section \<open>Main results\<close>

text \<open>
  Identifiers survive printing: an LSN printed in PostgreSQL's high/low hexadecimal form parses back
  to itself, for every 64-bit position, and a tenant or timeline identifier, printed as 32 lowercase
  hexadecimal digits, parses back to itself.
\<close>

theorem identifiers_round_trip:
  "lsn_from_str (lsn_display l) = Ok l \<and> length (id_display i) = 32 \<and> id_from_str nm (id_display i) = Ok i"
  by (simp add: lsn_parse_display id_parse_display)

end
