(* ===== verification/Page_Service.thy ===== *)
theory Page_Service
  imports Common_Types
begin

text \<open>
  The protocol between the compute storage manager and the page server,
  \<open>common/src/page_service.rs\<close>: requests for a page image or a relation size and their responses.
  The decoders are total, requests and responses round-trip, and the length a server computes from
  the 8-byte header is the length of the request that follows.
\<close>

definition PS_MAGIC :: u32 where "PS_MAGIC = 0x53504731"
definition PS_VERSION :: u8 where "PS_VERSION = 1"
definition TYPE_GET_PAGE :: u8 where "TYPE_GET_PAGE = 1"
definition TYPE_GET_REL_SIZE :: u8 where "TYPE_GET_REL_SIZE = 2"
definition PS_STATUS_OK :: u8 where "PS_STATUS_OK = 0"
definition STATUS_NOT_FOUND :: u8 where "STATUS_NOT_FOUND = 1"
definition STATUS_ERROR :: u8 where "STATUS_ERROR = 2"
definition GET_PAGE_PAYLOAD :: nat where "GET_PAGE_PAYLOAD = 16 + 16 + 4 + 4 + 4 + 4 + 8"
definition GET_REL_SIZE_PAYLOAD :: nat where "GET_REL_SIZE_PAYLOAD = 16 + 16 + 4 + 4 + 4 + 8"
definition HEADER_LEN :: nat where "HEADER_LEN = 8"

lemmas ps_lens = GET_PAGE_PAYLOAD_def GET_REL_SIZE_PAYLOAD_def HEADER_LEN_def
lemmas ps_tags = TYPE_GET_PAGE_def TYPE_GET_REL_SIZE_def PS_STATUS_OK_def STATUS_NOT_FOUND_def
  STATUS_ERROR_def

datatype Request =
    GetPage TenantId TimelineId RelTag u32 Lsn
  | GetRelSize TenantId TimelineId RelTag Lsn

datatype Response = Page bytes | RelSize u32 | NotFound | Error string

fun request_encode :: "Request \<Rightarrow> bytes" where
  "request_encode (GetPage tn tli rt blk lsn) =
     u32_to_be PS_MAGIC @ [PS_VERSION, TYPE_GET_PAGE, fork_raw (fork rt), 0]
     @ as_bytes tn @ as_bytes tli
     @ u32_to_be (spc_node rt) @ u32_to_be (db_node rt) @ u32_to_be (rel_node rt)
     @ u32_to_be blk @ u64_to_be lsn"
| "request_encode (GetRelSize tn tli rt lsn) =
     u32_to_be PS_MAGIC @ [PS_VERSION, TYPE_GET_REL_SIZE, fork_raw (fork rt), 0]
     @ as_bytes tn @ as_bytes tli
     @ u32_to_be (spc_node rt) @ u32_to_be (db_node rt) @ u32_to_be (rel_node rt)
     @ u64_to_be lsn"

definition total_len :: "bytes \<Rightarrow> (Error, nat) result" where
  "total_len header =
     (if length header < HEADER_LEN then Err (Parse ''request header too short'')
      else rbind (get_u32 header 0) (\<lambda>magic.
        if magic \<noteq> PS_MAGIC then Err (Parse ''bad protocol magic'')
        else rbind (get_u8 header 4) (\<lambda>version.
          if version \<noteq> PS_VERSION then Err (Parse ''unsupported protocol version'')
          else rbind (get_u8 header 5) (\<lambda>ty.
            if ty = TYPE_GET_PAGE then Ok (HEADER_LEN + GET_PAGE_PAYLOAD)
            else if ty = TYPE_GET_REL_SIZE then Ok (HEADER_LEN + GET_REL_SIZE_PAYLOAD)
            else Err (Parse ''unknown request type'')))))"

definition expected_payload :: "u8 \<Rightarrow> nat option" where
  "expected_payload ty =
     (if ty = TYPE_GET_PAGE then Some GET_PAGE_PAYLOAD
      else if ty = TYPE_GET_REL_SIZE then Some GET_REL_SIZE_PAYLOAD
      else None)"

definition request_decode :: "bytes \<Rightarrow> (Error, Request) result" where
  "request_decode buf =
     (if length buf < HEADER_LEN then Err (Parse ''request shorter than header'')
      else rbind (get_u32 buf 0) (\<lambda>magic.
        if magic \<noteq> PS_MAGIC then Err (Parse ''bad protocol magic'')
        else rbind (get_u8 buf 4) (\<lambda>version.
          if version \<noteq> PS_VERSION then Err (Parse ''unsupported protocol version'')
          else rbind (get_u8 buf 5) (\<lambda>ty.
               rbind (get_u8 buf 6) (\<lambda>raw.
               rbind (ok_or (from_raw raw) (Parse ''invalid fork number'')) (\<lambda>fk.
               let body = drop HEADER_LEN buf in
               rbind (ok_or (expected_payload ty) (Parse ''unknown request type'')) (\<lambda>expected.
                 if length body < expected then Err (Parse ''request payload truncated'')
                 else rbind (get_bytes body 0 16) (\<lambda>tn.
                      rbind (get_bytes body 16 16) (\<lambda>tli.
                      rbind (get_u32 body 32) (\<lambda>spc.
                      rbind (get_u32 body 36) (\<lambda>db.
                      rbind (get_u32 body 40) (\<lambda>rn.
                      let rt = RelTag spc db rn fk in
                      if ty = TYPE_GET_PAGE then
                        rbind (get_u32 body 44) (\<lambda>blk.
                        rbind (get_u64 body 48) (\<lambda>lsn.
                        Ok (GetPage (from_bytes tn) (from_bytes tli) rt blk lsn)))
                      else if ty = TYPE_GET_REL_SIZE then
                        rbind (get_u64 body 44) (\<lambda>lsn.
                        Ok (GetRelSize (from_bytes tn) (from_bytes tli) rt lsn))
                      else Panic))))))))))))"

fun response_parts :: "Response \<Rightarrow> u8 \<times> bytes" where
  "response_parts (Page pg) = (PS_STATUS_OK, pg)"
| "response_parts (RelSize n) = (PS_STATUS_OK, u32_to_be n)"
| "response_parts NotFound = (STATUS_NOT_FOUND, [])"
| "response_parts (Error msg) = (STATUS_ERROR, str_bytes msg)"

definition response_encode :: "Response \<Rightarrow> bytes" where
  "response_encode r =
     (let (status, payload) = response_parts r in
      u32_to_be PS_MAGIC @ [PS_VERSION, status, 0, 0] @ u32_to_be (of_nat (length payload)) @ payload)"

definition response_decode :: "bytes \<Rightarrow> (Error, Response) result" where
  "response_decode buf =
     (let RESP_HEADER = HEADER_LEN + 4 in
      if length buf < RESP_HEADER then Err (Parse ''response shorter than header'')
      else rbind (get_u32 buf 0) (\<lambda>magic.
        if magic \<noteq> PS_MAGIC then Err (Parse ''bad protocol magic'')
        else rbind (get_u8 buf 4) (\<lambda>version.
          if version \<noteq> PS_VERSION then Err (Parse ''unsupported protocol version'')
          else rbind (get_u8 buf 5) (\<lambda>status.
               rbind (get_u32 buf 8) (\<lambda>n.
               let len = unat n in
               if length buf < RESP_HEADER + len then Err (Parse ''response payload truncated'')
               else rbind (get_bytes buf RESP_HEADER len) (\<lambda>payload.
                 if status = PS_STATUS_OK then
                   (if len = PAGE_SIZE then Ok (Page payload)
                    else if len = 4 then rbind (get_u32 payload 0) (\<lambda>k. Ok (RelSize k))
                    else Err (Parse ''OK response with unexpected payload length''))
                 else if status = STATUS_NOT_FOUND then Ok NotFound
                 else if status = STATUS_ERROR then Ok (Error (bytes_str (from_utf8_lossy payload)))
                 else Err (Parse ''unknown response status'')))))))"

section \<open>Round trips and totality\<close>

definition response_wf :: "Response \<Rightarrow> bool" where
  "response_wf r =
     (case r of
        Page pg \<Rightarrow> length pg = PAGE_SIZE
      | Error msg \<Rightarrow> length msg < 2 ^ 32 \<and> utf8_valid (str_bytes msg)
      | _ \<Rightarrow> True)"

lemma request_decode_encode: "request_decode (request_encode r @ rest) = Ok r"
  by (cases r)
     (simp_all add: request_decode_def expected_payload_def ps_lens ps_tags Let_def codec)

lemma response_decode_encode: "response_wf r \<Longrightarrow> response_decode (response_encode r @ rest) = Ok r"
  by (cases r)
     (simp_all add: response_decode_def response_encode_def response_wf_def ps_lens ps_tags
        PAGE_SIZE_def Let_def codec unat_of_nat from_utf8_lossy_valid)

interpretation request_codec: framed_codec request_encode request_decode "\<lambda>_. True" HEADER_LEN total_len
proof (unfold_locales, goal_cases)
  case (1 m rest)
  then show ?case by (simp add: request_decode_encode)
next
  case 2
  then show ?case by (simp add: ps_lens)
next
  case (3 m)
  then show ?case by (cases m) (simp_all add: ps_lens)
next
  case (4 m)
  then show ?case by (cases m) (simp_all add: total_len_def ps_lens ps_tags codec)
qed

interpretation response_codec: codec response_encode response_decode response_wf
  by unfold_locales (rule response_decode_encode)

lemma total_len_total: "total_len buf \<noteq> Panic"
  by (auto simp: total_len_def ps_lens rbind_eq_Panic reads_ok split: if_splits)

lemma expected_payload_cases:
  "expected_payload ty = Some n \<Longrightarrow>
     (ty = TYPE_GET_PAGE \<and> n = 56) \<or> (ty = TYPE_GET_REL_SIZE \<and> n = 52)"
  by (auto simp: expected_payload_def ps_lens split: if_splits)

lemma request_decode_total: "request_decode buf \<noteq> Panic"
  by (auto simp: request_decode_def HEADER_LEN_def ps_tags rbind_eq_Panic reads_ok rust Let_def
      dest!: expected_payload_cases split: if_splits)

lemma response_decode_total: "response_decode buf \<noteq> Panic"
  by (auto simp: response_decode_def HEADER_LEN_def rbind_eq_Panic reads_ok Let_def
      split: if_splits)

section \<open>Main results\<close>

text \<open>
  The page protocol carries requests and responses unchanged: decoding what was encoded gives the
  same message, and the length the server derives from the first eight bytes is the length of the whole
  request.  Responses are pages of 8192 bytes, sizes, not-found answers and UTF-8 error messages.  No byte
  string makes a decoder panic; in particular the \<open>unreachable!\<close> arm of the request decoder is
  unreachable.
\<close>

theorem page_messages_round_trip:
  "request_decode (request_encode r @ rest) = Ok r \<and>
   total_len (take HEADER_LEN (request_encode r)) = Ok (length (request_encode r)) \<and>
   (response_wf p \<longrightarrow> response_decode (response_encode p @ rest) = Ok p) \<and>
   total_len buf \<noteq> Panic \<and> request_decode buf \<noteq> Panic \<and> response_decode buf \<noteq> Panic"
  using request_codec.dec_enc_append request_codec.total_enc response_codec.dec_enc_append
  by (simp add: total_len_total request_decode_total response_decode_total)

end
