(* ===== verification/Btree_Map.thy ===== *)
theory Btree_Map
  imports Prelude "HOL-Library.Product_Lexorder"
begin

text \<open>
  Rust's \<open>BTreeMap\<close> as the page server uses it: an association list in strictly ascending key
  order, with insertion, lookup, removal and inclusive range scans.  The locale \<open>ordered_map\<close> is the
  contract the stores rely on, interpreted on these functions.
\<close>

type_synonym ('k, 'v) btree = "('k \<times> 'v) list"

definition bt_inv :: "('k::linorder, 'v) btree \<Rightarrow> bool" where
  "bt_inv m \<longleftrightarrow> sorted_wrt (<) (map fst m)"

fun bt_insert :: "'k::linorder \<Rightarrow> 'v \<Rightarrow> ('k, 'v) btree \<Rightarrow> ('k, 'v) btree" where
  "bt_insert k v [] = [(k, v)]"
| "bt_insert k v ((k', v') # m) =
     (if k < k' then (k, v) # (k', v') # m
      else if k = k' then (k, v) # m
      else (k', v') # bt_insert k v m)"

definition bt_get :: "('k::linorder, 'v) btree \<Rightarrow> 'k \<Rightarrow> 'v option" where
  "bt_get m k = map_of m k"

definition bt_remove :: "'k::linorder \<Rightarrow> ('k, 'v) btree \<Rightarrow> ('k, 'v) btree" where
  "bt_remove k m = filter (\<lambda>e. fst e \<noteq> k) m"

definition bt_range :: "'k::linorder \<Rightarrow> 'k \<Rightarrow> ('k, 'v) btree \<Rightarrow> ('k, 'v) btree" where
  "bt_range lo hi m = filter (\<lambda>e. lo \<le> fst e \<and> fst e \<le> hi) m"

definition next_back :: "'a list \<Rightarrow> 'a option" where
  "next_back xs = (if xs = [] then None else Some (last xs))"

lemma bt_inv_Nil [simp]: "bt_inv []"
  by (simp add: bt_inv_def)

lemma bt_inv_Cons: "bt_inv (e # m) \<longleftrightarrow> bt_inv m \<and> (\<forall>x \<in> set m. fst e < fst x)"
  by (auto simp: bt_inv_def)

lemma bt_inv_distinct: "bt_inv m \<Longrightarrow> distinct (map fst m)"
  by (simp add: bt_inv_def strict_sorted_iff)

lemma bt_inv_filter: "bt_inv m \<Longrightarrow> bt_inv (filter P m)"
  by (simp add: bt_inv_def sorted_wrt_map sorted_wrt_filter)

lemma fst_bt_insert: "fst ` set (bt_insert k v m) = insert k (fst ` set m)"
  by (induction k v m rule: bt_insert.induct) auto

lemma bt_inv_insert: "bt_inv m \<Longrightarrow> bt_inv (bt_insert k v m)"
proof (induction k v m rule: bt_insert.induct)
  case (2 k v k' v' m)
  have "x \<in> fst ` set (bt_insert k v m) \<Longrightarrow> x = k \<or> x \<in> fst ` set m" for x
    by (simp add: fst_bt_insert)
  then have *: "k' < k \<Longrightarrow> x \<in> set (bt_insert k v m) \<Longrightarrow> k' < fst x" for x
    using 2(2) by (force simp: bt_inv_Cons)
  with 2 show ?case by (auto simp: bt_inv_Cons not_less order.order_iff_strict)
qed (simp add: bt_inv_Cons)

lemma map_of_bt_insert: "map_of (bt_insert k v m) = (map_of m)(k \<mapsto> v)"
  by (induction k v m rule: bt_insert.induct) (auto simp: fun_eq_iff)

lemma bt_insert_last: "(\<And>x. x \<in> set m \<Longrightarrow> fst x < k) \<Longrightarrow> bt_insert k v m = m @ [(k, v)]"
proof (induction m)
  case Nil
  then show ?case by simp
next
  case (Cons e m)
  have "fst e < k" by (rule Cons.prems) simp
  moreover have "bt_insert k v m = m @ [(k, v)]" by (rule Cons.IH) (simp add: Cons.prems)
  ultimately show ?case by (cases e) auto
qed

lemma map_of_filter_key: "map_of (filter (\<lambda>e. fst e \<noteq> k) m) = (map_of m)(k := None)"
  by (induction m) (auto simp: fun_eq_iff)

text \<open>Inserting the entries of a sorted map one after the other rebuilds it.\<close>

lemma fold_bt_insert_sorted:
  "bt_inv (acc @ m) \<Longrightarrow> fold (\<lambda>e. bt_insert (fst e) (snd e)) m acc = acc @ m"
proof (induction m arbitrary: acc)
  case Nil
  then show ?case by simp
next
  case (Cons e m)
  have "bt_insert (fst e) (snd e) acc = acc @ [e]"
    using Cons.prems by (subst bt_insert_last) (auto simp: bt_inv_def sorted_wrt_append)
  then show ?case using Cons.IH [of "acc @ [e]"] Cons.prems by simp
qed

lemma bt_map_of_iff: "bt_inv m \<Longrightarrow> map_of m k = Some v \<longleftrightarrow> (k, v) \<in> set m"
  using bt_inv_distinct map_of_eq_Some_iff by metis

lemma bt_eqI:
  assumes "bt_inv m" "bt_inv n" "set m = set n"
  shows "m = n"
  using assms
proof (induction m arbitrary: n)
  case Nil
  then show ?case by simp
next
  case (Cons e m)
  then obtain f n' where n: "n = f # n'" by (cases n) auto
  have "e = f"
  proof (rule ccontr)
    assume "e \<noteq> f"
    then have "e \<in> set n'" "f \<in> set m" using Cons.prems(3) n by auto
    then have "fst f < fst e" "fst e < fst f" using Cons.prems(1,2) n by (auto simp: bt_inv_Cons)
    then show False by simp
  qed
  moreover have "e \<notin> set m" "f \<notin> set n'" using Cons.prems(1,2) n by (auto simp: bt_inv_Cons)
  ultimately have "set m = set n'" using Cons.prems(3) n by auto
  then show ?case using Cons n \<open>e = f\<close> by (simp add: bt_inv_Cons)
qed

section \<open>The contract\<close>

locale ordered_map =
  fixes empty :: "'m" and insert_op :: "'k::linorder \<Rightarrow> 'v \<Rightarrow> 'm \<Rightarrow> 'm" and get :: "'m \<Rightarrow> 'k \<Rightarrow> 'v option"
    and remove :: "'k \<Rightarrow> 'm \<Rightarrow> 'm" and scan :: "'k \<Rightarrow> 'k \<Rightarrow> 'm \<Rightarrow> ('k \<times> 'v) list" and inv :: "'m \<Rightarrow> bool"
  assumes inv_empty: "inv empty" and get_empty: "get empty k = None"
    and inv_insert: "inv m \<Longrightarrow> inv (insert_op k v m)"
    and get_insert: "inv m \<Longrightarrow> get (insert_op k v m) = (get m)(k \<mapsto> v)"
    and inv_remove: "inv m \<Longrightarrow> inv (remove k m)"
    and get_remove: "inv m \<Longrightarrow> get (remove k m) = (get m)(k := None)"
    and scan_sorted: "inv m \<Longrightarrow> sorted_wrt (<) (map fst (scan lo hi m))"
    and scan_mem: "inv m \<Longrightarrow> (k, v) \<in> set (scan lo hi m) \<longleftrightarrow> lo \<le> k \<and> k \<le> hi \<and> get m k = Some v"
begin

lemma scan_greatest:
  assumes m: "inv m" and ne: "scan lo hi m \<noteq> []"
  shows "get m (fst (last (scan lo hi m))) = Some (snd (last (scan lo hi m)))"
    and "lo \<le> k \<Longrightarrow> k \<le> hi \<Longrightarrow> get m k \<noteq> None \<Longrightarrow> k \<le> fst (last (scan lo hi m))"
proof -
  let ?s = "scan lo hi m"
  show "get m (fst (last ?s)) = Some (snd (last ?s))"
    using scan_mem [OF m, of "fst (last ?s)" "snd (last ?s)" lo hi] ne by simp
  assume "lo \<le> k" "k \<le> hi" "get m k \<noteq> None"
  then obtain v where "(k, v) \<in> set ?s" using scan_mem [OF m, of k _ lo hi] by auto
  moreover obtain xs e where s: "?s = xs @ [e]" using ne by (metis append_butlast_last_id)
  moreover have "\<forall>x \<in> set xs. fst x < fst e" using scan_sorted [OF m, of lo hi] s by (simp add: sorted_wrt_append)
  ultimately show "k \<le> fst (last ?s)" by (auto simp: less_imp_le)
qed

lemma scan_empty_iff:
  "inv m \<Longrightarrow> scan lo hi m = [] \<longleftrightarrow> (\<forall>k. lo \<le> k \<and> k \<le> hi \<longrightarrow> get m k = None)"
  using scan_mem [of m] by (metis list.set_intros(1) neq_Nil_conv not_None_eq set_empty2 empty_iff
      prod.exhaust_sel)

end

interpretation bt: ordered_map "[]" bt_insert bt_get bt_remove bt_range bt_inv
proof (unfold_locales, goal_cases)
  case (6 m k)
  then show ?case by (simp add: bt_get_def bt_remove_def fun_eq_iff map_of_filter_key)
next
  case (7 m lo hi)
  then show ?case using bt_inv_filter [of m] by (simp add: bt_range_def bt_inv_def)
next
  case (8 m k v lo hi)
  then show ?case by (auto simp: bt_range_def bt_get_def bt_map_of_iff)
qed (simp_all add: bt_get_def fun_eq_iff bt_inv_insert map_of_bt_insert bt_remove_def bt_inv_filter)

end
