(* ===== verification/Page_Version.thy ===== *)
theory Page_Version
  imports Common_Types Btree_Map
begin

text \<open>
  Page versions, ingest records and frozen layers: \<open>pageserver/src/page.rs\<close> and
  \<open>pageserver/src/layer.rs\<close>.  Applying a version keeps pages at 8192 bytes and reports, rather than
  performs, an edit that would leave the page; the ingest codec and the layer file format are inverse
  to their decoders, and no input makes a decoder panic.
\<close>

section \<open>Versions\<close>

datatype ByteEdit = ByteEdit (edit_offset: u16) (edit_data: bytes)

datatype WalRec = WalRec (will_init: bool) (rec: bytes)

datatype PageVersion = Image bytes | Delta "ByteEdit list" | WalRecord WalRec

datatype PageError =
    Truncated string
  | BadImageSize nat
  | EditOutOfBounds nat nat
  | BadVersionTag u8
  | NeedsRedo
  | Redo string

definition overwrite :: "nat \<Rightarrow> bytes \<Rightarrow> bytes \<Rightarrow> (PageError, bytes) result" where
  "overwrite start bs page =
     (if start + length bs \<le> length page
      then Ok (take start page @ bs @ drop (start + length bs) page) else Panic)"

fun apply_edits :: "ByteEdit list \<Rightarrow> bytes \<Rightarrow> (PageError, bytes) result" where
  "apply_edits [] page = Ok page"
| "apply_edits (e # es) page =
     (let start = unat (edit_offset e); n = length (edit_data e) in
      if start + n > PAGE_SIZE then Err (EditOutOfBounds start n)
      else rbind (overwrite start (edit_data e) page) (apply_edits es))"

fun apply_to :: "PageVersion \<Rightarrow> bytes \<Rightarrow> (PageError, bytes) result" where
  "apply_to (Image img) page =
     (if length img \<noteq> PAGE_SIZE then Err (BadImageSize (length img))
      else if length page \<noteq> length img then Panic
      else Ok img)"
| "apply_to (Delta edits) page = apply_edits edits page"
| "apply_to (WalRecord w) page = Err NeedsRedo"

fun is_image :: "PageVersion \<Rightarrow> bool" where
  "is_image (Image _) = True"
| "is_image _ = False"

fun is_base :: "PageVersion \<Rightarrow> bool" where
  "is_base (Image _) = True"
| "is_base (WalRecord w) = will_init w"
| "is_base (Delta _) = False"

record Modification =
  mod_rel :: RelTag
  mod_block :: u32
  mod_lsn :: Lsn
  mod_version :: PageVersion

section \<open>The ingest codec\<close>

definition TAG_IMAGE :: u8 where "TAG_IMAGE = 0"
definition TAG_DELTA :: u8 where "TAG_DELTA = 1"
definition TAG_WALRECORD :: u8 where "TAG_WALRECORD = 2"

lemmas version_tags = TAG_IMAGE_def TAG_DELTA_def TAG_WALRECORD_def

fun write_edit :: "ByteEdit \<Rightarrow> bytes" where
  "write_edit (ByteEdit off bs) = u16_to_be off @ u16_to_be (of_nat (length bs)) @ bs"

fun write_version :: "PageVersion \<Rightarrow> bytes" where
  "write_version (Image img) = TAG_IMAGE # img"
| "write_version (Delta edits) =
     TAG_DELTA # u16_to_be (of_nat (length edits)) @ concat (map write_edit edits)"
| "write_version (WalRecord w) =
     TAG_WALRECORD # (if will_init w then 1 else 0) # u32_to_be (of_nat (length (rec w))) @ rec w"

definition read_byte :: "string \<Rightarrow> bytes \<Rightarrow> nat \<Rightarrow> (PageError, u8 \<times> nat) result" where
  "read_byte what buf pos =
     (if pos < length buf then Ok (buf ! pos, pos + 1) else Err (Truncated what))"

definition read_u16 :: "bytes \<Rightarrow> nat \<Rightarrow> (PageError, u16 \<times> nat) result" where
  "read_u16 buf pos =
     (if length buf < pos + 2 then Err (Truncated ''u16'')
      else rbind (get_u16 buf pos) (\<lambda>v. Ok (v, pos + 2)))"

definition read_u32 :: "bytes \<Rightarrow> nat \<Rightarrow> (PageError, u32 \<times> nat) result" where
  "read_u32 buf pos =
     (if length buf < pos + 4 then Err (Truncated ''u32'')
      else rbind (get_u32 buf pos) (\<lambda>v. Ok (v, pos + 4)))"

definition read_u64 :: "bytes \<Rightarrow> nat \<Rightarrow> (PageError, u64 \<times> nat) result" where
  "read_u64 buf pos =
     (if length buf < pos + 8 then Err (Truncated ''u64'')
      else rbind (get_u64 buf pos) (\<lambda>v. Ok (v, pos + 8)))"

definition read_slice :: "string \<Rightarrow> bytes \<Rightarrow> nat \<Rightarrow> nat \<Rightarrow> (PageError, bytes \<times> nat) result" where
  "read_slice what buf pos n =
     (if length buf < pos + n then Err (Truncated what)
      else rbind (get_bytes buf pos n) (\<lambda>bs. Ok (bs, pos + n)))"

fun read_edits :: "bytes \<Rightarrow> nat \<Rightarrow> nat \<Rightarrow> (PageError, ByteEdit list \<times> nat) result" where
  "read_edits buf 0 pos = Ok ([], pos)"
| "read_edits buf (Suc k) pos =
     rbind (read_u16 buf pos) (\<lambda>(off, pos).
     rbind (read_u16 buf pos) (\<lambda>(n, pos).
     rbind (read_slice ''edit data'' buf pos (unat n)) (\<lambda>(bs, pos).
     rbind (read_edits buf k pos) (\<lambda>(es, pos).
     Ok (ByteEdit off bs # es, pos)))))"

definition read_version :: "bytes \<Rightarrow> nat \<Rightarrow> (PageError, PageVersion \<times> nat) result" where
  "read_version buf pos =
     rbind (read_byte ''version tag'' buf pos) (\<lambda>(tag, pos).
       if tag = TAG_IMAGE then
         rbind (read_slice ''image'' buf pos PAGE_SIZE) (\<lambda>(img, pos). Ok (Image img, pos))
       else if tag = TAG_DELTA then
         rbind (read_u16 buf pos) (\<lambda>(count, pos).
         rbind (read_edits buf (unat count) pos) (\<lambda>(es, pos). Ok (Delta es, pos)))
       else if tag = TAG_WALRECORD then
         rbind (read_byte ''will_init'' buf pos) (\<lambda>(wi, pos).
         rbind (read_u32 buf pos) (\<lambda>(n, pos).
         rbind (read_slice ''wal record'' buf pos (unat n)) (\<lambda>(r, pos).
         Ok (WalRecord (WalRec (wi \<noteq> 0) r), pos))))
       else Err (BadVersionTag tag))"

text \<open>The page address and LSN that precede a version, in ingest records and in layer files.\<close>

definition write_key :: "RelTag \<Rightarrow> u32 \<Rightarrow> Lsn \<Rightarrow> bytes" where
  "write_key r blk lsn =
     u32_to_be (spc_node r) @ u32_to_be (db_node r) @ u32_to_be (rel_node r)
     @ [fork_raw (fork r)] @ u32_to_be blk @ u64_to_be lsn"

definition read_key :: "bytes \<Rightarrow> nat \<Rightarrow> (PageError, (RelTag \<times> u32 \<times> Lsn) \<times> nat) result" where
  "read_key buf pos =
     rbind (read_u32 buf pos) (\<lambda>(spc, pos).
     rbind (read_u32 buf pos) (\<lambda>(db, pos).
     rbind (read_u32 buf pos) (\<lambda>(rn, pos).
     rbind (read_byte ''fork'' buf pos) (\<lambda>(raw, pos).
     rbind (ok_or (from_raw raw) (Truncated ''fork'')) (\<lambda>fk.
     rbind (read_u32 buf pos) (\<lambda>(blk, pos).
     rbind (read_u64 buf pos) (\<lambda>(lsn, pos).
     Ok ((RelTag spc db rn fk, blk, lsn), pos))))))))"

definition modification_encode :: "Modification \<Rightarrow> bytes" where
  "modification_encode m =
     write_key (mod_rel m) (mod_block m) (mod_lsn m) @ write_version (mod_version m)"

definition modification_decode :: "bytes \<Rightarrow> (PageError, Modification) result" where
  "modification_decode buf =
     rbind (read_key buf 0) (\<lambda>((r, blk, lsn), pos).
     rbind (read_version buf pos) (\<lambda>(v, _).
     Ok \<lparr>mod_rel = r, mod_block = blk, mod_lsn = lsn, mod_version = v\<rparr>))"

section \<open>Layers\<close>

type_synonym LayerId = u64
type_synonym version_map = "(PageKey \<times> Lsn, PageVersion) btree"

record Layer =
  layer_id :: LayerId
  entries :: version_map

definition LAYER_MAGIC :: u32 where "LAYER_MAGIC = 0x53504C31"
definition LAYER_VERSION :: u8 where "LAYER_VERSION = 1"

definition versions_upto :: "PageKey \<Rightarrow> Lsn \<Rightarrow> version_map \<Rightarrow> (Lsn \<times> PageVersion) list" where
  "versions_upto k lsn m = map (\<lambda>((_, l), v). (l, v)) (bt_range (k, INVALID) (k, lsn) m)"

definition layer_range :: "Layer \<Rightarrow> PageKey \<Rightarrow> Lsn \<Rightarrow> (Lsn \<times> PageVersion) list" where
  "layer_range l k lsn = versions_upto k lsn (entries l)"

definition write_entry :: "(PageKey \<times> Lsn) \<times> PageVersion \<Rightarrow> bytes" where
  "write_entry e = (case e of ((k, lsn), v) \<Rightarrow> write_key (rel k) (block k) lsn @ write_version v)"

definition serialize :: "Layer \<Rightarrow> bytes" where
  "serialize l =
     u32_to_be LAYER_MAGIC @ [LAYER_VERSION] @ u64_to_be (layer_id l)
     @ u32_to_be (of_nat (length (entries l))) @ concat (map write_entry (entries l))"

fun read_entries :: "bytes \<Rightarrow> nat \<Rightarrow> nat \<Rightarrow> version_map \<Rightarrow> (PageError, version_map) result" where
  "read_entries buf 0 pos acc = Ok acc"
| "read_entries buf (Suc k) pos acc =
     rbind (read_key buf pos) (\<lambda>((r, blk, lsn), pos).
     rbind (read_version buf pos) (\<lambda>(v, pos).
     read_entries buf k pos (bt_insert (PageKey r blk, lsn) v acc)))"

definition deserialize :: "bytes \<Rightarrow> (PageError, Layer) result" where
  "deserialize buf =
     rbind (read_u32 buf 0) (\<lambda>(magic, pos).
       if magic \<noteq> LAYER_MAGIC then Err (Truncated ''layer magic'')
       else rbind (read_byte ''layer version'' buf pos) (\<lambda>(ver, pos).
         if ver \<noteq> LAYER_VERSION then Err (BadVersionTag ver)
         else rbind (read_u64 buf pos) (\<lambda>(i, pos).
              rbind (read_u32 buf pos) (\<lambda>(count, pos).
              rbind (read_entries buf (unat count) pos []) (\<lambda>es.
              Ok \<lparr>layer_id = i, entries = es\<rparr>)))))"

section \<open>Applying versions\<close>

lemma overwrite_ok:
  "start + length bs \<le> length page \<Longrightarrow> overwrite start bs page = Ok (take start page @ bs @ drop (start + length bs) page)"
  by (simp add: overwrite_def)

lemma apply_edits_length:
  "apply_edits es page = Ok page' \<Longrightarrow> length page' = length page"
  by (induction es arbitrary: page) (auto simp: overwrite_def Let_def split: if_splits)

lemma apply_edits_no_panic: "length page = PAGE_SIZE \<Longrightarrow> apply_edits es page \<noteq> Panic"
  by (induction es arbitrary: page) (auto simp: overwrite_def Let_def)

lemma apply_to_length:
  "apply_to v page = Ok page' \<Longrightarrow> length page = PAGE_SIZE \<Longrightarrow> length page' = PAGE_SIZE"
  by (cases v) (auto dest: apply_edits_length split: if_splits)

lemma apply_to_no_panic: "length page = PAGE_SIZE \<Longrightarrow> apply_to v page \<noteq> Panic"
  by (cases v) (auto simp: apply_edits_no_panic)

section \<open>Round trips\<close>

definition edit_wf :: "ByteEdit \<Rightarrow> bool" where
  "edit_wf e \<longleftrightarrow> length (edit_data e) < 65536"

definition version_wf :: "PageVersion \<Rightarrow> bool" where
  "version_wf v =
     (case v of
        Image img \<Rightarrow> length img = PAGE_SIZE
      | Delta es \<Rightarrow> length es < 65536 \<and> (\<forall>e \<in> set es. edit_wf e)
      | WalRecord w \<Rightarrow> length (rec w) < 4294967296)"

lemmas read_defs = read_byte_def read_u16_def read_u32_def read_u64_def read_slice_def

lemma unat_of_nat_u16 [simp]: "n < 65536 \<Longrightarrow> unat (of_nat n :: u16) = n"
  by (simp add: unat_of_nat)

lemma unat_of_nat_u32 [simp]: "n < 4294967296 \<Longrightarrow> unat (of_nat n :: u32) = n"
  by (simp add: unat_of_nat)

lemma length_write_edit: "length (write_edit e) = 4 + length (edit_data e)"
  by (cases e) simp

lemma read_edits_write:
  "\<forall>e \<in> set es. edit_wf e \<Longrightarrow>
   read_edits (pre @ concat (map write_edit es) @ rest) (length es) (length pre) =
     Ok (es, length pre + length (concat (map write_edit es)))"
proof (induction es arbitrary: pre)
  case Nil
  then show ?case by simp
next
  case (Cons e es)
  obtain off bs where e: "e = ByteEdit off bs" by (cases e)
  have rec: "read_edits ((pre @ write_edit e) @ concat (map write_edit es) @ rest) (length es) (length (pre @ write_edit e)) =
      Ok (es, length (pre @ write_edit e) + length (concat (map write_edit es)))"
    by (rule Cons.IH) (use Cons.prems in simp)
  from Cons.prems e have "length bs < 65536" by (simp add: edit_wf_def)
  with rec show ?case
    by (simp add: e read_defs codec add.assoc)
qed

lemma read_version_write:
  assumes "version_wf v"
  shows "read_version (pre @ write_version v @ rest) (length pre) =
    Ok (v, length pre + length (write_version v))"
proof (cases v)
  case (Image img)
  with assms show ?thesis
    by (simp add: version_wf_def read_version_def read_defs version_tags codec nth_append)
next
  case (Delta es)
  let ?hd = "TAG_DELTA # u16_to_be (of_nat (length es))"
  have "read_edits ((pre @ ?hd) @ concat (map write_edit es) @ rest) (length es) (length (pre @ ?hd)) =
      Ok (es, length (pre @ ?hd) + length (concat (map write_edit es)))"
    by (rule read_edits_write) (use assms Delta in \<open>simp add: version_wf_def\<close>)
  with assms Delta show ?thesis
    by (simp add: version_wf_def read_version_def read_defs version_tags codec nth_append numeral_3_eq_3)
next
  case (WalRecord w)
  with assms show ?thesis
    by (cases w)
       (simp add: version_wf_def read_version_def read_defs version_tags codec nth_append)
qed

lemma length_write_key: "length (write_key r blk lsn) = 25"
  by (simp add: write_key_def)

lemma read_key_write:
  "read_key (pre @ write_key r blk lsn @ rest) (length pre) = Ok ((r, blk, lsn), length pre + 25)"
  by (simp add: read_key_def write_key_def read_defs codec nth_append)

lemma modification_decode_encode:
  assumes "version_wf (mod_version m)"
  shows "modification_decode (modification_encode m @ rest) = Ok m"
  using read_key_write [of "[]" "mod_rel m" "mod_block m" "mod_lsn m" "write_version (mod_version m) @ rest"]
    read_version_write [OF assms, of "write_key (mod_rel m) (mod_block m) (mod_lsn m)" rest]
  by (simp add: modification_decode_def modification_encode_def length_write_key)

lemma read_entries_write:
  assumes "\<forall>e \<in> set es. version_wf (snd e)"
  shows "read_entries (pre @ concat (map write_entry es) @ rest) (length es) (length pre) acc =
    Ok (fold (\<lambda>e. bt_insert (fst e) (snd e)) es acc)"
  using assms
proof (induction es arbitrary: pre acc)
  case Nil
  then show ?case by simp
next
  case (Cons e es)
  obtain k lsn v where e: "e = ((k, lsn), v)" by (cases e) auto
  let ?key = "write_key (rel k) (block k) lsn"
  let ?tail = "concat (map write_entry es) @ rest"
  have 1: "read_key (pre @ ?key @ write_version v @ ?tail) (length pre) = Ok ((rel k, block k, lsn), length pre + 25)"
    by (rule read_key_write)
  have 2: "read_version ((pre @ ?key) @ write_version v @ ?tail) (length (pre @ ?key)) =
      Ok (v, length (pre @ ?key) + length (write_version v))"
    by (rule read_version_write) (use Cons.prems e in simp)
  have 3: "read_entries ((pre @ ?key @ write_version v) @ ?tail) (length es) (length (pre @ ?key @ write_version v))
      (bt_insert (k, lsn) v acc) = Ok (fold (\<lambda>e. bt_insert (fst e) (snd e)) es (bt_insert (k, lsn) v acc))"
    by (rule Cons.IH) (use Cons.prems in simp)
  have e_bytes: "write_entry e = ?key @ write_version v"
    by (simp add: e write_entry_def)
  show ?case
    using 1 2 3 by (simp add: e_bytes length_write_key add.assoc) (simp add: e)
qed

definition layer_wf :: "Layer \<Rightarrow> bool" where
  "layer_wf l \<longleftrightarrow> bt_inv (entries l) \<and> length (entries l) < 4294967296 \<and>
     (\<forall>e \<in> set (entries l). version_wf (snd e))"

lemma deserialize_serialize:
  assumes "layer_wf l"
  shows "deserialize (serialize l @ rest) = Ok l"
proof -
  let ?hd = "u32_to_be LAYER_MAGIC @ [LAYER_VERSION] @ u64_to_be (layer_id l) @ u32_to_be (of_nat (length (entries l)))"
  have "read_entries (?hd @ concat (map write_entry (entries l)) @ rest) (length (entries l)) (length ?hd) [] =
      Ok (fold (\<lambda>e. bt_insert (fst e) (snd e)) (entries l) [])"
    by (rule read_entries_write) (use assms in \<open>simp add: layer_wf_def\<close>)
  also have "fold (\<lambda>e. bt_insert (fst e) (snd e)) (entries l) [] = entries l"
    using fold_bt_insert_sorted [of "[]" "entries l"] assms by (simp add: layer_wf_def)
  finally show ?thesis
    using assms by (simp add: layer_wf_def deserialize_def serialize_def read_defs codec nth_append)
qed

section \<open>Totality\<close>

lemma read_no_panic:
  "read_byte w buf pos \<noteq> Panic" "read_u16 buf pos \<noteq> Panic" "read_u32 buf pos \<noteq> Panic"
  "read_u64 buf pos \<noteq> Panic" "read_slice w buf pos n \<noteq> Panic"
  by (simp_all add: read_defs reads_ok)

lemma read_edits_no_panic: "read_edits buf k pos \<noteq> Panic"
  by (induction buf k pos rule: read_edits.induct) (auto simp: rbind_eq_Panic read_no_panic)

lemma read_version_no_panic: "read_version buf pos \<noteq> Panic"
  by (auto simp: read_version_def rbind_eq_Panic read_no_panic read_edits_no_panic split: if_splits)

lemma read_key_no_panic: "read_key buf pos \<noteq> Panic"
  by (auto simp: read_key_def rbind_eq_Panic read_no_panic)

lemma read_entries_no_panic: "read_entries buf k pos acc \<noteq> Panic"
  by (induction k arbitrary: pos acc) (auto simp: rbind_eq_Panic read_key_no_panic read_version_no_panic)

lemma deserialize_no_panic: "deserialize buf \<noteq> Panic"
  by (auto simp: deserialize_def rbind_eq_Panic read_no_panic read_entries_no_panic split: if_splits)

lemma modification_decode_no_panic: "modification_decode buf \<noteq> Panic"
  by (auto simp: modification_decode_def rbind_eq_Panic read_key_no_panic read_version_no_panic)

lemma read_entries_inv: "read_entries buf k pos acc = Ok m \<Longrightarrow> bt_inv acc \<Longrightarrow> bt_inv m"
  by (induction k arbitrary: pos acc) (auto simp: rbind_eq_Ok bt_inv_insert)

interpretation modification_codec: codec modification_encode modification_decode "\<lambda>m. version_wf (mod_version m)"
  by unfold_locales (rule modification_decode_encode)

interpretation layer_codec: codec serialize deserialize layer_wf
  by unfold_locales (rule deserialize_serialize)

section \<open>Main results\<close>

text \<open>
  The ingest format and the layer file format lose nothing: a modification decodes to what was
  encoded, and a frozen layer read back from object storage has the same id and the same versions.
\<close>

theorem ingest_and_layer_round_trip:
  assumes "version_wf (mod_version m)" "layer_wf l"
  shows "modification_decode (modification_encode m) = Ok m \<and> deserialize (serialize l) = Ok l"
  using modification_codec.dec_enc [OF assms(1)] layer_codec.dec_enc [OF assms(2)] by simp

definition sample_layer :: Layer where
  "sample_layer = \<lparr>layer_id = 4, entries =
     [((PageKey (RelTag 1 2 3 Main) 0, 10), WalRecord (WalRec True [1, 2, 3])),
      ((PageKey (RelTag 1 2 3 Main) 0, 20), Delta [ByteEdit 5 [9]])]\<rparr>"

text \<open>
  Applying a version to a page keeps it at 8192 bytes and never panics: an image of another size,
  an edit past the end of the page and a raw WAL record are reported as errors.
\<close>

theorem apply_to_keeps_page_size:
  assumes "length page = PAGE_SIZE"
  shows "apply_to v page \<noteq> Panic \<and> (\<forall>page'. apply_to v page = Ok page' \<longrightarrow> length page' = PAGE_SIZE)"
  using assms apply_to_no_panic apply_to_length by blast

end
