(* ===== verification/Wal_Redo.thy ===== *)
theory Wal_Redo
  imports Page_Version
begin

text \<open>
  Page reconstruction: \<open>pageserver/src/walredo.rs\<close>.  The trait \<open>WalRedoManager\<close> is a function from a
  page, a request LSN and the ordered history of the page to an image.  The locale \<open>redo_backend\<close> is
  what the repository relies on: the image depends only on the history from its last base on, there
  is none when the history has no base, and an image has 8192 bytes.  It is interpreted on the native
  manager here and on the external wal-redo process in \<open>Redo_Process\<close>.
\<close>

section \<open>Errors and the trait\<close>

datatype RedoError =
    Apply PageError
  | NeedsPostgres Lsn
  | Process string
  | RedoFailed string

fun page_error_display :: "PageError \<Rightarrow> string" where
  "page_error_display (Truncated what) = ''buffer truncated while decoding '' @ what"
| "page_error_display (BadImageSize n) = ''image is '' @ to_dec n @ '' bytes, expected '' @ to_dec PAGE_SIZE"
| "page_error_display (EditOutOfBounds off n) =
     ''edit at offset '' @ to_dec off @ '' length '' @ to_dec n @ '' runs past the end of the page''"
| "page_error_display (BadVersionTag t) = ''unknown version tag '' @ to_dec (unat t)"
| "page_error_display NeedsRedo =
     ''this page version is a raw WAL record and requires WAL redo to apply''"
| "page_error_display (Redo e) = ''reconstruction via WAL redo failed: '' @ e"

fun redo_error_display :: "RedoError \<Rightarrow> string" where
  "redo_error_display (Apply e) = ''applying page version: '' @ page_error_display e"
| "redo_error_display (NeedsPostgres lsn) =
     ''WAL record at '' @ lsn_display lsn @ '' requires a Postgres wal-redo backend''"
| "redo_error_display (Process m) = ''wal-redo process error: '' @ m"
| "redo_error_display (RedoFailed m) = ''wal-redo failed: '' @ m"

type_synonym history = "(Lsn \<times> PageVersion) list"
type_synonym redo_manager = "PageKey \<Rightarrow> Lsn \<Rightarrow> history \<Rightarrow> (RedoError, bytes option) result"

section \<open>The native manager\<close>

fun rposition :: "('a \<Rightarrow> bool) \<Rightarrow> 'a list \<Rightarrow> nat option" where
  "rposition P [] = None"
| "rposition P (x # xs) =
     (case rposition P xs of Some i \<Rightarrow> Some (Suc i) | None \<Rightarrow> if P x then Some 0 else None)"

fun rust_replay :: "history \<Rightarrow> bytes \<Rightarrow> (RedoError, bytes) result" where
  "rust_replay [] page = Ok page"
| "rust_replay ((lsn, v) # vs) page =
     (case v of
        WalRecord _ \<Rightarrow> Err (NeedsPostgres lsn)
      | _ \<Rightarrow> rbind (map_err Apply (apply_to v page)) (rust_replay vs))"

definition rust_install_base :: "Lsn \<times> PageVersion \<Rightarrow> (RedoError, bytes) result" where
  "rust_install_base b =
     (case snd b of
        Image _ \<Rightarrow> map_err Apply (apply_to (snd b) (replicate PAGE_SIZE 0))
      | WalRecord _ \<Rightarrow> Err (NeedsPostgres (fst b))
      | Delta _ \<Rightarrow> Panic)"

definition rust_reconstruct :: redo_manager where
  "rust_reconstruct key request_lsn versions =
     (case rposition (\<lambda>(_, v). is_base v) versions of
        None \<Rightarrow> Ok None
      | Some base \<Rightarrow>
          rbind (rust_install_base (versions ! base)) (\<lambda>page.
          rbind (rust_replay (drop (base + 1) versions) page) (\<lambda>page.
          Ok (Some page))))"

section \<open>Histories\<close>

text \<open>The part of a history that matters: from its last base on.\<close>

definition relevant :: "history \<Rightarrow> history" where
  "relevant vs = (case rposition (\<lambda>(_, v). is_base v) vs of None \<Rightarrow> [] | Some i \<Rightarrow> drop i vs)"

lemma rposition_None: "rposition P xs = None \<longleftrightarrow> (\<forall>x \<in> set xs. \<not> P x)"
  by (induction xs) (auto split: option.splits)

lemma rposition_Some:
  "rposition P xs = Some i \<Longrightarrow> i < length xs \<and> P (xs ! i) \<and> (\<forall>x \<in> set (drop (Suc i) xs). \<not> P x)"
proof (induction xs arbitrary: i)
  case Nil
  then show ?case by simp
next
  case (Cons x xs)
  then show ?case
    by (cases "rposition P xs") (auto simp: rposition_None split: if_splits)
qed

lemma rposition_append:
  "rposition P (xs @ ys) =
    (case rposition P ys of Some i \<Rightarrow> Some (length xs + i) | None \<Rightarrow> rposition P xs)"
  by (induction xs) (auto split: option.splits)

lemma rposition_split:
  assumes "rposition P vs = Some i"
  shows "vs = take i vs @ vs ! i # drop (Suc i) vs" "P (vs ! i)" "\<forall>x \<in> set (drop (Suc i) vs). \<not> P x"
  using rposition_Some [OF assms] id_take_nth_drop [of i vs] by auto

lemma relevant_append:
  "\<exists>e \<in> set ys. is_base (snd e) \<Longrightarrow> relevant (xs @ ys) = relevant ys"
proof -
  assume "\<exists>e \<in> set ys. is_base (snd e)"
  then have "rposition (\<lambda>(_, v). is_base v) ys \<noteq> None"
    by (simp add: rposition_None case_prod_beta)
  then obtain i where "rposition (\<lambda>(_, v). is_base v) ys = Some i" by auto
  then show ?thesis by (simp add: relevant_def rposition_append)
qed

lemma relevant_Nil: "relevant vs = [] \<longleftrightarrow> (\<forall>e \<in> set vs. \<not> is_base (snd e))"
proof (cases "rposition (\<lambda>(_, v). is_base v) vs")
  case None
  then have "\<forall>e \<in> set vs. \<not> is_base (snd e)" by (simp add: rposition_None case_prod_beta)
  with None show ?thesis by (simp add: relevant_def)
next
  case (Some i)
  from rposition_Some [OF this] Some show ?thesis
    by (auto simp: relevant_def case_prod_beta dest: nth_mem)
qed

section \<open>The contract\<close>

locale redo_backend =
  fixes reconstruct :: redo_manager
  assumes no_base: "\<forall>e \<in> set vs. \<not> is_base (snd e) \<Longrightarrow> reconstruct k l vs = Ok None"
    and from_base: "is_base (snd b) \<Longrightarrow> \<forall>e \<in> set ys. \<not> is_base (snd e) \<Longrightarrow>
      reconstruct k l (xs @ b # ys) = reconstruct k l (b # ys)"
    and based: "is_base (snd b) \<Longrightarrow> b \<in> set vs \<Longrightarrow> reconstruct k l vs \<noteq> Ok None"
    and lone_image: "length img = PAGE_SIZE \<Longrightarrow> reconstruct k l [(bl, Image img)] = Ok (Some img)"
    and page_size: "reconstruct k l vs = Ok (Some page) \<Longrightarrow> length page = PAGE_SIZE"
    and no_panic: "reconstruct k l vs \<noteq> Panic"
begin

lemma reconstruct_relevant: "reconstruct k l vs = reconstruct k l (relevant vs)"
proof (cases "rposition (\<lambda>(_, v). is_base v) vs")
  case None
  then have "\<forall>e \<in> set vs. \<not> is_base (snd e)" by (simp add: rposition_None case_prod_beta)
  with None show ?thesis by (simp add: relevant_def no_base)
next
  case (Some i)
  note split = rposition_split [OF Some]
  have "drop i vs = vs ! i # drop (Suc i) vs"
    using rposition_Some [OF Some] by (simp add: Cons_nth_drop_Suc)
  moreover have "reconstruct k l (take i vs @ vs ! i # drop (Suc i) vs) =
      reconstruct k l (vs ! i # drop (Suc i) vs)"
    by (rule from_base) (use split(2,3) in \<open>auto simp: case_prod_beta\<close>)
  ultimately show ?thesis using split(1) Some by (simp add: relevant_def)
qed

lemma reconstruct_cong: "relevant vs = relevant ws \<Longrightarrow> reconstruct k l vs = reconstruct k l ws"
  by (metis reconstruct_relevant)

lemma not_found_iff: "reconstruct k l vs = Ok None \<longleftrightarrow> (\<forall>e \<in> set vs. \<not> is_base (snd e))"
  using no_base based by blast

end

lemma rust_replay_length:
  "rust_replay vs page = Ok page' \<Longrightarrow> length page = PAGE_SIZE \<Longrightarrow> length page' = PAGE_SIZE"
proof (induction vs arbitrary: page)
  case Nil
  then show ?case by simp
next
  case (Cons e vs)
  obtain lsn v where e: "e = (lsn, v)" by (cases e)
  with Cons.prems obtain p where "apply_to v page = Ok p" "rust_replay vs p = Ok page'"
    by (cases "apply_to v page"; cases v) (simp_all del: apply_to.simps)
  then show ?case using Cons apply_to_length by blast
qed

lemma rust_replay_no_panic: "length page = PAGE_SIZE \<Longrightarrow> rust_replay vs page \<noteq> Panic"
proof (induction vs arbitrary: page)
  case Nil
  then show ?case by simp
next
  case (Cons e vs)
  obtain lsn v where e: "e = (lsn, v)" by (cases e)
  have "apply_to v page \<noteq> Panic" by (rule apply_to_no_panic) (rule Cons.prems)
  then show ?case
    using Cons e by (cases "apply_to v page"; cases v) (auto simp del: apply_to.simps dest: apply_to_length)
qed

lemma rust_install_base_ok:
  "rust_install_base b = Ok page \<Longrightarrow> length page = PAGE_SIZE"
  by (auto simp: rust_install_base_def split: PageVersion.splits if_splits)

lemma rust_install_base_no_panic: "is_base (snd b) \<Longrightarrow> rust_install_base b \<noteq> Panic"
  by (auto simp: rust_install_base_def split: PageVersion.splits)

lemma rust_reconstruct_at:
  assumes "is_base (snd b)" "\<forall>e \<in> set ys. \<not> is_base (snd e)"
  shows "rust_reconstruct k l (xs @ b # ys) =
    rbind (rust_install_base b) (\<lambda>page. rbind (rust_replay ys page) (\<lambda>page. Ok (Some page)))"
proof -
  have "rposition (\<lambda>(_, v). is_base v) ys = None"
    using assms(2) by (simp add: rposition_None case_prod_beta)
  then have "rposition (\<lambda>(_, v). is_base v) (xs @ b # ys) = Some (length xs)"
    using assms(1) by (simp add: rposition_append case_prod_beta)
  then show ?thesis by (simp add: rust_reconstruct_def)
qed

interpretation rust_redo: redo_backend rust_reconstruct
proof
  fix vs :: history and k l b ys xs page bl and img :: bytes
  show "length img = PAGE_SIZE \<Longrightarrow> rust_reconstruct k l [(bl, Image img)] = Ok (Some img)"
    using rust_reconstruct_at [of "(bl, Image img)" "[]" k l "[]"] by (simp add: rust_install_base_def)
  show "\<forall>e \<in> set vs. \<not> is_base (snd e) \<Longrightarrow> rust_reconstruct k l vs = Ok None"
    using rposition_None [of "\<lambda>(_, v). is_base v" vs] by (force simp: rust_reconstruct_def)
  show "is_base (snd b) \<Longrightarrow> \<forall>e \<in> set ys. \<not> is_base (snd e) \<Longrightarrow>
      rust_reconstruct k l (xs @ b # ys) = rust_reconstruct k l (b # ys)"
    using rust_reconstruct_at [of b ys k l xs] rust_reconstruct_at [of b ys k l "[]"] by simp
  show "is_base (snd b) \<Longrightarrow> b \<in> set vs \<Longrightarrow> rust_reconstruct k l vs \<noteq> Ok None"
    using rposition_None [of "\<lambda>(_, v). is_base v" vs]
    by (auto simp: rust_reconstruct_def rbind_eq_Ok split: option.splits)
  show "rust_reconstruct k l vs = Ok (Some page) \<Longrightarrow> length page = PAGE_SIZE"
    by (auto simp: rust_reconstruct_def rbind_eq_Ok split: option.splits
        dest: rust_install_base_ok rust_replay_length)
  show "rust_reconstruct k l vs \<noteq> Panic"
  proof (cases "rposition (\<lambda>(_, v). is_base v) vs")
    case (Some i)
    then have "is_base (snd (vs ! i))" using rposition_Some [OF Some] by (simp add: case_prod_beta)
    then show ?thesis
      using Some rust_install_base_no_panic rust_install_base_ok rust_replay_no_panic
      by (fastforce simp: rust_reconstruct_def rbind_eq_Panic)
  qed (simp add: rust_reconstruct_def)
qed

text \<open>
  A backend composes when a history can be cut before versions without a base: the page the first part
  gives serves as an image for the second.  This is what branching relies on.
\<close>

locale composing_redo = redo_backend +
  assumes compose: "\<forall>e \<in> set ys. \<not> is_base (snd e) \<Longrightarrow>
    reconstruct k l (xs @ ys) =
      rbind (reconstruct k l' xs) (\<lambda>found. case found of
        None \<Rightarrow> Ok None | Some page \<Rightarrow> reconstruct k l ((bl, Image page) # ys))"

lemma rust_replay_append: "rust_replay (xs @ ys) page = rbind (rust_replay xs page) (rust_replay ys)"
proof (induction xs page rule: rust_replay.induct)
  case (2 lsn v vs page)
  show ?case
  proof (cases v)
    case (Image img)
    then show ?thesis using 2(1) by (auto simp: rbind_assoc)
  next
    case (Delta es)
    then show ?thesis
      using 2(2) by (cases "apply_edits es page") (auto simp: rbind_assoc)
  qed simp
qed simp

lemma rust_reconstruct_image:
  assumes "\<forall>e \<in> set ys. \<not> is_base (snd e)" "length page = PAGE_SIZE"
  shows "rust_reconstruct k l ((bl, Image page) # ys) = rbind (rust_replay ys page) (\<lambda>p. Ok (Some p))"
  using rust_reconstruct_at [of "(bl, Image page)" ys k l "[]"] assms
  by (simp add: rust_install_base_def)

interpretation rust_redo: composing_redo rust_reconstruct
proof
  fix ys xs :: history and k l l' bl
  assume ys: "\<forall>e \<in> set ys. \<not> is_base (snd e)"
  show "rust_reconstruct k l (xs @ ys) =
      rbind (rust_reconstruct k l' xs) (\<lambda>found. case found of
        None \<Rightarrow> Ok None | Some page \<Rightarrow> rust_reconstruct k l ((bl, Image page) # ys))"
  proof (cases "rposition (\<lambda>(_, v). is_base v) xs")
    case None
    then have "\<forall>e \<in> set xs. \<not> is_base (snd e)" by (simp add: rposition_None case_prod_beta)
    with ys have "rust_reconstruct k l (xs @ ys) = Ok None" "rust_reconstruct k l' xs = Ok None"
      by (simp_all add: rust_redo.no_base ball_Un)
    then show ?thesis by simp
  next
    case (Some i)
    let ?b = "xs ! i" and ?tl = "drop (Suc i) xs"
    have b: "is_base (snd ?b)" "\<forall>e \<in> set ?tl. \<not> is_base (snd e)" and xs: "xs = take i xs @ ?b # ?tl"
      using rposition_split [OF Some] by (auto simp: case_prod_beta)
    have whole: "rust_reconstruct k l (xs @ ys) =
        rbind (rust_install_base ?b) (\<lambda>p. rbind (rust_replay (?tl @ ys) p) (\<lambda>p. Ok (Some p)))"
      using rust_reconstruct_at [of ?b "?tl @ ys" k l "take i xs"] b ys xs
      by (metis UnE append_Cons append_assoc set_append)
    have part: "rust_reconstruct k l' xs =
        rbind (rust_install_base ?b) (\<lambda>p. rbind (rust_replay ?tl p) (\<lambda>p. Ok (Some p)))"
      using rust_reconstruct_at [of ?b ?tl k l' "take i xs"] b xs by metis
    show ?thesis
    proof (cases "rbind (rust_install_base ?b) (rust_replay ?tl)")
      case (Ok p)
      then have "length p = PAGE_SIZE"
        by (auto simp: rbind_eq_Ok dest: rust_install_base_ok rust_replay_length)
      with Ok whole part ys show ?thesis
        by (auto simp: rbind_eq_Ok rust_replay_append rbind_assoc rust_reconstruct_image)
    qed (use whole part in \<open>auto simp: rbind_eq_Err rbind_eq_Panic rust_replay_append\<close>)
  qed
qed

end
