(* ===== verification/Repository.thy ===== *)
theory Repository
  imports Wal_Redo "HOL-Library.Multiset"
begin

text \<open>
  The versioned page store: \<open>pageserver/src/repository.rs\<close>.  A repository is a mutable memtable, a
  stack of frozen layers, the sizes of the relations over time and the bookkeeping of uploads.  It
  refines a finite map from page and LSN to page version: ingesting updates the map, freezing leaves
  it alone, a read hands the sorted history of a page to the redo backend, and compaction to a
  horizon changes no read at or above the horizon.
\<close>

section \<open>State\<close>

record CompactionStats =
  layers_before :: nat
  layers_after :: nat
  versions_removed :: nat
  removed_layer_ids :: "LayerId list"

datatype PageLookup = Page bytes | NotFound

record Inner =
  memtable :: version_map
  rel_sizes :: "(RelTag \<times> Lsn, u32) btree"
  layers :: "Layer list"
  uploaded :: "LayerId set"
  next_layer_id :: LayerId
  freeze_threshold :: nat

definition repository_new :: "nat \<Rightarrow> Inner" where
  "repository_new threshold =
     \<lparr>memtable = [], rel_sizes = [], layers = [], uploaded = {}, next_layer_id = 0,
      freeze_threshold = threshold\<rparr>"

section \<open>Ingest\<close>

definition freeze_locked :: "Inner \<Rightarrow> Inner" where
  "freeze_locked r =
     (if memtable r = [] then r
      else r\<lparr>next_layer_id := next_layer_id r + 1, memtable := [],
             layers := layers r @ [\<lparr>layer_id = next_layer_id r, entries = memtable r\<rparr>]\<rparr>)"

definition latest_size :: "(RelTag \<times> Lsn, u32) btree \<Rightarrow> RelTag \<Rightarrow> Lsn \<Rightarrow> u32 option" where
  "latest_size m rl lsn = map_option snd (next_back (bt_range (rl, INVALID) (rl, lsn) m))"

definition ingest_size :: "Modification \<Rightarrow> (RelTag \<times> Lsn, u32) btree \<Rightarrow> (RelTag \<times> Lsn, u32) btree" where
  "ingest_size m sizes =
     (let prior = (case latest_size sizes (mod_rel m) (mod_lsn m) of Some n \<Rightarrow> n | None \<Rightarrow> 0);
          sz = max prior (mod_block m + 1);
          slot = (case bt_get sizes (mod_rel m, mod_lsn m) of Some n \<Rightarrow> n | None \<Rightarrow> 0)
      in bt_insert (mod_rel m, mod_lsn m) (max slot sz) sizes)"

definition ingest_one :: "Modification \<Rightarrow> Inner \<Rightarrow> Inner" where
  "ingest_one m r =
     (let key = PageKey (mod_rel m) (mod_block m);
          r = r\<lparr>rel_sizes := ingest_size m (rel_sizes r)\<rparr>;
          r = r\<lparr>memtable := bt_insert (key, mod_lsn m) (mod_version m) (memtable r)\<rparr>
      in if length (memtable r) \<ge> freeze_threshold r then freeze_locked r else r)"

fun ingest :: "Modification list \<Rightarrow> Inner \<Rightarrow> Inner" where
  "ingest [] r = r"
| "ingest (m # ms) r = ingest ms (ingest_one m r)"

section \<open>Reads\<close>

definition gather :: "Inner \<Rightarrow> PageKey \<Rightarrow> Lsn \<Rightarrow> (Lsn \<times> bytes) option \<Rightarrow> history" where
  "gather r key lsn base =
     (case base of Some (blsn, page) \<Rightarrow> [(blsn, Image page)] | None \<Rightarrow> [])
     @ versions_upto key lsn (memtable r)
     @ concat (map (\<lambda>layer. layer_range layer key lsn) (layers r))"

definition page_lookup :: "(RedoError, bytes option) result \<Rightarrow> (PageError, PageLookup) result" where
  "page_lookup res =
     (case res of
        Ok (Some page) \<Rightarrow> Ok (Page page)
      | Ok None \<Rightarrow> Ok NotFound
      | Err (Apply e) \<Rightarrow> Err e
      | Err e \<Rightarrow> Err (Redo (redo_error_display e))
      | Panic \<Rightarrow> Panic)"

definition get_page_with_base ::
  "redo_manager \<Rightarrow> Inner \<Rightarrow> PageKey \<Rightarrow> Lsn \<Rightarrow> (Lsn \<times> bytes) option \<Rightarrow> (PageError, PageLookup) result" where
  "get_page_with_base redo r key lsn base =
     page_lookup (redo key lsn (sort_key fst (gather r key lsn base)))"

definition get_page :: "redo_manager \<Rightarrow> Inner \<Rightarrow> PageKey \<Rightarrow> Lsn \<Rightarrow> (PageError, PageLookup) result" where
  "get_page redo r key lsn = get_page_with_base redo r key lsn None"

definition get_rel_size :: "Inner \<Rightarrow> RelTag \<Rightarrow> Lsn \<Rightarrow> u32 option" where
  "get_rel_size r rl lsn = latest_size (rel_sizes r) rl lsn"

section \<open>Offload bookkeeping\<close>

definition pending_offload :: "Inner \<Rightarrow> Layer list" where
  "pending_offload r = filter (\<lambda>l. layer_id l \<notin> uploaded r) (layers r)"

definition mark_uploaded :: "LayerId \<Rightarrow> Inner \<Rightarrow> Inner" where
  "mark_uploaded i r = r\<lparr>uploaded := insert i (uploaded r)\<rparr>"

definition layer_count :: "Inner \<Rightarrow> nat" where
  "layer_count r = length (layers r)"

section \<open>Compaction\<close>

definition merge_layers :: "Layer list \<Rightarrow> version_map" where
  "merge_layers ls = fold (\<lambda>l acc. fold (\<lambda>e. bt_insert (fst e) (snd e)) (entries l) acc) ls []"

definition base_lsns :: "Lsn \<Rightarrow> version_map \<Rightarrow> PageKey \<rightharpoonup> Lsn" where
  "base_lsns horizon merged =
     fold (\<lambda>((key, lsn), v) acc. if lsn \<le> horizon \<and> is_base v then acc(key \<mapsto> lsn) else acc)
       merged Map.empty"

definition drop_keys :: "(PageKey \<rightharpoonup> Lsn) \<Rightarrow> version_map \<Rightarrow> (PageKey \<times> Lsn) list" where
  "drop_keys base merged =
     map fst (filter (\<lambda>((key, lsn), _). case base key of Some b \<Rightarrow> lsn < b | None \<Rightarrow> False) merged)"

definition compact :: "Lsn \<Rightarrow> Inner \<Rightarrow> Inner \<times> CompactionStats" where
  "compact horizon r =
     (if layers r = []
      then (r, \<lparr>layers_before = 0, layers_after = 0, versions_removed = 0, removed_layer_ids = []\<rparr>)
      else
        let removed = map layer_id (layers r);
            merged = merge_layers (layers r);
            kept = fold bt_remove (drop_keys (base_lsns horizon merged) merged) merged;
            r' = (if kept = [] then r\<lparr>layers := []\<rparr>
                  else r\<lparr>next_layer_id := next_layer_id r + 1,
                         layers := [\<lparr>layer_id = next_layer_id r, entries = kept\<rparr>]\<rparr>);
            r'' = r'\<lparr>uploaded := uploaded r' - set removed\<rparr>
        in (r'', \<lparr>layers_before = length (layers r), layers_after = length (layers r''),
                  versions_removed = length merged - length kept, removed_layer_ids = removed\<rparr>))"

section \<open>The invariant and the abstract store\<close>

definition all_entries :: "Inner \<Rightarrow> version_map" where
  "all_entries r = memtable r @ concat (map entries (layers r))"

definition repo_inv :: "Inner \<Rightarrow> bool" where
  "repo_inv r \<longleftrightarrow>
     bt_inv (memtable r) \<and> (\<forall>l \<in> set (layers r). bt_inv (entries l)) \<and> bt_inv (rel_sizes r) \<and>
     distinct (map fst (all_entries r))"

definition repo_abs :: "Inner \<Rightarrow> PageKey \<times> Lsn \<rightharpoonup> PageVersion" where
  "repo_abs r = map_of (all_entries r)"

definition strip_key :: "(PageKey \<times> Lsn) \<times> PageVersion \<Rightarrow> Lsn \<times> PageVersion" where
  "strip_key e = (snd (fst e), snd e)"

definition upto_in :: "PageKey \<Rightarrow> Lsn \<Rightarrow> (PageKey \<times> Lsn) \<times> PageVersion \<Rightarrow> bool" where
  "upto_in k lsn e \<longleftrightarrow> fst (fst e) = k \<and> snd (fst e) \<le> lsn"

lemma lsn_range_iff:
  fixes k k' :: "'a::linorder" and lsn :: Lsn
  shows "(k, INVALID) \<le> (k', l) \<and> (k', l) \<le> (k, lsn) \<longleftrightarrow> k' = k \<and> l \<le> lsn"
  by (auto simp: less_eq_prod_def)

lemma versions_upto_filter: "versions_upto k lsn m = map strip_key (filter (upto_in k lsn) m)"
proof -
  have "(\<lambda>e. (k, INVALID) \<le> fst e \<and> fst e \<le> (k, lsn)) = upto_in k lsn"
    using lsn_range_iff [of k] by (auto simp: fun_eq_iff upto_in_def)
  then show ?thesis
    by (simp add: versions_upto_def bt_range_def strip_key_def case_prod_beta)
qed

lemma gather_all_entries:
  "gather r k lsn base =
    (case base of Some (blsn, page) \<Rightarrow> [(blsn, Image page)] | None \<Rightarrow> [])
    @ map strip_key (filter (upto_in k lsn) (all_entries r))"
proof -
  have "concat (map (\<lambda>l. layer_range l k lsn) ls) =
      map strip_key (filter (upto_in k lsn) (concat (map entries ls)))" for ls
    by (induction ls) (simp_all add: layer_range_def versions_upto_filter)
  then show ?thesis by (simp add: gather_def versions_upto_filter all_entries_def)
qed

lemma repo_inv_new: "repo_inv (repository_new t)"
  by (simp add: repo_inv_def repository_new_def all_entries_def)

lemma freeze_all_entries: "all_entries (freeze_locked r) = concat (map entries (layers r)) @ memtable r"
  by (simp add: freeze_locked_def all_entries_def)

lemma freeze_inv: "repo_inv r \<Longrightarrow> repo_inv (freeze_locked r)"
  unfolding repo_inv_def freeze_all_entries
  by (auto simp: freeze_locked_def all_entries_def)

lemma freeze_abs:
  assumes "repo_inv r"
  shows "repo_abs (freeze_locked r) = repo_abs r"
proof -
  have "distinct (map fst (all_entries (freeze_locked r)))"
    using freeze_inv [OF assms] by (simp add: repo_inv_def)
  moreover have "distinct (map fst (all_entries r))" using assms by (simp add: repo_inv_def)
  moreover have "set (all_entries (freeze_locked r)) = set (all_entries r)"
    unfolding freeze_all_entries by (auto simp: all_entries_def)
  ultimately show ?thesis unfolding repo_abs_def by (simp only: map_of_inject_set)
qed

section \<open>Ingest refines a map update\<close>

lemma set_bt_insert: "bt_inv m \<Longrightarrow> set (bt_insert k v m) = insert (k, v) {e \<in> set m. fst e \<noteq> k}"
proof (induction k v m rule: bt_insert.induct)
  case (2 k v k' v' m)
  then show ?case by (auto simp: bt_inv_Cons)
qed simp

lemma set_bt_insert_subset: "set (bt_insert k v m) \<subseteq> insert (k, v) (set m)"
  by (induction k v m rule: bt_insert.induct) auto

lemma bt_inv_ingest_size: "bt_inv m \<Longrightarrow> bt_inv (ingest_size x m)"
  by (simp add: ingest_size_def Let_def bt_inv_insert)

lemma ingest_one_inv:
  assumes r: "repo_inv r"
    and fresh: "(PageKey (mod_rel m) (mod_block m), mod_lsn m) \<notin> fst ` set (concat (map entries (layers r)))"
  shows "repo_inv (ingest_one m r)"
    and "repo_abs (ingest_one m r) = (repo_abs r)((PageKey (mod_rel m) (mod_block m), mod_lsn m) \<mapsto> mod_version m)"
proof -
  let ?key = "(PageKey (mod_rel m) (mod_block m), mod_lsn m)"
  define r1 where "r1 = r\<lparr>rel_sizes := ingest_size m (rel_sizes r),
    memtable := bt_insert ?key (mod_version m) (memtable r)\<rparr>"
  have one: "ingest_one m r = (if length (memtable r1) \<ge> freeze_threshold r1 then freeze_locked r1 else r1)"
    by (simp add: ingest_one_def r1_def Let_def)
  have "bt_inv (memtable r1)" using r by (simp add: r1_def repo_inv_def bt_inv_insert)
  then have "distinct (map fst (memtable r1))" by (rule bt_inv_distinct)
  moreover have "fst ` set (memtable r1) = insert ?key (fst ` set (memtable r))"
    by (simp add: r1_def fst_bt_insert)
  ultimately have "distinct (map fst (all_entries r1))"
    using r fresh by (auto simp: repo_inv_def all_entries_def r1_def)
  with \<open>bt_inv (memtable r1)\<close> have inv1: "repo_inv r1"
    using r by (simp add: repo_inv_def r1_def bt_inv_ingest_size)
  have "?key \<notin> dom (map_of (concat (map entries (layers r))))"
    using fresh by (simp add: dom_map_of_conv_image_fst)
  then have abs1: "repo_abs r1 = (repo_abs r)(?key \<mapsto> mod_version m)"
    by (auto simp: repo_abs_def all_entries_def r1_def map_of_bt_insert map_add_def fun_eq_iff
        split: option.splits)
  show "repo_inv (ingest_one m r)" using inv1 by (simp add: one freeze_inv)
  show "repo_abs (ingest_one m r) = (repo_abs r)(?key \<mapsto> mod_version m)"
    using inv1 abs1 by (simp add: one freeze_abs)
qed

definition mod_key :: "Modification \<Rightarrow> PageKey \<times> Lsn" where
  "mod_key m = (PageKey (mod_rel m) (mod_block m), mod_lsn m)"

lemma layers_keys: "fst ` set (concat (map entries (layers r))) \<subseteq> dom (repo_abs r)"
  unfolding repo_abs_def all_entries_def dom_map_of_conv_image_fst by auto

lemma ingest_refines:
  assumes "repo_inv r" "distinct (map mod_key ms)" "\<forall>m \<in> set ms. mod_key m \<notin> dom (repo_abs r)"
  shows "repo_inv (ingest ms r) \<and>
    repo_abs (ingest ms r) = repo_abs r ++ map_of (map (\<lambda>m. (mod_key m, mod_version m)) ms)"
  using assms
proof (induction ms arbitrary: r)
  case Nil
  then show ?case by simp
next
  case (Cons m ms)
  have fresh: "(PageKey (mod_rel m) (mod_block m), mod_lsn m) \<notin> fst ` set (concat (map entries (layers r)))"
    using Cons.prems(3) layers_keys [of r] by (auto simp: mod_key_def)
  note one = ingest_one_inv [OF Cons.prems(1) fresh, folded mod_key_def]
  have "repo_inv (ingest ms (ingest_one m r)) \<and>
      repo_abs (ingest ms (ingest_one m r)) =
        repo_abs (ingest_one m r) ++ map_of (map (\<lambda>m. (mod_key m, mod_version m)) ms)"
  proof (rule Cons.IH)
    show "\<forall>x \<in> set ms. mod_key x \<notin> dom (repo_abs (ingest_one m r))"
      using Cons.prems(2,3) unfolding one(2) by (auto simp: image_iff)
  qed (use Cons.prems one in simp_all)
  moreover have "(repo_abs r)(mod_key m \<mapsto> mod_version m) ++ map_of (map (\<lambda>m. (mod_key m, mod_version m)) ms) =
      repo_abs r ++ map_of (map (\<lambda>m. (mod_key m, mod_version m)) (m # ms))"
  proof -
    have "mod_key m \<notin> dom (map_of (map (\<lambda>m. (mod_key m, mod_version m)) ms))"
      using Cons.prems(2) by (auto simp: dom_map_of_conv_image_fst image_iff)
    then show ?thesis by (auto simp: fun_eq_iff map_add_def split: option.splits)
  qed
  ultimately show ?case by (simp only: one(2) ingest.simps)
qed

section \<open>Reads see the abstract store\<close>

lemma sort_key_append_cong:
  assumes "mset ys = mset zs" "\<And>k. filter (\<lambda>x. f x = k) ys = filter (\<lambda>x. f x = k) zs"
  shows "sort_key f (xs @ ys) = sort_key f (xs @ zs)"
proof (rule properties_for_sort_key)
  fix k
  have swap: "(\<lambda>x. f k = f x) = (\<lambda>x. f x = f k)" by auto
  show "filter (\<lambda>x. f k = f x) (sort_key f (xs @ zs)) = filter (\<lambda>x. f k = f x) (xs @ ys)"
    unfolding swap sort_key_stable by (simp add: assms(2))
qed (simp_all add: assms(1))

lemma distinct_const_key:
  assumes "distinct (map f ys)" "\<And>y. y \<in> set ys \<Longrightarrow> f y = k"
  shows "ys = [] \<or> (\<exists>y. ys = [y])"
  using assms by (cases ys; cases "tl ys") auto

lemma distinct_filter_key:
  assumes "distinct (map f ys)" "distinct (map f zs)" "set ys = set zs"
  shows "filter (\<lambda>x. f x = k) ys = filter (\<lambda>x. f x = k) zs"
proof -
  let ?A = "filter (\<lambda>x. f x = k) ys" and ?B = "filter (\<lambda>x. f x = k) zs"
  have "?A = [] \<or> (\<exists>y. ?A = [y])"
    by (rule distinct_const_key [of f _ k]) (use assms in \<open>auto intro: distinct_map_filter\<close>)
  moreover have "?B = [] \<or> (\<exists>y. ?B = [y])"
    by (rule distinct_const_key [of f _ k]) (use assms in \<open>auto intro: distinct_map_filter\<close>)
  moreover have "set ?A = set ?B" using assms(3) by auto
  ultimately show ?thesis by (elim disjE exE) (simp_all del: set_filter)
qed

lemma sort_key_distinct_cong:
  assumes "distinct (map f ys)" "distinct (map f zs)" "set ys = set zs"
  shows "sort_key f (xs @ ys) = sort_key f (xs @ zs)"
proof (rule sort_key_append_cong)
  show "mset ys = mset zs"
    using assms set_eq_iff_mset_eq_distinct [of ys zs] by (simp add: distinct_map)
qed (rule distinct_filter_key [OF assms])

lemma distinct_strip:
  assumes "distinct (map fst es)"
  shows "distinct (map fst (map strip_key (filter (upto_in k lsn) es)))"
  using assms
  by (induction es) (auto simp: strip_key_def upto_in_def image_iff)

lemma map_of_strip:
  "distinct (map fst es) \<Longrightarrow>
   set (map strip_key (filter (upto_in k lsn) es)) = {(l, v). l \<le> lsn \<and> map_of es (k, l) = Some v}"
  by (auto simp: strip_key_def upto_in_def image_iff)

lemma history_of_abs:
  assumes "repo_inv r" "sorted_wrt (<) (map fst vs)" "set vs = {(l, v). l \<le> lsn \<and> repo_abs r (k, l) = Some v}"
  shows "sort_key fst (gather r k lsn None) = vs"
proof -
  let ?es = "map strip_key (filter (upto_in k lsn) (all_entries r))"
  have "distinct (map fst (all_entries r))" using assms(1) by (simp add: repo_inv_def)
  then have "distinct (map fst ?es)" "set ?es = set vs"
    using assms(3) by (simp_all only: distinct_strip map_of_strip repo_abs_def)
  moreover have "distinct (map fst vs)" using assms(2) strict_sorted_iff by blast
  ultimately have "sort_key fst ([] @ ?es) = sort_key fst ([] @ vs)"
    by (intro sort_key_distinct_cong)
  moreover have "sort_key fst vs = vs"
    using assms(2) by (intro sort_key_id_if_sorted) (simp add: strict_sorted_iff)
  ultimately show ?thesis by (simp add: gather_all_entries)
qed

section \<open>Compaction keeps every read at or above the horizon\<close>

lemma fold_insert_set:
  assumes "bt_inv acc" "distinct (map fst (acc @ es))"
  shows "bt_inv (fold (\<lambda>e. bt_insert (fst e) (snd e)) es acc) \<and>
    set (fold (\<lambda>e. bt_insert (fst e) (snd e)) es acc) = set acc \<union> set es"
  using assms
proof (induction es arbitrary: acc)
  case Nil
  then show ?case by simp
next
  case (Cons e es)
  have eq: "set (bt_insert (fst e) (snd e) acc) = insert e (set acc)"
    using Cons.prems set_bt_insert [OF Cons.prems(1), of "fst e" "snd e"] by (auto simp: rev_image_eqI)
  have inv: "bt_inv (bt_insert (fst e) (snd e) acc)" by (rule bt_inv_insert) (rule Cons.prems)
  have "distinct (map fst (bt_insert (fst e) (snd e) acc @ es))"
    using Cons.prems bt_inv_distinct [OF inv] by (simp add: fst_bt_insert)
  then show ?case using Cons.IH [OF inv] eq by auto
qed

lemma merge_layers_concat:
  "merge_layers ls = fold (\<lambda>e. bt_insert (fst e) (snd e)) (concat (map entries ls)) []"
proof -
  have "fold (\<lambda>l acc. fold (\<lambda>e. bt_insert (fst e) (snd e)) (entries l) acc) ls acc =
      fold (\<lambda>e. bt_insert (fst e) (snd e)) (concat (map entries ls)) acc" for acc
    by (induction ls arbitrary: acc) simp_all
  then show ?thesis by (simp add: merge_layers_def)
qed

lemma merge_layers_set:
  assumes "distinct (map fst (concat (map entries ls)))"
  shows "bt_inv (merge_layers ls)" "set (merge_layers ls) = set (concat (map entries ls))"
  using fold_insert_set [of "[]" "concat (map entries ls)"] assms by (simp_all add: merge_layers_concat)

lemma fold_bt_remove: "fold bt_remove ks m = filter (\<lambda>e. fst e \<notin> set ks) m"
  by (induction ks arbitrary: m) (auto simp: bt_remove_def intro: filter_cong)

definition base_upto :: "Lsn \<Rightarrow> version_map \<Rightarrow> PageKey \<Rightarrow> Lsn \<Rightarrow> bool" where
  "base_upto h m k b \<longleftrightarrow> b \<le> h \<and> (\<exists>v. ((k, b), v) \<in> set m \<and> is_base v)"

lemma base_lsns_latest:
  assumes "bt_inv m"
  shows "case base_lsns h m k of
      None \<Rightarrow> \<forall>b. \<not> base_upto h m k b
    | Some b \<Rightarrow> base_upto h m k b \<and> (\<forall>b'. base_upto h m k b' \<longrightarrow> b' \<le> b)"
  using assms
proof (induction m rule: rev_induct)
  case Nil
  then show ?case by (simp add: base_lsns_def base_upto_def)
next
  case (snoc e m)
  obtain k' l v where e: "e = ((k', l), v)" by (cases e) auto
  have m: "bt_inv m" and last: "\<And>x. x \<in> set m \<Longrightarrow> fst x < (k', l)"
    using snoc.prems by (auto simp: bt_inv_def sorted_wrt_append e)
  have earlier: "base_upto h m k' b \<Longrightarrow> b \<le> l" for b
    using last by (fastforce simp: base_upto_def less_prod_def)
  have step: "base_lsns h (m @ [e]) =
      (if l \<le> h \<and> is_base v then (base_lsns h m)(k' \<mapsto> l) else base_lsns h m)"
    by (simp add: base_lsns_def e)
  have upto: "base_upto h (m @ [e]) k b \<longleftrightarrow> base_upto h m k b \<or> (k = k' \<and> b = l \<and> l \<le> h \<and> is_base v)" for b
    by (auto simp: base_upto_def e)
  show ?case
    using snoc.IH [OF m] earlier unfolding step upto by (auto split: option.splits)
qed

definition prune :: "Lsn \<Rightarrow> version_map \<Rightarrow> version_map" where
  "prune h m = filter (\<lambda>((k, l), v). \<not> (\<exists>b. base_upto h m k b \<and> l < b)) m"

lemma kept_prune:
  assumes "bt_inv m"
  shows "fold bt_remove (drop_keys (base_lsns h m) m) m = prune h m"
proof -
  have drop: "(case base_lsns h m k of Some b \<Rightarrow> l < b | None \<Rightarrow> False) \<longleftrightarrow> (\<exists>b. base_upto h m k b \<and> l < b)" for k l
    using base_lsns_latest [OF assms, of h k] by (auto split: option.splits intro: less_le_trans)
  have "fst e \<notin> set (drop_keys (base_lsns h m) m) \<longleftrightarrow>
      (case e of ((k, l), v) \<Rightarrow> \<not> (\<exists>b. base_upto h m k b \<and> l < b))" if "e \<in> set m" for e
    using that unfolding drop_keys_def drop by (force simp: image_iff split: prod.splits)
  then show ?thesis
    unfolding fold_bt_remove prune_def by (intro filter_cong) auto
qed

lemma bt_inv_prune: "bt_inv m \<Longrightarrow> bt_inv (prune h m)"
  unfolding prune_def by (rule bt_inv_filter)

lemma compact_entries:
  assumes "repo_inv r"
  shows "memtable (fst (compact h r)) = memtable r"
    and "rel_sizes (fst (compact h r)) = rel_sizes r"
    and "concat (map entries (layers (fst (compact h r)))) = prune h (merge_layers (layers r))"
proof -
  have "bt_inv (merge_layers (layers r))"
    using assms by (intro merge_layers_set) (simp add: repo_inv_def all_entries_def)
  note kept = kept_prune [OF this]
  show "memtable (fst (compact h r)) = memtable r" "rel_sizes (fst (compact h r)) = rel_sizes r"
    by (simp_all add: compact_def Let_def)
  show "concat (map entries (layers (fst (compact h r)))) = prune h (merge_layers (layers r))"
  proof (cases "layers r = []")
    case True
    then show ?thesis by (simp add: compact_def merge_layers_def prune_def)
  next
    case False
    then show ?thesis by (simp add: compact_def Let_def kept)
  qed
qed

lemma compact_layers_inv: "\<forall>l \<in> set (layers (fst (compact h r))). bt_inv (entries l)"
  if "repo_inv r"
proof -
  have "bt_inv (prune h (merge_layers (layers r)))"
    using that by (intro bt_inv_prune merge_layers_set) (simp add: repo_inv_def all_entries_def)
  then show ?thesis
    using that by (cases "layers r = []")
      (auto simp: compact_def Let_def kept_prune merge_layers_set repo_inv_def all_entries_def)
qed

lemma compact_inv:
  assumes "repo_inv r"
  shows "repo_inv (fst (compact h r))"
proof -
  have d: "distinct (map fst (concat (map entries (layers r))))"
    using assms by (simp add: repo_inv_def all_entries_def)
  let ?p = "prune h (merge_layers (layers r))"
  have "bt_inv ?p" by (intro bt_inv_prune merge_layers_set d)
  then have "distinct (map fst ?p)" by (rule bt_inv_distinct)
  moreover have "set ?p \<subseteq> set (concat (map entries (layers r)))"
    using merge_layers_set(2) [OF d] by (auto simp: prune_def)
  then have "fst ` set ?p \<subseteq> fst ` set (concat (map entries (layers r)))" by (rule image_mono)
  moreover have "distinct (map fst (memtable r))"
    "fst ` set (memtable r) \<inter> fst ` set (concat (map entries (layers r))) = {}"
    using assms by (simp_all add: repo_inv_def all_entries_def)
  ultimately have "distinct (map fst (all_entries (fst (compact h r))))"
    unfolding all_entries_def compact_entries [OF assms] map_append distinct_append set_map by blast
  then show ?thesis
    using assms compact_layers_inv [OF assms] by (simp add: repo_inv_def compact_entries [OF assms])
qed

lemma sorted_split:
  fixes b :: Lsn
  shows "sorted (map fst vs) \<Longrightarrow> vs = filter (\<lambda>e. fst e < b) vs @ filter (\<lambda>e. b \<le> fst e) vs"
proof (induction vs)
  case Nil
  then show ?case by simp
next
  case (Cons e vs)
  show ?case
  proof (cases "fst e < b")
    case True
    then show ?thesis using Cons by simp
  next
    case False
    then have "\<forall>x \<in> set (e # vs). b \<le> fst x" using Cons.prems by auto
    then have "filter (\<lambda>e. fst e < b) (e # vs) = []" "filter (\<lambda>e. b \<le> fst e) (e # vs) = e # vs"
      by (simp_all add: filter_empty_conv filter_id_conv not_less)
    then show ?thesis by simp
  qed
qed

text \<open>Two histories that agree from a base on have the same relevant part.\<close>

lemma relevant_sort_cong:
  fixes b :: Lsn
  assumes "sort_key fst (filter (\<lambda>e. b \<le> fst e) xs) = sort_key fst (filter (\<lambda>e. b \<le> fst e) ys)"
    and "(b, v) \<in> set xs" "is_base v"
  shows "relevant (sort_key fst xs) = relevant (sort_key fst ys)"
proof -
  have split: "relevant (sort_key fst zs) = relevant (sort_key fst (filter (\<lambda>e. b \<le> fst e) zs))"
    if "(b, v) \<in> set zs" for zs
  proof -
    have "relevant (filter (\<lambda>e. fst e < b) (sort_key fst zs) @ filter (\<lambda>e. b \<le> fst e) (sort_key fst zs)) =
        relevant (filter (\<lambda>e. b \<le> fst e) (sort_key fst zs))"
      using that assms(3) by (intro relevant_append bexI [of _ "(b, v)"]) simp_all
    then show ?thesis
      using sorted_split [of "sort_key fst zs" b] by (simp add: filter_sort)
  qed
  have "(b, v) \<in> set (sort_key fst (filter (\<lambda>e. b \<le> fst e) xs))" using assms(2) by simp
  then have "(b, v) \<in> set ys" unfolding assms(1) by simp
  then show ?thesis using split [of xs] split [of ys] assms by simp
qed

lemma strip_pruned:
  assumes d: "distinct (map fst es)" and m: "bt_inv m" "set m = set es" and lsn: "h \<le> lsn"
  shows "(\<forall>b. \<not> base_upto h m k b) \<Longrightarrow>
      set (map strip_key (filter (upto_in k lsn) (prune h m))) = set (map strip_key (filter (upto_in k lsn) es))"
    and "base_upto h m k b \<Longrightarrow> (\<And>b'. base_upto h m k b' \<Longrightarrow> b' \<le> b) \<Longrightarrow>
      set (filter (\<lambda>e. b \<le> fst e) (map strip_key (filter (upto_in k lsn) (prune h m)))) =
      set (filter (\<lambda>e. b \<le> fst e) (map strip_key (filter (upto_in k lsn) es)))"
  using m(2) by (auto simp: prune_def upto_in_def strip_key_def image_iff) (metis leD order.trans)+

lemma compact_history:
  assumes r: "repo_inv r" and lsn: "h \<le> lsn"
  shows "relevant (sort_key fst (gather (fst (compact h r)) k lsn base)) =
    relevant (sort_key fst (gather r k lsn base))"
proof -
  define es where "es = concat (map entries (layers r))"
  define m where "m = merge_layers (layers r)"
  have d: "distinct (map fst es)" using r by (simp add: es_def repo_inv_def all_entries_def)
  have m: "bt_inv m" "set m = set es" using merge_layers_set d by (simp_all add: m_def es_def)
  define X where "X = (case base of Some (blsn, page) \<Rightarrow> [(blsn, Image page)] | None \<Rightarrow> [])
    @ map strip_key (filter (upto_in k lsn) (memtable r))"
  define L where "L = map strip_key (filter (upto_in k lsn) es)"
  define K where "K = map strip_key (filter (upto_in k lsn) (prune h m))"
  have gather: "gather r k lsn base = X @ L" "gather (fst (compact h r)) k lsn base = X @ K"
    unfolding gather_all_entries all_entries_def compact_entries [OF r]
    by (simp_all add: X_def L_def K_def es_def m_def)
  have dL: "distinct (map fst L)" unfolding L_def by (rule distinct_strip [OF d])
  have dK: "distinct (map fst K)"
    unfolding K_def by (intro distinct_strip bt_inv_distinct bt_inv_prune m)
  show ?thesis
  proof (cases "base_lsns h m k")
    case None
    then have "set K = set L"
      unfolding K_def L_def
      by (intro strip_pruned(1) [OF d m lsn]) (use base_lsns_latest [OF m(1), of h k] in simp)
    then show ?thesis unfolding gather using sort_key_distinct_cong [OF dK dL] by simp
  next
    case (Some b)
    then have b: "base_upto h m k b" "\<And>b'. base_upto h m k b' \<Longrightarrow> b' \<le> b"
      using base_lsns_latest [OF m(1), of h k] by simp_all
    then obtain v where v: "((k, b), v) \<in> set es" "is_base v" "b \<le> lsn"
      using m(2) lsn by (auto simp: base_upto_def)
    then have mem: "(b, v) \<in> set (X @ L)"
      by (force simp: L_def upto_in_def strip_key_def image_iff)
    have "sort_key fst (filter (\<lambda>e. b \<le> fst e) X @ filter (\<lambda>e. b \<le> fst e) L) =
        sort_key fst (filter (\<lambda>e. b \<le> fst e) X @ filter (\<lambda>e. b \<le> fst e) K)"
      using strip_pruned(2) [OF d m lsn b] dL dK
      by (intro sort_key_distinct_cong) (simp_all add: distinct_map_filter K_def L_def)
    then show ?thesis
      unfolding gather by (intro relevant_sort_cong [OF _ mem v(2), symmetric]) simp
  qed
qed

section \<open>Relation sizes\<close>

lemma latest_size_None:
  "bt_inv m \<Longrightarrow> latest_size m rl lsn = None \<longleftrightarrow> (\<forall>l \<le> lsn. bt_get m (rl, l) = None)"
proof -
  assume m: "bt_inv m"
  have "latest_size m rl lsn = None \<longleftrightarrow> bt_range (rl, INVALID) (rl, lsn) m = []"
    by (simp add: latest_size_def next_back_def)
  also have "\<dots> \<longleftrightarrow> (\<forall>k. (rl, INVALID) \<le> k \<and> k \<le> (rl, lsn) \<longrightarrow> bt_get m k = None)"
    by (rule bt.scan_empty_iff [OF m])
  also have "\<dots> \<longleftrightarrow> (\<forall>l \<le> lsn. bt_get m (rl, l) = None)"
    using lsn_range_iff [of rl _ _ lsn] by auto
  finally show ?thesis .
qed

lemma latest_size_Some:
  assumes m: "bt_inv m" and l: "l \<le> lsn" "bt_get m (rl, l) = Some n"
    and latest: "\<And>l'. l' \<le> lsn \<Longrightarrow> bt_get m (rl, l') \<noteq> None \<Longrightarrow> l' \<le> l"
  shows "latest_size m rl lsn = Some n"
proof -
  let ?s = "bt_range (rl, INVALID) (rl, lsn) m"
  have ne: "?s \<noteq> []"
    using latest_size_None [OF m, of rl lsn] l by (auto simp: latest_size_def next_back_def)
  obtain k' where k': "last ?s = (k', snd (last ?s))" by (cases "last ?s") auto
  then have in_s: "(k', snd (last ?s)) \<in> set ?s" using ne last_in_set [OF ne] by simp
  then have rng: "(rl, INVALID) \<le> k' \<and> k' \<le> (rl, lsn)" and got: "bt_get m k' = Some (snd (last ?s))"
    using bt.scan_mem [OF m, of k'] by blast+
  obtain l' where l': "k' = (rl, l')" "l' \<le> lsn"
    using rng lsn_range_iff [of rl _ _ lsn] by (cases k') auto
  have "(rl, l) \<le> fst (last ?s)"
    by (rule bt.scan_greatest(2) [OF m ne]) (use l lsn_range_iff [of rl rl l lsn] in auto)
  then have "(rl, l) \<le> (rl, l')" using l' by (subst (asm) k') simp
  then have "l \<le> l'" by simp
  moreover have "l' \<le> l" by (rule latest) (use l' got in simp_all)
  ultimately have "snd (last ?s) = n" using got l l' by simp
  then show ?thesis using ne by (simp add: latest_size_def next_back_def)
qed

lemma latest_size_attained:
  assumes "bt_inv m" "latest_size m rl lsn = Some n"
  shows "\<exists>l \<le> lsn. bt_get m (rl, l) = Some n \<and> (\<forall>l' \<le> lsn. bt_get m (rl, l') \<noteq> None \<longrightarrow> l' \<le> l)"
proof -
  let ?A = "{l. l \<le> lsn \<and> bt_get m (rl, l) \<noteq> None}"
  have "?A \<noteq> {}" using latest_size_None [OF assms(1), of rl lsn] assms(2) by auto
  moreover have "finite ?A" by simp
  ultimately have "Max ?A \<in> ?A" by (intro Max_in)
  have max: "\<And>l. l \<in> ?A \<Longrightarrow> l \<le> Max ?A" by (intro Max_ge) simp_all
  with \<open>Max ?A \<in> ?A\<close> obtain n' where "Max ?A \<le> lsn" "bt_get m (rl, Max ?A) = Some n'" by auto
  moreover from this max have "latest_size m rl lsn = Some n'"
    by (intro latest_size_Some [OF assms(1), of "Max ?A"]) auto
  ultimately show ?thesis using max assms(2) by auto
qed

text \<open>The size of a relation as the list of ingested modifications determines it.\<close>

definition blocks_upto :: "Modification list \<Rightarrow> RelTag \<Rightarrow> Lsn \<Rightarrow> u32 list" where
  "blocks_upto ms rl lsn = map (\<lambda>m. mod_block m + 1) (filter (\<lambda>m. mod_rel m = rl \<and> mod_lsn m \<le> lsn) ms)"

definition size_spec :: "Modification list \<Rightarrow> RelTag \<Rightarrow> Lsn \<Rightarrow> u32 option" where
  "size_spec ms rl lsn =
     (if blocks_upto ms rl lsn = [] then None else Some (fold max (blocks_upto ms rl lsn) 0))"

definition sizes_ok :: "Modification list \<Rightarrow> (RelTag \<times> Lsn, u32) btree \<Rightarrow> bool" where
  "sizes_ok ms m \<longleftrightarrow> bt_inv m \<and> (\<forall>rl lsn. latest_size m rl lsn = size_spec ms rl lsn) \<and>
     (\<forall>rl l. bt_get m (rl, l) \<noteq> None \<longrightarrow> (\<exists>x \<in> set ms. mod_lsn x = l))"

lemma ingest_size_get:
  assumes "bt_inv m"
  shows "bt_get (ingest_size x m) = (bt_get m)((mod_rel x, mod_lsn x) \<mapsto>
    max (case latest_size m (mod_rel x) (mod_lsn x) of Some n \<Rightarrow> n | None \<Rightarrow> 0) (mod_block x + 1))"
proof -
  have "(case bt_get m (mod_rel x, mod_lsn x) of Some n \<Rightarrow> n | None \<Rightarrow> 0) \<le>
      (case latest_size m (mod_rel x) (mod_lsn x) of Some n \<Rightarrow> n | None \<Rightarrow> 0)"
  proof (cases "bt_get m (mod_rel x, mod_lsn x)")
    case (Some n)
    then have "latest_size m (mod_rel x) (mod_lsn x) = Some n"
      by (intro latest_size_Some [OF assms]) auto
    then show ?thesis using Some by simp
  qed simp
  then show ?thesis
    using bt.get_insert [OF assms] by (simp add: ingest_size_def Let_def max.absorb2 max.assoc [symmetric])
qed

lemma blocks_upto_snoc:
  "blocks_upto (ms @ [x]) rl lsn =
    blocks_upto ms rl lsn @ (if mod_rel x = rl \<and> mod_lsn x \<le> lsn then [mod_block x + 1] else [])"
  by (simp add: blocks_upto_def)

lemma ingest_size_step:
  assumes ok: "sizes_ok ms m" and order: "\<forall>y \<in> set ms. mod_lsn y \<le> mod_lsn x"
  shows "sizes_ok (ms @ [x]) (ingest_size x m)"
proof -
  have m: "bt_inv m" and spec: "\<And>rl lsn. latest_size m rl lsn = size_spec ms rl lsn"
    and "\<And>rl l. bt_get m (rl, l) \<noteq> None \<Longrightarrow> \<exists>y \<in> set ms. mod_lsn y = l"
    using ok unfolding sizes_ok_def by blast+
  with order have old: "\<And>rl l. bt_get m (rl, l) \<noteq> None \<Longrightarrow> l \<le> mod_lsn x" by blast
  note inv = bt_inv_ingest_size [OF m, of x] and get = ingest_size_get [OF m, of x]
  have "latest_size (ingest_size x m) rl lsn = size_spec (ms @ [x]) rl lsn" for rl lsn
  proof (cases "mod_rel x = rl \<and> mod_lsn x \<le> lsn")
    case True
    have "blocks_upto ms rl lsn = blocks_upto ms rl (mod_lsn x)"
      using True order by (auto simp: blocks_upto_def intro!: arg_cong [of _ _ "map _"] filter_cong)
    then have "size_spec (ms @ [x]) rl lsn = bt_get (ingest_size x m) (rl, mod_lsn x)"
      using True spec [of rl "mod_lsn x"] get by (simp add: size_spec_def blocks_upto_snoc max.commute)
    moreover have "latest_size (ingest_size x m) rl lsn = bt_get (ingest_size x m) (rl, mod_lsn x)"
      using True get old by (subst latest_size_Some [OF inv, of "mod_lsn x"]) (auto split: if_splits)
    ultimately show ?thesis by simp
  next
    case False
    then have same: "bt_get (ingest_size x m) (rl, l) = bt_get m (rl, l)" if "l \<le> lsn" for l
      using that get by auto
    have "latest_size (ingest_size x m) rl lsn = latest_size m rl lsn"
    proof (cases "latest_size m rl lsn")
      case None
      then have "latest_size (ingest_size x m) rl lsn = None"
        using latest_size_None [OF m, of rl lsn] latest_size_None [OF inv, of rl lsn] same by simp
      then show ?thesis using None by simp
    next
      case (Some n)
      from latest_size_attained [OF m Some] obtain l where
        "l \<le> lsn" "bt_get m (rl, l) = Some n" "\<forall>l' \<le> lsn. bt_get m (rl, l') \<noteq> None \<longrightarrow> l' \<le> l" by blast
      then show ?thesis using Some same by (auto intro!: latest_size_Some [OF inv])
    qed
    then show ?thesis using False spec by (auto simp: size_spec_def blocks_upto_snoc)
  qed
  moreover have "\<forall>rl l. bt_get (ingest_size x m) (rl, l) \<noteq> None \<longrightarrow> (\<exists>y \<in> set (ms @ [x]). mod_lsn y = l)"
    using ok get by (auto simp: sizes_ok_def)
  ultimately show ?thesis using inv by (simp add: sizes_ok_def)
qed

lemma ingest_one_sizes: "rel_sizes (ingest_one m r) = ingest_size m (rel_sizes r)"
  by (simp add: ingest_one_def freeze_locked_def Let_def)

lemma ingest_sizes:
  assumes "sizes_ok ms (rel_sizes r)" "sorted (map mod_lsn (ms @ xs))"
  shows "sizes_ok (ms @ xs) (rel_sizes (ingest xs r))"
  using assms
proof (induction xs arbitrary: ms r)
  case Nil
  then show ?case by simp
next
  case (Cons x xs)
  have "sizes_ok (ms @ [x]) (rel_sizes (ingest_one x r))"
    unfolding ingest_one_sizes by (rule ingest_size_step) (use Cons.prems in \<open>auto simp: sorted_append\<close>)
  then show ?case using Cons.IH [of "ms @ [x]"] Cons.prems(2) by simp
qed

section \<open>Reads through a redo backend\<close>

context redo_backend
begin

lemma get_page_total:
  assumes r: "repo_inv r"
  shows "get_page reconstruct r k lsn \<noteq> Panic"
    and "get_page reconstruct r k lsn = Ok (Page page) \<Longrightarrow> length page = PAGE_SIZE"
    and "get_page reconstruct r k lsn = Ok NotFound \<longleftrightarrow>
      \<not> (\<exists>l v. l \<le> lsn \<and> repo_abs r (k, l) = Some v \<and> is_base v)"
proof -
  let ?vs = "sort_key fst (gather r k lsn None)"
  have d: "distinct (map fst (all_entries r))" using r by (simp add: repo_inv_def)
  have "set ?vs = {(l, v). l \<le> lsn \<and> repo_abs r (k, l) = Some v}"
    using map_of_strip [OF d] by (simp add: gather_all_entries repo_abs_def)
  then have "(\<forall>e \<in> set ?vs. \<not> is_base (snd e)) \<longleftrightarrow>
      \<not> (\<exists>l v. l \<le> lsn \<and> repo_abs r (k, l) = Some v \<and> is_base v)" by auto
  moreover have "page_lookup (reconstruct k lsn ?vs) = Ok NotFound \<longleftrightarrow> reconstruct k lsn ?vs = Ok None"
    by (auto simp: page_lookup_def split: result.splits option.splits RedoError.splits)
  ultimately show "get_page reconstruct r k lsn = Ok NotFound \<longleftrightarrow>
      \<not> (\<exists>l v. l \<le> lsn \<and> repo_abs r (k, l) = Some v \<and> is_base v)"
    by (simp only: get_page_def get_page_with_base_def not_found_iff)
  show "get_page reconstruct r k lsn \<noteq> Panic"
    using no_panic [of k lsn ?vs]
    by (auto simp: get_page_def get_page_with_base_def page_lookup_def
        split: result.splits option.splits RedoError.splits)
  show "length page = PAGE_SIZE" if "get_page reconstruct r k lsn = Ok (Page page)"
    using that page_size [of k lsn ?vs page]
    by (auto simp: get_page_def get_page_with_base_def page_lookup_def
        split: result.splits option.splits RedoError.splits)
qed

lemma compact_reads:
  assumes "repo_inv r" "h \<le> lsn"
  shows "get_page_with_base reconstruct (fst (compact h r)) k lsn base =
    get_page_with_base reconstruct r k lsn base"
  unfolding get_page_with_base_def
  by (rule arg_cong [of _ _ page_lookup], rule reconstruct_cong, rule compact_history) (rule assms)+

end

section \<open>Main results\<close>


definition sample_rel :: RelTag where "sample_rel = RelTag 1663 5 16384 Main"

definition sample_mods :: "Modification list" where
  "sample_mods =
     [\<lparr>mod_rel = sample_rel, mod_block = 0, mod_lsn = 10, mod_version = Image (replicate PAGE_SIZE 0)\<rparr>,
      \<lparr>mod_rel = sample_rel, mod_block = 3, mod_lsn = 20, mod_version = Image (replicate PAGE_SIZE 1)\<rparr>,
      \<lparr>mod_rel = sample_rel, mod_block = 0, mod_lsn = 30, mod_version = Delta [ByteEdit 0 [7]]\<rparr>]"

lemma sample_mods_facts:
  "distinct (map mod_key sample_mods)" "sorted (map mod_lsn sample_mods)"
  by (simp_all add: sample_mods_def mod_key_def)

lemma empty_abs: "repo_abs (repository_new t) = Map.empty"
  by (simp add: repo_abs_def all_entries_def repository_new_def)


text \<open>
  C8.  Compaction never changes what can still be read: with every backend that reconstructs from the
  last base on, a read at or above the horizon gives the same answer before and after, with or without
  a base image from a parent branch.  Relation sizes do not change and the invariant is kept.
\<close>

theorem compact_preserves_reads:
  assumes "redo_backend redo" "repo_inv r" "horizon \<le> lsn"
  shows "get_page_with_base redo (fst (compact horizon r)) k lsn base = get_page_with_base redo r k lsn base \<and>
    get_rel_size (fst (compact horizon r)) rl l = get_rel_size r rl l \<and>
    repo_inv (fst (compact horizon r))"
  using redo_backend.compact_reads [OF assms] compact_entries [OF assms(2)] compact_inv [OF assms(2)]
  by (simp add: get_rel_size_def)

lemma sample_repo_inv: "repo_inv (ingest sample_mods (repository_new 2))"
  using ingest_refines [OF repo_inv_new sample_mods_facts(1)] by (simp add: empty_abs)

theorem compact_preserves_reads_witness:
  "get_page_with_base rust_reconstruct (fst (compact 25 (ingest sample_mods (repository_new 2))))
     (PageKey sample_rel 0) 40 None =
   get_page_with_base rust_reconstruct (ingest sample_mods (repository_new 2)) (PageKey sample_rel 0) 40 None"
  using compact_preserves_reads [OF rust_redo.redo_backend_axioms sample_repo_inv, of 25 40] by simp

text \<open>
  C36.  Compaction prunes exactly the dead versions: of the frozen versions it keeps those that no base of
  the same page at or below the horizon supersedes, counts the others as removed, leaves at most one
  layer, leaves the memtable alone and forgets the upload marks of the layers it replaced.
\<close>

theorem compact_prunes_exactly:
  assumes "repo_inv r" "compact horizon r = (r', st)"
  shows "set (concat (map entries (layers r'))) =
      {((k, l), v). ((k, l), v) \<in> set (concat (map entries (layers r))) \<and>
        \<not> (\<exists>b w. ((k, b), w) \<in> set (concat (map entries (layers r))) \<and> is_base w \<and> b \<le> horizon \<and> l < b)} \<and>
    versions_removed st = length (concat (map entries (layers r))) - length (concat (map entries (layers r'))) \<and>
    layers_before st = length (layers r) \<and> layers_after st = length (layers r') \<and> length (layers r') \<le> 1 \<and>
    removed_layer_ids st = map layer_id (layers r) \<and>
    memtable r' = memtable r \<and> uploaded r' = uploaded r - set (map layer_id (layers r))"
proof -
  have d: "distinct (map fst (concat (map entries (layers r))))"
    using assms(1) by (simp add: repo_inv_def all_entries_def)
  note m = merge_layers_set [OF d]
  have r': "r' = fst (compact horizon r)" and st: "st = snd (compact horizon r)" using assms(2) by simp_all
  have ent: "concat (map entries (layers r')) = prune horizon (merge_layers (layers r))"
    unfolding r' by (rule compact_entries(3) [OF assms(1)])
  have "distinct (merge_layers (layers r))" "distinct (concat (map entries (layers r)))"
    using bt_inv_distinct [OF m(1)] d by (simp_all add: distinct_map)
  then have len: "length (merge_layers (layers r)) = length (concat (map entries (layers r)))"
    using m(2) distinct_card by metis
  have "set (concat (map entries (layers r'))) =
      {((k, l), v). ((k, l), v) \<in> set (concat (map entries (layers r))) \<and>
        \<not> (\<exists>b w. ((k, b), w) \<in> set (concat (map entries (layers r))) \<and> is_base w \<and> b \<le> horizon \<and> l < b)}"
    unfolding ent prune_def base_upto_def set_filter m(2) by auto
  moreover have "versions_removed st = length (merge_layers (layers r)) - length (prune horizon (merge_layers (layers r)))"
  proof (cases "layers r = []")
    case True
    then show ?thesis by (simp add: st compact_def merge_layers_def)
  next
    case False
    then show ?thesis by (simp add: st compact_def Let_def kept_prune [OF m(1)])
  qed
  moreover have "layers_before st = length (layers r)" "layers_after st = length (layers r')"
    "length (layers r') \<le> 1" "removed_layer_ids st = map layer_id (layers r)" "memtable r' = memtable r"
    "uploaded r' = uploaded r - set (map layer_id (layers r))"
    by (simp_all add: r' st compact_def Let_def)
  ultimately show ?thesis unfolding len [symmetric] ent [symmetric] by blast
qed

theorem compact_prunes_exactly_witness:
  "length (layers (fst (compact 25 (ingest sample_mods (repository_new 2))))) \<le> 1"
  using compact_prunes_exactly [OF sample_repo_inv, of 25
      "fst (compact 25 (ingest sample_mods (repository_new 2)))"
      "snd (compact 25 (ingest sample_mods (repository_new 2)))"] by simp

text \<open>
  A read always returns: it never panics, a page it returns has 8192 bytes, and it answers
  \<open>NotFound\<close> exactly when no image and no initialising record of the page exists at or before the
  requested LSN.
\<close>

theorem get_page_answers:
  assumes "redo_backend redo" "repo_inv r"
  shows "get_page redo r k lsn \<noteq> Panic \<and>
    (\<forall>page. get_page redo r k lsn = Ok (Page page) \<longrightarrow> length page = PAGE_SIZE) \<and>
    (get_page redo r k lsn = Ok NotFound \<longleftrightarrow>
      \<not> (\<exists>l v. l \<le> lsn \<and> repo_abs r (k, l) = Some v \<and> is_base v))"
  using redo_backend.get_page_total [OF assms] by blast

lemma get_rel_size_fold:
  assumes "sorted (map mod_lsn ms)"
  shows "get_rel_size (ingest ms (repository_new threshold)) rl lsn =
    (let blocks = map (\<lambda>m. mod_block m + 1) (filter (\<lambda>m. mod_rel m = rl \<and> mod_lsn m \<le> lsn) ms)
     in if blocks = [] then None else Some (fold max blocks 0))"
proof -
  have "sizes_ok [] (rel_sizes (repository_new threshold))"
    by (simp add: sizes_ok_def repository_new_def latest_size_def next_back_def bt_range_def
        size_spec_def blocks_upto_def bt_get_def)
  then have "sizes_ok ms (rel_sizes (ingest ms (repository_new threshold)))"
    using ingest_sizes [of "[]"] assms by simp
  then show ?thesis
    by (simp add: sizes_ok_def get_rel_size_def size_spec_def blocks_upto_def Let_def)
qed

lemma unat_fold_max:
  fixes bs :: "u32 list"
  assumes "bs \<noteq> []"
  shows "unat (fold max bs 0) = Max (unat ` set bs)"
proof -
  have "unat (fold max bs a) = fold max (map unat bs) (unat a)" for a
    by (induction bs arbitrary: a) (simp_all add: max_def word_le_nat_alt)
  then have "unat (fold max bs 0) = fold max (map unat bs) 0" by simp
  also have "\<dots> = Max (set (0 # map unat bs))" by (simp only: Max.set_eq_fold)
  also have "\<dots> = Max (unat ` set bs)" using assms by simp
  finally show ?thesis .
qed



end
