(* ===== verification/Timeline.thy ===== *)
theory Timeline
  imports Repository
begin

text \<open>
  Branches: \<open>pageserver/src/timeline.rs\<close>.  A timeline owns a repository and may have an ancestor, a
  parent timeline and the LSN at which it diverged.  The sources share timelines by reference; since a
  parent exists before its branches and no timeline is ever removed from its tenant, the timelines of a
  tenant are a list with the newest first, and the parent of a timeline is found behind it.  The lemmas
  show that a branch inherits, isolates and overrides as copy-on-write promises.
\<close>

section \<open>State\<close>

record Timeline =
  tl_id :: TimelineId
  repo :: Inner
  ancestor :: "(TimelineId \<times> Lsn) option"

type_synonym timelines = "Timeline list"

definition timeline_root :: "TimelineId \<Rightarrow> Inner \<Rightarrow> Timeline" where
  "timeline_root i r = \<lparr>tl_id = i, repo = r, ancestor = None\<rparr>"

definition branched :: "TimelineId \<Rightarrow> Inner \<Rightarrow> TimelineId \<Rightarrow> Lsn \<Rightarrow> Timeline" where
  "branched i r parent alsn = \<lparr>tl_id = i, repo = r, ancestor = Some (parent, alsn)\<rparr>"

definition ancestor_timeline :: "Timeline \<Rightarrow> TimelineId option" where
  "ancestor_timeline t = map_option fst (ancestor t)"

definition ancestor_lsn :: "Timeline \<Rightarrow> Lsn option" where
  "ancestor_lsn t = map_option snd (ancestor t)"

definition timeline_ingest :: "Modification list \<Rightarrow> Timeline \<Rightarrow> Timeline" where
  "timeline_ingest ms t = t\<lparr>repo := ingest ms (repo t)\<rparr>"

definition timeline_freeze :: "Timeline \<Rightarrow> Timeline" where
  "timeline_freeze t = t\<lparr>repo := freeze_locked (repo t)\<rparr>"

definition timeline_compact :: "Lsn \<Rightarrow> Timeline \<Rightarrow> Timeline \<times> CompactionStats" where
  "timeline_compact h t = (let (r, st) = compact h (repo t) in (t\<lparr>repo := r\<rparr>, st))"

section \<open>Reads through the ancestor chain\<close>

text \<open>
  The list is searched for the timeline itself and then, behind it, for its parent.  A reference that
  is not found would be a dangling pointer; the invariant \<open>timelines_ok\<close> excludes it.
\<close>

fun tl_get_page :: "redo_manager \<Rightarrow> timelines \<Rightarrow> TimelineId \<Rightarrow> PageKey \<Rightarrow> Lsn \<Rightarrow> (PageError, PageLookup) result" where
  "tl_get_page redo [] i key lsn = Panic"
| "tl_get_page redo (t # ts) i key lsn =
     (if tl_id t \<noteq> i then tl_get_page redo ts i key lsn
      else case ancestor t of
        None \<Rightarrow> get_page redo (repo t) key lsn
      | Some (parent, alsn) \<Rightarrow>
          rbind (get_page redo (repo t) key lsn) (\<lambda>own.
            case own of
              Page page \<Rightarrow> Ok (Page page)
            | NotFound \<Rightarrow>
                rbind (tl_get_page redo ts parent key alsn) (\<lambda>inherited.
                  case inherited of
                    Page base \<Rightarrow> get_page_with_base redo (repo t) key lsn (Some (alsn, base))
                  | NotFound \<Rightarrow> Ok NotFound)))"

definition or_size :: "u32 option \<Rightarrow> u32 option \<Rightarrow> u32 option" where
  "or_size own inherited =
     (case (own, inherited) of
        (Some a, Some b) \<Rightarrow> Some (max a b)
      | (Some a, None) \<Rightarrow> Some a
      | (None, b) \<Rightarrow> b)"

fun tl_get_rel_size :: "timelines \<Rightarrow> TimelineId \<Rightarrow> RelTag \<Rightarrow> Lsn \<Rightarrow> u32 option" where
  "tl_get_rel_size [] i rl lsn = None"
| "tl_get_rel_size (t # ts) i rl lsn =
     (if tl_id t \<noteq> i then tl_get_rel_size ts i rl lsn
      else case ancestor t of
        None \<Rightarrow> get_rel_size (repo t) rl lsn
      | Some (parent, alsn) \<Rightarrow> or_size (get_rel_size (repo t) rl lsn) (tl_get_rel_size ts parent rl alsn))"

definition update_timeline :: "TimelineId \<Rightarrow> (Timeline \<Rightarrow> Timeline) \<Rightarrow> timelines \<Rightarrow> timelines" where
  "update_timeline i f ts = map (\<lambda>t. if tl_id t = i then f t else t) ts"

section \<open>Invariant\<close>

fun timelines_ok :: "timelines \<Rightarrow> bool" where
  "timelines_ok [] = True"
| "timelines_ok (t # ts) \<longleftrightarrow>
     timelines_ok ts \<and> tl_id t \<notin> tl_id ` set ts \<and> repo_inv (repo t) \<and>
     (case ancestor t of None \<Rightarrow> True | Some (parent, _) \<Rightarrow> parent \<in> tl_id ` set ts)"

lemma timelines_ok_distinct: "timelines_ok ts \<Longrightarrow> distinct (map tl_id ts)"
  by (induction ts) auto

lemma timelines_ok_repo: "timelines_ok ts \<Longrightarrow> t \<in> set ts \<Longrightarrow> repo_inv (repo t)"
  by (induction ts) auto

text \<open>A read looks only at the timelines up to the one it starts from.\<close>

lemma tl_get_page_skip: "i \<notin> tl_id ` set ts \<Longrightarrow> tl_get_page redo (ts @ us) i k lsn = tl_get_page redo us i k lsn"
  by (induction ts) auto

lemma tl_get_page_cong:
  assumes "map tl_id ts = map tl_id us" "map ancestor ts = map ancestor us"
    and "\<And>n lsn base. n < length ts \<Longrightarrow> Q (ts ! n) lsn \<Longrightarrow>
      get_page_with_base redo (repo (ts ! n)) k lsn base = get_page_with_base redo (repo (us ! n)) k lsn base"
    and "\<And>n m alsn. n < length ts \<Longrightarrow> m < length ts \<Longrightarrow> ancestor (ts ! n) = Some (tl_id (ts ! m), alsn) \<Longrightarrow> Q (ts ! m) alsn"
    and "\<And>n. n < length ts \<Longrightarrow> tl_id (ts ! n) = i \<Longrightarrow> Q (ts ! n) lsn"
  shows "tl_get_page redo ts i k lsn = tl_get_page redo us i k lsn"
  using assms
proof (induction ts arbitrary: us i lsn)
  case Nil
  then show ?case by simp
next
  case (Cons t ts)
  obtain u us' where us: "us = u # us'" "tl_id u = tl_id t" "ancestor u = ancestor t"
    "map tl_id ts = map tl_id us'" "map ancestor ts = map ancestor us'"
    using Cons.prems(1,2) by (cases us) auto
  have IH: "tl_get_page redo ts j k l = tl_get_page redo us' j k l"
    if "\<And>n. n < length ts \<Longrightarrow> tl_id (ts ! n) = j \<Longrightarrow> Q (ts ! n) l" for j l
  proof (rule Cons.IH [OF us(4,5) _ _ that])
    show "get_page_with_base redo (repo (ts ! n)) k lsn base = get_page_with_base redo (repo (us' ! n)) k lsn base"
      if "n < length ts" "Q (ts ! n) lsn" for n lsn base
      using Cons.prems(3) [of "Suc n" lsn base] that us(1) by simp
    show "Q (ts ! m) alsn"
      if "n < length ts" "m < length ts" "ancestor (ts ! n) = Some (tl_id (ts ! m), alsn)" for n m alsn
      using Cons.prems(4) [of "Suc n" "Suc m" alsn] that by simp
  qed
  show ?case
  proof (cases "tl_id t = i")
    case False
    then have "tl_get_page redo ts i k lsn = tl_get_page redo us' i k lsn"
      using Cons.prems(5) [of "Suc _"] by (intro IH) simp
    then show ?thesis using us False by simp
  next
    case True
    then have "Q t lsn" using Cons.prems(5) [of 0] by simp
    then have own: "get_page_with_base redo (repo t) k lsn base = get_page_with_base redo (repo u) k lsn base" for base
      using Cons.prems(3) [of 0 lsn base] us by simp
    show ?thesis
    proof (cases "ancestor t")
      case None
      then show ?thesis using us True own by (simp add: get_page_def)
    next
      case (Some a)
      obtain parent alsn where a: "a = (parent, alsn)" by (cases a)
      have "tl_get_page redo ts parent k alsn = tl_get_page redo us' parent k alsn"
        using Cons.prems(4) [of 0 "Suc _" alsn] Some a by (intro IH) simp
      then show ?thesis using us True own Some a
        by (simp add: get_page_def cong: PageLookup.case_cong)
    qed
  qed
qed

section \<open>Later writes are invisible\<close>

lemma ingest_later:
  assumes r: "repo_inv r" and ms: "distinct (map mod_key ms)" "\<forall>m \<in> set ms. mod_key m \<notin> dom (repo_abs r)"
    and later: "\<forall>m \<in> set ms. lsn < mod_lsn m"
  shows "get_page_with_base redo (ingest ms r) k lsn base = get_page_with_base redo r k lsn base"
proof -
  note ref = ingest_refines [OF r ms]
  let ?L = "\<lambda>r. map strip_key (filter (upto_in k lsn) (all_entries r))"
  have d: "distinct (map fst (all_entries r))" "distinct (map fst (all_entries (ingest ms r)))"
    using r ref by (simp_all add: repo_inv_def)
  have "map_of (map (\<lambda>m. (mod_key m, mod_version m)) ms) (k, l) = None" if "l \<le> lsn" for l
    using that later by (force simp: map_of_eq_None_iff mod_key_def)
  then have "repo_abs (ingest ms r) (k, l) = repo_abs r (k, l)" if "l \<le> lsn" for l
    using that ref by (simp add: map_add_def)
  then have "set (?L (ingest ms r)) = set (?L r)"
    unfolding map_of_strip [OF d(1)] map_of_strip [OF d(2)] by (auto simp: repo_abs_def)
  then show ?thesis
    unfolding get_page_with_base_def gather_all_entries
    using sort_key_distinct_cong [OF distinct_strip [OF d(2)] distinct_strip [OF d(1)]] by simp
qed

lemma update_timeline_same:
  assumes "\<And>t. tl_id (f t) = tl_id t" "\<And>t. ancestor (f t) = ancestor t"
  shows "map tl_id (update_timeline i f ts) = map tl_id ts" "map ancestor (update_timeline i f ts) = map ancestor ts"
  using assms by (simp_all add: update_timeline_def)

section \<open>Every read returns\<close>

lemma PageLookup_case_eq:
  "(case x of Page p \<Rightarrow> f p | NotFound \<Rightarrow> c) = y \<longleftrightarrow> (\<exists>p. x = Page p \<and> f p = y) \<or> (x = NotFound \<and> c = y)"
  by (cases x) auto

context redo_backend
begin

lemma get_page_with_base_answers:
  "get_page_with_base reconstruct r k lsn base \<noteq> Panic"
  "get_page_with_base reconstruct r k lsn base = Ok (Page page) \<Longrightarrow> length page = PAGE_SIZE"
  using no_panic [of k lsn "sort_key fst (gather r k lsn base)"]
    page_size [of k lsn "sort_key fst (gather r k lsn base)" page]
  by (auto simp: get_page_with_base_def page_lookup_def
      split: result.splits option.splits RedoError.splits)

lemma tl_get_page_answers:
  assumes "timelines_ok ts" "i \<in> tl_id ` set ts"
  shows "tl_get_page reconstruct ts i k lsn \<noteq> Panic \<and>
    (\<forall>page. tl_get_page reconstruct ts i k lsn = Ok (Page page) \<longrightarrow> length page = PAGE_SIZE)"
  using assms
proof (induction ts arbitrary: i lsn)
  case Nil
  then show ?case by simp
next
  case (Cons t ts)
  consider (other) "tl_id t \<noteq> i" | (root) "tl_id t = i" "ancestor t = None"
    | (branch) parent alsn where "tl_id t = i" "ancestor t = Some (parent, alsn)"
    by (cases "ancestor t") auto
  then show ?case
  proof cases
    case other
    then show ?thesis using Cons by auto
  next
    case root
    then show ?thesis using get_page_with_base_answers by (simp add: get_page_def)
  next
    case branch
    then have "tl_get_page reconstruct ts parent k alsn \<noteq> Panic" using Cons by auto
    then show ?thesis
      using branch get_page_with_base_answers
      by (auto simp: get_page_def rbind_eq_Panic rbind_eq_Ok PageLookup_case_eq)
  qed
qed

lemma page_lookup_image: "length img = PAGE_SIZE \<Longrightarrow> page_lookup (reconstruct k l [(bl, Image img)]) = Ok (Page img)"
  by (simp add: page_lookup_def lone_image)

lemma fresh_branch:
  assumes "timelines_ok ts" "parent \<in> tl_id ` set ts"
  shows "tl_get_page reconstruct (branched i (repository_new threshold) parent alsn # ts) i k lsn =
    tl_get_page reconstruct ts parent k alsn"
proof -
  have own: "get_page reconstruct (repository_new threshold) k lsn = Ok NotFound"
    by (simp add: get_page_def get_page_with_base_def gather_all_entries all_entries_def
        repository_new_def no_base page_lookup_def)
  have base: "get_page_with_base reconstruct (repository_new threshold) k lsn (Some (alsn, page)) = Ok (Page page)"
    if "length page = PAGE_SIZE" for page
    using that by (simp add: get_page_with_base_def gather_all_entries all_entries_def
        repository_new_def page_lookup_image)
  show ?thesis
    using own base tl_get_page_answers [OF assms, of k alsn]
    by (cases "tl_get_page reconstruct ts parent k alsn") (auto simp: branched_def split: PageLookup.splits)
qed

end

section \<open>A branch is its linear history\<close>

definition own_history :: "Timeline \<Rightarrow> PageKey \<Rightarrow> Lsn \<Rightarrow> history" where
  "own_history t k lsn = sort_key fst (gather (repo t) k lsn None)"

text \<open>The history of a branch at an LSN: the parent's up to that LSN or to the branch point, whichever is earlier, then its own.\<close>

fun linear_history :: "timelines \<Rightarrow> TimelineId \<Rightarrow> PageKey \<Rightarrow> Lsn \<Rightarrow> history" where
  "linear_history [] i k lsn = []"
| "linear_history (t # ts) i k lsn =
     (if tl_id t \<noteq> i then linear_history ts i k lsn
      else case ancestor t of
        None \<Rightarrow> own_history t k lsn
      | Some (parent, alsn) \<Rightarrow> linear_history ts parent k (min lsn alsn) @ own_history t k lsn)"

text \<open>A read not before the point at which its timeline diverged, and branch points not before the parent's own.\<close>

definition since_branch :: "timelines \<Rightarrow> TimelineId \<Rightarrow> Lsn \<Rightarrow> bool" where
  "since_branch ts i lsn \<longleftrightarrow>
     (\<forall>t \<in> set ts. tl_id t = i \<longrightarrow> (case ancestor t of None \<Rightarrow> True | Some (_, alsn) \<Rightarrow> alsn \<le> lsn))"

fun points_nested :: "timelines \<Rightarrow> bool" where
  "points_nested [] = True"
| "points_nested (t # ts) \<longleftrightarrow>
     points_nested ts \<and> (case ancestor t of None \<Rightarrow> True | Some (parent, alsn) \<Rightarrow> since_branch ts parent alsn)"

text \<open>A branch is only written past the point at which it diverged.\<close>

definition writes_after_branch :: "Timeline \<Rightarrow> bool" where
  "writes_after_branch t =
     (case ancestor t of None \<Rightarrow> True
      | Some (_, alsn) \<Rightarrow> \<forall>k l. (k, l) \<in> dom (repo_abs (repo t)) \<longrightarrow> alsn \<le> l)"

lemma own_history_set:
  assumes "repo_inv (repo t)"
  shows "set (own_history t k lsn) = {(l, v). l \<le> lsn \<and> repo_abs (repo t) (k, l) = Some v}"
proof -
  have "distinct (map fst (all_entries (repo t)))" using assms by (simp add: repo_inv_def)
  then show ?thesis by (simp only: own_history_def gather_all_entries repo_abs_def map_of_strip set_sort
        option.case append_Nil)
qed

lemma base_first:
  assumes "\<And>e. e \<in> set (own_history t k lsn) \<Longrightarrow> alsn \<le> fst e"
  shows "sort_key fst (gather (repo t) k lsn (Some (alsn, page))) = (alsn, Image page) # own_history t k lsn"
proof (rule properties_for_sort_key)
  show "sorted (map fst ((alsn, Image page) # own_history t k lsn))"
    using assms by (auto simp: own_history_def)
  show "filter (\<lambda>x. fst a = fst x) ((alsn, Image page) # own_history t k lsn) =
      filter (\<lambda>x. fst a = fst x) (gather (repo t) k lsn (Some (alsn, page)))" for a :: "Lsn \<times> PageVersion"
  proof -
    have swap: "(\<lambda>x :: Lsn \<times> PageVersion. fst a = fst x) = (\<lambda>x. fst x = fst a)" by auto
    show ?thesis unfolding own_history_def gather_all_entries swap by (simp add: sort_key_stable)
  qed
qed (simp add: own_history_def gather_all_entries)

context composing_redo
begin

lemma read_is_linear:
  assumes "timelines_ok ts" "\<forall>t \<in> set ts. writes_after_branch t" "points_nested ts" "i \<in> tl_id ` set ts" "since_branch ts i lsn"
  shows "tl_get_page reconstruct ts i k lsn = page_lookup (reconstruct k lsn (linear_history ts i k lsn))"
  using assms
proof (induction ts arbitrary: i lsn)
  case Nil
  then show ?case by simp
next
  case (Cons t ts)
  have own: "get_page reconstruct (repo t) k lsn = page_lookup (reconstruct k lsn (own_history t k lsn))"
    by (simp add: get_page_def get_page_with_base_def own_history_def)
  consider (other) "tl_id t \<noteq> i" | (root) "tl_id t = i" "ancestor t = None"
    | (branch) parent alsn where "tl_id t = i" "ancestor t = Some (parent, alsn)"
    by (cases "ancestor t") auto
  then show ?case
  proof cases
    case other
    then show ?thesis using Cons by (auto simp: since_branch_def)
  next
    case root
    then show ?thesis using own by simp
  next
    case branch
    have "alsn \<le> lsn" using Cons.prems(5) branch by (auto simp: since_branch_def)
    then have cut: "min lsn alsn = alsn" by (simp add: min_def)
    let ?P = "linear_history ts parent k alsn" and ?O = "own_history t k lsn"
    have "repo_inv (repo t)" and wa: "\<And>l v. repo_abs (repo t) (k, l) = Some v \<Longrightarrow> alsn \<le> l"
      using Cons.prems branch by (auto simp: writes_after_branch_def intro: domI)
    then have after: "alsn \<le> fst e" if "e \<in> set ?O" for e
      using that by (auto simp: own_history_set)
    have par: "tl_get_page reconstruct ts parent k alsn = page_lookup (reconstruct k alsn ?P)"
      using Cons.IH [of parent alsn] Cons.prems branch by auto
    show ?thesis
    proof (cases "\<exists>e \<in> set ?O. is_base (snd e)")
      case True
      then have "reconstruct k lsn (?P @ ?O) = reconstruct k lsn ?O"
        by (intro reconstruct_cong relevant_append)
      moreover from True have "reconstruct k lsn ?O \<noteq> Ok None" using not_found_iff by blast
      ultimately show ?thesis
        using branch own cut by (auto simp: page_lookup_def split: result.splits option.splits RedoError.splits)
    next
      case False
      then have none: "reconstruct k lsn ?O = Ok None" and
        comp: "reconstruct k lsn (?P @ ?O) = rbind (reconstruct k alsn ?P) (\<lambda>found. case found of
          None \<Rightarrow> Ok None | Some page \<Rightarrow> reconstruct k lsn ((alsn, Image page) # ?O))"
        using no_base compose by blast+
      have based: "get_page_with_base reconstruct (repo t) k lsn (Some (alsn, page)) =
          page_lookup (reconstruct k lsn ((alsn, Image page) # ?O))" for page
        using base_first [OF after] by (simp add: get_page_with_base_def)
      show ?thesis
        using branch own none comp par based cut
        by (cases "reconstruct k alsn ?P") (auto simp: page_lookup_def split: option.splits RedoError.splits)
    qed
  qed
qed

end

section \<open>Main results\<close>


definition sample_timelines :: timelines where
  "sample_timelines =
     [branched 2 (ingest [\<lparr>mod_rel = sample_rel, mod_block = 0, mod_lsn = 40,
        mod_version = Delta [ByteEdit 1 [9]]\<rparr>] (repository_new 4)) 1 25,
      timeline_root 1 (ingest sample_mods (repository_new 2))]"

lemma sample_branch_repo:
  "repo_inv (ingest [\<lparr>mod_rel = sample_rel, mod_block = 0, mod_lsn = 40,
     mod_version = Delta [ByteEdit 1 [9]]\<rparr>] (repository_new 4))"
  "repo_abs (ingest [\<lparr>mod_rel = sample_rel, mod_block = 0, mod_lsn = 40,
     mod_version = Delta [ByteEdit 1 [9]]\<rparr>] (repository_new 4)) =
     [(PageKey sample_rel 0, 40) \<mapsto> Delta [ByteEdit 1 [9]]]"
  using ingest_refines [OF repo_inv_new, of "[\<lparr>mod_rel = sample_rel, mod_block = 0, mod_lsn = 40,
     mod_version = Delta [ByteEdit 1 [9]]\<rparr>]" 4]
  by (simp_all add: empty_abs mod_key_def)

lemma sample_timelines_ok:
  "timelines_ok sample_timelines" "\<forall>t \<in> set sample_timelines. writes_after_branch t" "points_nested sample_timelines"
  unfolding sample_timelines_def
  by (simp_all del: ingest.simps add: branched_def timeline_root_def writes_after_branch_def since_branch_def
      sample_branch_repo sample_repo_inv)



definition later_mods :: "Modification list" where
  "later_mods = [\<lparr>mod_rel = sample_rel, mod_block = 0, mod_lsn = 60, mod_version = Image (replicate PAGE_SIZE 5)\<rparr>]"


text \<open>
  A new branch starts as its parent: right after branching, a read of any page on the branch at any LSN,
  also one before the branch point, is the parent's page at the branch point.
\<close>

theorem fresh_branch_reads_parent:
  assumes "redo_backend redo" "timelines_ok ts" "parent \<in> tl_id ` set ts"
  shows "tl_get_page redo (branched i (repository_new threshold) parent alsn # ts) i k lsn =
    tl_get_page redo ts parent k alsn"
  by (rule redo_backend.fresh_branch) (rule assms)+

lemma sample_root_reads:
  "get_page rust_reconstruct (ingest sample_mods (repository_new 2)) (PageKey sample_rel 3) 25 = Ok (Page (replicate PAGE_SIZE 1))"
  "lsn < 20 \<Longrightarrow> get_page rust_reconstruct (ingest sample_mods (repository_new 2)) (PageKey sample_rel 3) lsn = Ok NotFound"
proof -
  let ?r = "ingest sample_mods (repository_new 2)" and ?k = "PageKey sample_rel 3"
  have abs: "repo_abs ?r = map_of (map (\<lambda>m. (mod_key m, mod_version m)) sample_mods)"
    using ingest_refines [OF repo_inv_new sample_mods_facts(1), of 2] by (simp add: empty_abs)
  have "sort_key fst (gather ?r ?k 25 None) = [(20, Image (replicate PAGE_SIZE 1))]"
    by (rule history_of_abs [OF sample_repo_inv], simp, unfold abs) (auto simp: sample_mods_def mod_key_def split: if_splits)
  then show "get_page rust_reconstruct ?r ?k 25 = Ok (Page (replicate PAGE_SIZE 1))"
    using rust_redo.page_lookup_image [of "replicate PAGE_SIZE 1"] by (simp add: get_page_def get_page_with_base_def)
  show "get_page rust_reconstruct ?r ?k lsn = Ok NotFound" if "lsn < 20"
  proof -
    have "sort_key fst (gather ?r ?k lsn None) = []"
      by (rule history_of_abs [OF sample_repo_inv], simp, unfold abs)
         (use that in \<open>auto simp: sample_mods_def mod_key_def split: if_splits\<close>)
    then show ?thesis by (simp add: get_page_def get_page_with_base_def rust_redo.no_base page_lookup_def)
  qed
qed

text \<open>
  C0.  A read on a branch before its branch point sees writes later than the LSN it asks for: here the branch
  leaves at LSN 25 and the page was first written at LSN 20, and the branch returns that write for a read at
  LSN 5, where its parent has no such page yet.
\<close>

theorem branch_read_before_point_sees_later_write:
  "tl_get_page rust_reconstruct
     [branched 2 (repository_new 4) 1 25, timeline_root 1 (ingest sample_mods (repository_new 2))] 2 (PageKey sample_rel 3) 5 =
       Ok (Page (replicate PAGE_SIZE 1)) \<and>
   tl_get_page rust_reconstruct
     [branched 2 (repository_new 4) 1 25, timeline_root 1 (ingest sample_mods (repository_new 2))] 1 (PageKey sample_rel 3) 5 =
       Ok NotFound"
proof -
  let ?r = "ingest sample_mods (repository_new 2)"
  have ok: "timelines_ok [timeline_root 1 ?r]" by (simp add: timeline_root_def sample_repo_inv)
  show ?thesis
    using rust_redo.fresh_branch [OF ok, of 1 2 4 25 "PageKey sample_rel 3" 5] sample_root_reads(1) sample_root_reads(2) [of 5]
    by (simp add: timeline_root_def branched_def)
qed

end
