(* ===== verification/Tenant.thy ===== *)
theory Tenant
  imports Timeline
begin

text \<open>
  Tenants and their branches: \<open>pageserver/src/tenant.rs\<close>.  A tenant is a registry of timelines that
  share a redo backend.  Creating and branching keep the timelines well formed, and garbage collection
  pins the history that branches still read: no read at or above the requested horizon changes, on any
  timeline, however deep the branches go.
\<close>

section \<open>State and operations\<close>

datatype TenantError = AlreadyExists TimelineId | NoSuchParent TimelineId

record Tenant =
  tenant_timelines :: timelines
  tenant_threshold :: nat
  tenant_redo :: redo_manager

definition tenant_with_redo :: "nat \<Rightarrow> redo_manager \<Rightarrow> Tenant" where
  "tenant_with_redo threshold redo =
     \<lparr>tenant_timelines = [], tenant_threshold = threshold, tenant_redo = redo\<rparr>"

definition tenant_new :: "nat \<Rightarrow> Tenant" where
  "tenant_new threshold = tenant_with_redo threshold rust_reconstruct"

definition get_timeline :: "Tenant \<Rightarrow> TimelineId \<Rightarrow> Timeline option" where
  "get_timeline ten i = find (\<lambda>t. tl_id t = i) (tenant_timelines ten)"

definition timeline_ids :: "Tenant \<Rightarrow> TimelineId list" where
  "timeline_ids ten = map tl_id (tenant_timelines ten)"

definition create_timeline :: "TimelineId \<Rightarrow> Tenant \<Rightarrow> (TenantError, Tenant) result" where
  "create_timeline i ten =
     (if get_timeline ten i \<noteq> None then Err (AlreadyExists i)
      else Ok (ten\<lparr>tenant_timelines :=
        timeline_root i (repository_new (tenant_threshold ten)) # tenant_timelines ten\<rparr>))"

definition branch_timeline :: "TimelineId \<Rightarrow> TimelineId \<Rightarrow> Lsn \<Rightarrow> Tenant \<Rightarrow> (TenantError, Tenant) result" where
  "branch_timeline new_id parent_id alsn ten =
     (if get_timeline ten new_id \<noteq> None then Err (AlreadyExists new_id)
      else case get_timeline ten parent_id of
        None \<Rightarrow> Err (NoSuchParent parent_id)
      | Some parent \<Rightarrow> Ok (ten\<lparr>tenant_timelines :=
          branched new_id (repository_new (tenant_threshold ten)) (tl_id parent) alsn # tenant_timelines ten\<rparr>))"

definition tenant_get_page :: "Tenant \<Rightarrow> TimelineId \<Rightarrow> PageKey \<Rightarrow> Lsn \<Rightarrow> (PageError, PageLookup) result" where
  "tenant_get_page ten i k lsn = tl_get_page (tenant_redo ten) (tenant_timelines ten) i k lsn"

definition tenant_get_rel_size :: "Tenant \<Rightarrow> TimelineId \<Rightarrow> RelTag \<Rightarrow> Lsn \<Rightarrow> u32 option" where
  "tenant_get_rel_size ten i rl lsn = tl_get_rel_size (tenant_timelines ten) i rl lsn"

definition tenant_update :: "TimelineId \<Rightarrow> (Timeline \<Rightarrow> Timeline) \<Rightarrow> Tenant \<Rightarrow> Tenant" where
  "tenant_update i f ten = ten\<lparr>tenant_timelines := update_timeline i f (tenant_timelines ten)\<rparr>"

section \<open>Garbage collection\<close>

definition pin_child :: "Timeline \<Rightarrow> (TimelineId \<rightharpoonup> Lsn) \<Rightarrow> (TimelineId \<rightharpoonup> Lsn)" where
  "pin_child t pins =
     (case (ancestor_timeline t, ancestor_lsn t) of
        (Some parent, Some alsn) \<Rightarrow>
          pins(parent \<mapsto> min (case pins parent of Some pin \<Rightarrow> pin | None \<Rightarrow> - 1) alsn)
      | _ \<Rightarrow> pins)"

definition child_pin :: "timelines \<Rightarrow> TimelineId \<rightharpoonup> Lsn" where
  "child_pin ts = fold pin_child ts Map.empty"

definition effective_horizon :: "Lsn \<Rightarrow> (TimelineId \<rightharpoonup> Lsn) \<Rightarrow> TimelineId \<Rightarrow> Lsn" where
  "effective_horizon requested pins i =
     (case pins i of Some pin \<Rightarrow> min requested pin | None \<Rightarrow> requested)"

definition gc :: "Lsn \<Rightarrow> Tenant \<Rightarrow> Tenant \<times> (TimelineId \<times> CompactionStats) list" where
  "gc requested ten =
     (let pins = child_pin (tenant_timelines ten);
          res = map (\<lambda>t. timeline_compact (effective_horizon requested pins (tl_id t)) t) (tenant_timelines ten)
      in (ten\<lparr>tenant_timelines := map fst res\<rparr>, map (\<lambda>(t, st). (tl_id t, st)) res))"

section \<open>The registry\<close>

definition tenant_ok :: "Tenant \<Rightarrow> bool" where
  "tenant_ok ten \<longleftrightarrow> timelines_ok (tenant_timelines ten)"

lemma get_timeline_None: "get_timeline ten i = None \<longleftrightarrow> i \<notin> set (timeline_ids ten)"
  by (auto simp: get_timeline_def timeline_ids_def find_None_iff)

lemma get_timeline_Some: "get_timeline ten i = Some t \<Longrightarrow> t \<in> set (tenant_timelines ten) \<and> tl_id t = i"
  by (auto simp: get_timeline_def find_Some_iff)

lemma tenant_ok_new: "tenant_ok (tenant_with_redo threshold redo)"
  by (simp add: tenant_ok_def tenant_with_redo_def)

lemma create_timeline_ok:
  assumes "tenant_ok ten" "create_timeline i ten = Ok ten'"
  shows "tenant_ok ten'" "timeline_ids ten' = i # timeline_ids ten"
proof -
  have "i \<notin> tl_id ` set (tenant_timelines ten)"
    using assms(2) get_timeline_None [of ten i] by (auto simp: create_timeline_def timeline_ids_def split: if_splits)
  then show "tenant_ok ten'" "timeline_ids ten' = i # timeline_ids ten"
    using assms by (auto simp: create_timeline_def tenant_ok_def timeline_root_def timeline_ids_def
        repo_inv_new split: if_splits)
qed

lemma branch_timeline_ok:
  assumes "tenant_ok ten" "branch_timeline i p alsn ten = Ok ten'"
  shows "tenant_ok ten'" "timeline_ids ten' = i # timeline_ids ten" "p \<in> set (timeline_ids ten)"
proof -
  have "i \<notin> tl_id ` set (tenant_timelines ten)"
    using assms(2) get_timeline_None [of ten i] by (auto simp: branch_timeline_def timeline_ids_def split: if_splits)
  moreover obtain t where t: "t \<in> set (tenant_timelines ten)" "tl_id t = p" "get_timeline ten p = Some t"
    using assms(2) get_timeline_Some [of ten p] by (auto simp: branch_timeline_def split: if_splits option.splits)
  ultimately show "tenant_ok ten'" "timeline_ids ten' = i # timeline_ids ten" "p \<in> set (timeline_ids ten)"
    using assms by (auto simp: branch_timeline_def tenant_ok_def branched_def timeline_ids_def
        repo_inv_new split: if_splits)
qed

section \<open>Pins\<close>

lemma child_pin_le:
  assumes "t \<in> set ts" "ancestor t = Some (p, alsn)"
  shows "\<exists>pin. child_pin ts p = Some pin \<and> pin \<le> alsn"
proof -
  have keep: "\<exists>pin'. fold pin_child ts pins p = Some pin' \<and> pin' \<le> pin" if "pins p = Some pin" for pins pin ts
    using that
  proof (induction ts arbitrary: pins pin)
    case Nil
    then show ?case by simp
  next
    case (Cons t ts)
    then have "\<exists>pin'. pin_child t pins p = Some pin' \<and> pin' \<le> pin"
      by (cases "ancestor t") (auto simp: pin_child_def ancestor_timeline_def ancestor_lsn_def)
    then show ?case using Cons.IH [of "pin_child t pins"] by fastforce
  qed
  have "\<exists>pin. fold pin_child ts pins p = Some pin \<and> pin \<le> alsn" if "t \<in> set ts" for pins ts
    using that
  proof (induction ts arbitrary: pins)
    case Nil
    then show ?case by simp
  next
    case (Cons u ts)
    show ?case
    proof (cases "u = t")
      case True
      have "pin_child t pins p = Some (min (case pins p of Some pin \<Rightarrow> pin | None \<Rightarrow> - 1) alsn)"
        using assms(2) by (simp add: pin_child_def ancestor_timeline_def ancestor_lsn_def)
      then show ?thesis using True keep [of "pin_child t pins"] by fastforce
    next
      case False
      then show ?thesis using Cons by simp
    qed
  qed
  then show ?thesis using assms(1) by (simp add: child_pin_def)
qed

lemma effective_horizon_le: "effective_horizon h pins i \<le> h"
  by (simp add: effective_horizon_def split: option.splits)

lemma effective_horizon_pinned:
  "t \<in> set ts \<Longrightarrow> ancestor t = Some (p, alsn) \<Longrightarrow> effective_horizon h (child_pin ts) p \<le> alsn"
  using child_pin_le [of t ts p alsn] by (auto simp: effective_horizon_def min.coboundedI2)

definition compacted :: "Lsn \<Rightarrow> timelines \<Rightarrow> timelines" where
  "compacted h ts = map (\<lambda>t. t\<lparr>repo := fst (compact (effective_horizon h (child_pin ts) (tl_id t)) (repo t))\<rparr>) ts"

lemma gc_timelines: "tenant_timelines (fst (gc h ten)) = compacted h (tenant_timelines ten)"
  by (simp add: gc_def compacted_def timeline_compact_def Let_def case_prod_beta comp_def)

lemma tl_get_rel_size_cong:
  assumes "map tl_id ts = map tl_id us" "map ancestor ts = map ancestor us"
    "\<And>n. n < length ts \<Longrightarrow> rel_sizes (repo (ts ! n)) = rel_sizes (repo (us ! n))"
  shows "tl_get_rel_size ts i rl lsn = tl_get_rel_size us i rl lsn"
  using assms
proof (induction ts arbitrary: us i lsn)
  case Nil
  then show ?case by simp
next
  case (Cons t ts)
  obtain u us' where us: "us = u # us'" "tl_id u = tl_id t" "ancestor u = ancestor t"
    "map tl_id ts = map tl_id us'" "map ancestor ts = map ancestor us'"
    using Cons.prems(1,2) by (cases us) auto
  have "tl_get_rel_size ts j rl l = tl_get_rel_size us' j rl l" for j l
    by (rule Cons.IH [OF us(4,5)]) (use Cons.prems(3) [of "Suc _"] us(1) in simp)
  moreover have "rel_sizes (repo t) = rel_sizes (repo u)" using Cons.prems(3) [of 0] us by simp
  ultimately show ?case using us by (simp add: get_rel_size_def split: option.splits)
qed

lemma timelines_ok_cong:
  "map tl_id ts = map tl_id us \<Longrightarrow> map ancestor ts = map ancestor us \<Longrightarrow>
   \<forall>u \<in> set us. repo_inv (repo u) \<Longrightarrow> timelines_ok ts \<Longrightarrow> timelines_ok us"
proof (induction ts arbitrary: us)
  case Nil
  then show ?case by simp
next
  case (Cons t ts)
  obtain u us' where us: "us = u # us'" "tl_id u = tl_id t" "ancestor u = ancestor t"
    "map tl_id ts = map tl_id us'" "map ancestor ts = map ancestor us'"
    using Cons.prems(1,2) by (cases us) auto
  have "tl_id ` set ts = tl_id ` set us'" using us(4) by (metis set_map)
  then show ?case using Cons us by (cases "ancestor t") auto
qed

lemma gc_tenant_reads:
  assumes "redo_backend (tenant_redo ten)" "tenant_ok ten" "horizon \<le> lsn"
  shows "tenant_get_page (fst (gc horizon ten)) i k lsn = tenant_get_page ten i k lsn \<and>
    tenant_get_rel_size (fst (gc horizon ten)) i rl l = tenant_get_rel_size ten i rl l \<and>
    tenant_ok (fst (gc horizon ten))"
proof -
  define ts where "ts = tenant_timelines ten"
  have ok: "timelines_ok ts" using assms(2) by (simp add: ts_def tenant_ok_def)
  note inv = timelines_ok_repo [OF ok]
  have ids: "map tl_id ts = map tl_id (compacted horizon ts)" and anc: "map ancestor ts = map ancestor (compacted horizon ts)"
    by (simp_all add: compacted_def)
  have "tl_get_page (tenant_redo ten) ts i k lsn = tl_get_page (tenant_redo ten) (compacted horizon ts) i k lsn"
  proof (rule tl_get_page_cong [OF ids anc, where Q = "\<lambda>t l. effective_horizon horizon (child_pin ts) (tl_id t) \<le> l"])
    fix n l base assume "n < length ts" "effective_horizon horizon (child_pin ts) (tl_id (ts ! n)) \<le> l"
    then show "get_page_with_base (tenant_redo ten) (repo (ts ! n)) k l base =
        get_page_with_base (tenant_redo ten) (repo (compacted horizon ts ! n)) k l base"
      using redo_backend.compact_reads [OF assms(1) inv] by (simp add: compacted_def)
  next
    fix n m alsn assume "n < length ts" "m < length ts" "ancestor (ts ! n) = Some (tl_id (ts ! m), alsn)"
    then show "effective_horizon horizon (child_pin ts) (tl_id (ts ! m)) \<le> alsn"
      using effective_horizon_pinned nth_mem by blast
  next
    fix n assume "n < length ts"
    show "effective_horizon horizon (child_pin ts) (tl_id (ts ! n)) \<le> lsn"
      using effective_horizon_le assms(3) order.trans by blast
  qed
  moreover have "tl_get_rel_size ts i rl l = tl_get_rel_size (compacted horizon ts) i rl l"
    by (rule tl_get_rel_size_cong [OF ids anc]) (use inv compact_entries(2) in \<open>simp add: compacted_def\<close>)
  moreover have "timelines_ok (compacted horizon ts)"
    by (rule timelines_ok_cong [OF ids anc _ ok]) (use inv compact_inv in \<open>auto simp: compacted_def\<close>)
  ultimately show ?thesis
    by (simp add: tenant_get_page_def tenant_get_rel_size_def tenant_ok_def gc_timelines ts_def)
      (simp add: gc_def Let_def)
qed

section \<open>Main results\<close>

text \<open>
  C5.  Garbage collection is safe for branches: after a collection at a requested horizon, every timeline of
  the tenant answers every page read at or above that horizon and every relation-size read as before,
  although a branch may read its ancestors far below the horizon, and the tenant stays well formed.
\<close>

theorem gc_preserves_reads:
  assumes "redo_backend (tenant_redo ten)" "tenant_ok ten" "horizon \<le> lsn"
  shows "tenant_get_page (fst (gc horizon ten)) i k lsn = tenant_get_page ten i k lsn \<and>
    tenant_get_rel_size (fst (gc horizon ten)) i rl l = tenant_get_rel_size ten i rl l \<and>
    tenant_ok (fst (gc horizon ten))"
  by (rule gc_tenant_reads) (rule assms)+

definition sample_tenant :: Tenant where
  "sample_tenant = \<lparr>tenant_timelines = sample_timelines, tenant_threshold = 2, tenant_redo = rust_reconstruct\<rparr>"

theorem gc_preserves_reads_witness:
  "tenant_get_page (fst (gc 100 sample_tenant)) 2 (PageKey sample_rel 0) 120 =
   tenant_get_page sample_tenant 2 (PageKey sample_rel 0) 120"
  using gc_preserves_reads [of sample_tenant 100 120 2 "PageKey sample_rel 0"] rust_redo.redo_backend_axioms
    sample_timelines_ok(1) by (simp add: sample_tenant_def tenant_ok_def)

text \<open>
  Creating and branching timelines: the two operations succeed exactly when the new identifier is free
  and, for a branch, the parent exists; they report which of the two failed; and they add one empty
  timeline and keep the tenant well formed.
\<close>

theorem create_and_branch_spec:
  assumes "tenant_ok ten"
  shows "(case create_timeline i ten of
      Ok ten' \<Rightarrow> i \<notin> set (timeline_ids ten) \<and> timeline_ids ten' = i # timeline_ids ten \<and> tenant_ok ten'
    | Err e \<Rightarrow> e = AlreadyExists i \<and> i \<in> set (timeline_ids ten)
    | Panic \<Rightarrow> False) \<and>
    (case branch_timeline i p alsn ten of
      Ok ten' \<Rightarrow> i \<notin> set (timeline_ids ten) \<and> p \<in> set (timeline_ids ten) \<and>
        timeline_ids ten' = i # timeline_ids ten \<and> tenant_ok ten' \<and>
        map_option ancestor (get_timeline ten' i) = Some (Some (p, alsn))
    | Err e \<Rightarrow> e = AlreadyExists i \<and> i \<in> set (timeline_ids ten) \<or>
        e = NoSuchParent p \<and> i \<notin> set (timeline_ids ten) \<and> p \<notin> set (timeline_ids ten)
    | Panic \<Rightarrow> False)"
proof (rule conjI)
  show "case create_timeline i ten of
      Ok ten' \<Rightarrow> i \<notin> set (timeline_ids ten) \<and> timeline_ids ten' = i # timeline_ids ten \<and> tenant_ok ten'
    | Err e \<Rightarrow> e = AlreadyExists i \<and> i \<in> set (timeline_ids ten)
    | Panic \<Rightarrow> False"
  proof (cases "create_timeline i ten")
    case (Ok ten')
    then show ?thesis
      using create_timeline_ok [OF assms Ok] get_timeline_None [of ten i]
      by (auto simp: create_timeline_def split: if_splits)
  qed (use get_timeline_None [of ten i] in \<open>auto simp: create_timeline_def split: if_splits\<close>)
  show "case branch_timeline i p alsn ten of
      Ok ten' \<Rightarrow> i \<notin> set (timeline_ids ten) \<and> p \<in> set (timeline_ids ten) \<and>
        timeline_ids ten' = i # timeline_ids ten \<and> tenant_ok ten' \<and>
        map_option ancestor (get_timeline ten' i) = Some (Some (p, alsn))
    | Err e \<Rightarrow> e = AlreadyExists i \<and> i \<in> set (timeline_ids ten) \<or>
        e = NoSuchParent p \<and> i \<notin> set (timeline_ids ten) \<and> p \<notin> set (timeline_ids ten)
    | Panic \<Rightarrow> False"
  proof (cases "branch_timeline i p alsn ten")
    case (Ok ten')
    have "map_option ancestor (get_timeline ten' i) = Some (Some (p, alsn))"
      using Ok get_timeline_Some [of ten p]
      by (auto simp: branch_timeline_def get_timeline_def branched_def split: if_splits option.splits)
    then show ?thesis
      using Ok branch_timeline_ok [OF assms Ok] get_timeline_None [of ten i]
      by (auto simp: branch_timeline_def split: if_splits)
  qed (use get_timeline_None [of ten i] get_timeline_None [of ten p] in
      \<open>auto simp: branch_timeline_def split: if_splits option.splits\<close>)
qed

end
