(* ===== verification/Tenant_Manager.thy ===== *)
theory Tenant_Manager
  imports Tenant
begin

text \<open>
  The registry of tenants: \<open>pageserver/src/tenant_manager.rs\<close>.  The map from tenant id to tenant is an
  association list with unique ids.  Tenants are isolated: no operation on one tenant changes what
  another one holds, and collecting garbage over all tenants preserves the reads of each.
\<close>

section \<open>State and operations\<close>

datatype TenantManagerError = TenantExists TenantId

record TenantManager =
  tm_threshold :: nat
  tm_redo :: "redo_manager option"
  tm_store :: bool
  tm_tenants :: "(TenantId \<times> Tenant) list"

definition manager_new :: "nat \<Rightarrow> redo_manager option \<Rightarrow> TenantManager" where
  "manager_new threshold redo =
     \<lparr>tm_threshold = threshold, tm_redo = redo, tm_store = False, tm_tenants = []\<rparr>"

definition manager_with_catalog :: "nat \<Rightarrow> redo_manager option \<Rightarrow> TenantManager" where
  "manager_with_catalog threshold redo =
     \<lparr>tm_threshold = threshold, tm_redo = redo, tm_store = True, tm_tenants = []\<rparr>"

definition manager_single :: "Tenant \<Rightarrow> TenantManager" where
  "manager_single ten =
     \<lparr>tm_threshold = 100000, tm_redo = None, tm_store = False, tm_tenants = [(ZERO, ten)]\<rparr>"

definition build_tenant :: "TenantManager \<Rightarrow> Tenant" where
  "build_tenant m =
     (case tm_redo m of Some redo \<Rightarrow> tenant_with_redo (tm_threshold m) redo | None \<Rightarrow> tenant_new (tm_threshold m))"

definition manager_get :: "TenantManager \<Rightarrow> TenantId \<Rightarrow> Tenant option" where
  "manager_get m i = map_of (tm_tenants m) i"

definition manager_get_or_create :: "TenantId \<Rightarrow> TenantManager \<Rightarrow> TenantManager \<times> Tenant" where
  "manager_get_or_create i m =
     (case manager_get m i of
        Some ten \<Rightarrow> (m, ten)
      | None \<Rightarrow> (m\<lparr>tm_tenants := (i, build_tenant m) # tm_tenants m\<rparr>, build_tenant m))"

definition manager_create :: "TenantId \<Rightarrow> TenantManager \<Rightarrow> (TenantManagerError, TenantManager) result" where
  "manager_create i m =
     (if manager_get m i \<noteq> None then Err (TenantExists i)
      else Ok (m\<lparr>tm_tenants := (i, build_tenant m) # tm_tenants m\<rparr>))"

definition manager_remove :: "TenantId \<Rightarrow> TenantManager \<Rightarrow> TenantManager \<times> bool" where
  "manager_remove i m =
     (m\<lparr>tm_tenants := filter (\<lambda>e. fst e \<noteq> i) (tm_tenants m)\<rparr>, manager_get m i \<noteq> None)"

definition tenant_ids :: "TenantManager \<Rightarrow> TenantId list" where
  "tenant_ids m = map fst (tm_tenants m)"

text \<open>A tenant is shared by reference; changing it changes the entry of the registry.\<close>

definition manager_update :: "TenantId \<Rightarrow> (Tenant \<Rightarrow> Tenant) \<Rightarrow> TenantManager \<Rightarrow> TenantManager" where
  "manager_update i f m = m\<lparr>tm_tenants := map (\<lambda>(j, ten). (j, if j = i then f ten else ten)) (tm_tenants m)\<rparr>"

definition gc_all :: "Lsn \<Rightarrow> TenantManager \<Rightarrow> TenantManager \<times> (TenantId \<times> TimelineId \<times> CompactionStats) list" where
  "gc_all horizon m =
     (m\<lparr>tm_tenants := map (\<lambda>(i, ten). (i, fst (gc horizon ten))) (tm_tenants m)\<rparr>,
      concat (map (\<lambda>(i, ten). map (\<lambda>(tlid, st). (i, tlid, st)) (snd (gc horizon ten))) (tm_tenants m)))"

section \<open>Invariant\<close>

definition manager_ok :: "TenantManager \<Rightarrow> bool" where
  "manager_ok m \<longleftrightarrow> distinct (tenant_ids m) \<and> (\<forall>(i, ten) \<in> set (tm_tenants m). tenant_ok ten)"

lemma build_tenant_ok: "tenant_ok (build_tenant m)"
  by (simp add: build_tenant_def tenant_new_def tenant_ok_new split: option.splits)

lemma manager_get_None: "manager_get m i = None \<longleftrightarrow> i \<notin> set (tenant_ids m)"
  by (auto simp: manager_get_def tenant_ids_def map_of_eq_None_iff)

lemma manager_get_ok: "manager_ok m \<Longrightarrow> manager_get m i = Some ten \<Longrightarrow> tenant_ok ten"
  by (auto simp: manager_ok_def manager_get_def dest: map_of_SomeD)

lemma manager_ok_new: "manager_ok (manager_new threshold redo)"
  by (simp add: manager_ok_def manager_new_def tenant_ids_def)

lemma manager_get_or_create_ok:
  assumes "manager_ok m"
  shows "manager_ok (fst (manager_get_or_create i m))"
    and "manager_get (fst (manager_get_or_create i m)) = (manager_get m)(i \<mapsto> snd (manager_get_or_create i m))"
proof -
  show "manager_ok (fst (manager_get_or_create i m))"
    using assms manager_get_None [of m i] build_tenant_ok [of m]
    by (auto simp: manager_get_or_create_def manager_ok_def tenant_ids_def split: option.splits)
  show "manager_get (fst (manager_get_or_create i m)) = (manager_get m)(i \<mapsto> snd (manager_get_or_create i m))"
    by (cases "manager_get m i")
       (auto simp: manager_get_or_create_def manager_get_def fun_eq_iff)
qed

lemma map_of_map_value:
  "map_of (map (\<lambda>(j, x). (j, g j x)) es) i = map_option (g i) (map_of es i)"
  by (induction es) auto

lemma manager_get_update:
  "manager_get (manager_update i f m) j = (if j = i then map_option f (manager_get m i) else manager_get m j)"
  by (auto simp: manager_update_def manager_get_def map_of_map_value option.map_ident cong: map_option_cong)

lemma manager_update_ok:
  "manager_ok m \<Longrightarrow> (\<And>ten. manager_get m i = Some ten \<Longrightarrow> tenant_ok (f ten)) \<Longrightarrow> manager_ok (manager_update i f m)"
proof -
  assume m: "manager_ok m" and f: "\<And>ten. manager_get m i = Some ten \<Longrightarrow> tenant_ok (f ten)"
  have "tenant_ids (manager_update i f m) = tenant_ids m"
    by (simp add: tenant_ids_def manager_update_def case_prod_beta comp_def)
  moreover have "tenant_ok (if j = i then f ten else ten)" if "(j, ten) \<in> set (tm_tenants m)" for j ten
  proof -
    have "manager_get m j = Some ten"
      using m that by (simp add: manager_ok_def manager_get_def tenant_ids_def)
    then show ?thesis using f manager_get_ok [OF m] by auto
  qed
  ultimately show ?thesis
    using m by (auto simp: manager_ok_def manager_update_def)
qed

section \<open>Main results\<close>

text \<open>
  Tenants are isolated: creating, removing or changing one tenant leaves every other tenant as it was;
  creating fails exactly when the tenant exists, removing tells whether it existed, and every operation
  keeps the registry well formed.
\<close>

theorem tenants_are_isolated:
  assumes "manager_ok m" "j \<noteq> i"
  shows "manager_get (fst (manager_get_or_create i m)) j = manager_get m j \<and>
    manager_get (fst (manager_remove i m)) j = manager_get m j \<and>
    manager_get (manager_update i f m) j = manager_get m j \<and>
    (case manager_create i m of
      Ok m' \<Rightarrow> manager_get m i = None \<and> manager_get m' i = Some (build_tenant m) \<and>
        manager_get m' j = manager_get m j \<and> manager_ok m'
    | Err e \<Rightarrow> e = TenantExists i \<and> manager_get m i \<noteq> None
    | Panic \<Rightarrow> False) \<and>
    (snd (manager_remove i m) \<longleftrightarrow> manager_get m i \<noteq> None) \<and>
    manager_get (fst (manager_remove i m)) i = None \<and> manager_ok (fst (manager_remove i m))"
proof -
  have rm: "map_of (filter (\<lambda>e. fst e \<noteq> i) es) = (map_of es)(i := None)" for es :: "(TenantId \<times> Tenant) list"
    by (induction es) auto
  have "manager_ok (fst (manager_remove i m))"
    using assms(1) by (auto simp: manager_ok_def manager_remove_def tenant_ids_def distinct_map_filter)
  moreover have "manager_ok m'" if "manager_create i m = Ok m'" for m'
    using that assms(1) build_tenant_ok [of m] manager_get_None [of m i]
    by (auto simp: manager_create_def manager_ok_def tenant_ids_def split: if_splits)
  moreover have "manager_get (manager_update i f m) j = manager_get m j"
    using assms(2) by (simp add: manager_get_update)
  ultimately show ?thesis
    using assms manager_get_or_create_ok(2) [OF assms(1), of i]
    by (auto simp: manager_remove_def manager_create_def manager_get_def rm split: result.splits)
qed

theorem tenants_are_isolated_witness:
  "manager_get (fst (manager_remove 1 (manager_new 8 None))) 2 = manager_get (manager_new 8 None) 2"
  using tenants_are_isolated [OF manager_ok_new, of 2 1 8 None] by simp

text \<open>
  A collection over all tenants is a collection in each: afterwards every tenant is the one its own
  collection leaves, so every page read at or above the horizon is unchanged in every tenant, and the
  statistics name each timeline of each tenant once.
\<close>

theorem gc_all_preserves_reads:
  assumes "manager_ok m" "manager_get m i = Some ten" "redo_backend (tenant_redo ten)" "horizon \<le> lsn"
  shows "(\<exists>ten'. manager_get (fst (gc_all horizon m)) i = Some ten' \<and>
      tenant_get_page ten' tlid k lsn = tenant_get_page ten tlid k lsn \<and> tenant_ok ten') \<and>
    map (\<lambda>(i, tlid, _). (i, tlid)) (snd (gc_all horizon m)) =
      concat (map (\<lambda>(i, ten). map (Pair i) (timeline_ids ten)) (tm_tenants m))"
proof (rule conjI)
  have "manager_get (fst (gc_all horizon m)) i = Some (fst (gc horizon ten))"
    using assms(2) by (simp add: gc_all_def manager_get_def map_of_map_value)
  then show "\<exists>ten'. manager_get (fst (gc_all horizon m)) i = Some ten' \<and>
      tenant_get_page ten' tlid k lsn = tenant_get_page ten tlid k lsn \<and> tenant_ok ten'"
    using gc_tenant_reads [OF assms(3) manager_get_ok [OF assms(1,2)] assms(4)] by blast
  have ids: "map fst (snd (gc horizon t)) = timeline_ids t" for t
    by (simp add: gc_def timeline_ids_def timeline_compact_def Let_def case_prod_beta comp_def)
  have step: "map (\<lambda>(i, tlid, _). (i, tlid)) (case e of (i, t) \<Rightarrow> map (\<lambda>(tlid, st). (i, tlid, st)) (snd (gc horizon t))) =
      (case e of (i, t) \<Rightarrow> map (Pair i) (timeline_ids t))" for e
    unfolding ids [symmetric] by (simp add: comp_def case_prod_beta)
  show "map (\<lambda>(i, tlid, _). (i, tlid)) (snd (gc_all horizon m)) =
      concat (map (\<lambda>(i, ten). map (Pair i) (timeline_ids ten)) (tm_tenants m))"
    unfolding gc_all_def snd_conv map_concat map_map comp_def step ..
qed

theorem gc_all_preserves_reads_witness:
  "\<exists>ten'. manager_get (fst (gc_all 100 (manager_single sample_tenant))) ZERO = Some ten' \<and>
     tenant_get_page ten' 2 (PageKey sample_rel 0) 120 = tenant_get_page sample_tenant 2 (PageKey sample_rel 0) 120"
proof -
  have "manager_ok (manager_single sample_tenant)" "manager_get (manager_single sample_tenant) ZERO = Some sample_tenant"
    using sample_timelines_ok(1)
    by (simp_all add: manager_ok_def manager_single_def manager_get_def tenant_ids_def sample_tenant_def tenant_ok_def)
  then show ?thesis
    using gc_all_preserves_reads [of "manager_single sample_tenant" ZERO sample_tenant 100 120]
      rust_redo.redo_backend_axioms by (force simp: sample_tenant_def)
qed

end
