(* ===== verification/Page_Server.thy ===== *)
theory Page_Server
  imports Page_Service Tenant_Manager
begin

text \<open>
  The page server's two stream endpoints (\<open>pageserver/src/server.rs\<close>).  A connection is the bytes the
  client sends before it closes its side; a handler returns the bytes written back and how it ended.  An
  end of the stream before a whole header (eight bytes of a page request, four of an ingest record) ends the
  connection, one in the middle of a body is an error.  The accept
  loops, which start a handler per connection, are not modelled.
\<close>

section \<open>Reading from a connection\<close>

datatype ServeError =
    ConnEof string
  | ConnParse string Error
  | ConnDecode string PageError
  | BodyOutOfRange nat

definition PAGE_REQ_HEADER :: nat where "PAGE_REQ_HEADER = 8"
definition MAX_INGEST_BODY :: nat where "MAX_INGEST_BODY = 2 ^ 20"

definition conn_read :: "string \<Rightarrow> nat \<Rightarrow> bytes \<Rightarrow> (ServeError, bytes \<times> bytes) result" where
  "conn_read ctx n s = (if length s < n then Err (ConnEof ctx) else Ok (take n s, drop n s))"

section \<open>The page service\<close>

fun request_target :: "Request \<Rightarrow> TenantId \<times> TimelineId" where
  "request_target (GetPage ten tln rl blk lsn) = (ten, tln)"
| "request_target (GetRelSize ten tln rl lsn) = (ten, tln)"

fun answer_on :: "Tenant \<Rightarrow> Request \<Rightarrow> (ServeError, Response) result" where
  "answer_on ten (GetPage _ tln rl blk lsn) =
     (case tenant_get_page ten tln (PageKey rl blk) lsn of
        Ok (PageLookup.Page page) \<Rightarrow> Ok (Response.Page page)
      | Ok PageLookup.NotFound \<Rightarrow> Ok Response.NotFound
      | Err e \<Rightarrow> Ok (Response.Error (''reconstruction failed: '' @ page_error_display e))
      | Panic \<Rightarrow> Panic)"
| "answer_on ten (GetRelSize _ tln rl lsn) =
     (case tenant_get_rel_size ten tln rl lsn of
        Some n \<Rightarrow> Ok (RelSize n)
      | None \<Rightarrow> Ok Response.NotFound)"

definition answer_request :: "TenantManager \<Rightarrow> Request \<Rightarrow> (ServeError, Response) result" where
  "answer_request m req =
     (let (tenant_id, timeline_id) = request_target req in
      case manager_get m tenant_id of
        Some ten \<Rightarrow>
          if get_timeline ten timeline_id = None
          then Ok (Response.Error (''unknown tenant/timeline '' @ id_display tenant_id @ ''/'' @ id_display timeline_id))
          else answer_on ten req
      | None \<Rightarrow> Ok (Response.Error (''unknown tenant/timeline '' @ id_display tenant_id @ ''/'' @ id_display timeline_id)))"

definition read_page_request :: "bytes \<Rightarrow> (ServeError, Request \<times> bytes) result" where
  "read_page_request s =
     rbind (conn_read ''reading page request header'' PAGE_REQ_HEADER s) (\<lambda>(header, s1).
     rbind (map_err (ConnParse ''parsing page request header'') (total_len header)) (\<lambda>total.
     if total < PAGE_REQ_HEADER then Panic
     else rbind (conn_read ''reading page request body'' (total - PAGE_REQ_HEADER) s1) (\<lambda>(body, s2).
     rbind (map_err (ConnParse ''decoding page request'') (request_decode (header @ body))) (\<lambda>req.
     Ok (req, s2)))))"

lemma conn_read_Ok: "conn_read ctx n s = Ok (a, b) \<longleftrightarrow> n \<le> length s \<and> a = take n s \<and> b = drop n s"
  by (auto simp: conn_read_def)

lemma map_err_eq_Ok: "map_err f r = Ok x \<longleftrightarrow> r = Ok x"
  by (cases r) auto

lemma map_err_eq_Panic: "map_err f r = Panic \<longleftrightarrow> r = Panic"
  by (cases r) auto

lemma read_page_request_shorter: "read_page_request s = Ok (req, s') \<Longrightarrow> length s' < length s"
  by (auto simp: read_page_request_def rbind_eq_Ok conn_read_Ok PAGE_REQ_HEADER_def split: if_splits)

function handle_page_conn :: "TenantManager \<Rightarrow> bytes \<Rightarrow> bytes \<times> (ServeError, unit) result" where
  "handle_page_conn m s =
     (if length s < PAGE_REQ_HEADER then ([], Ok ())
      else
        case read_page_request s of
          Ok (req, s1) \<Rightarrow>
            (case answer_request m req of
               Ok resp \<Rightarrow> (let (out, r) = handle_page_conn m s1 in (response_encode resp @ out, r))
             | Err e \<Rightarrow> ([], Err e)
             | Panic \<Rightarrow> ([], Panic))
        | Err e \<Rightarrow> ([], Err e)
        | Panic \<Rightarrow> ([], Panic))"
  by auto
termination by (relation "measure (\<lambda>(m, s). length s)") (auto dest: read_page_request_shorter)

declare handle_page_conn.simps [simp del]

section \<open>The ingest endpoint\<close>

definition read_ingest_body :: "bytes \<Rightarrow> (ServeError, Modification \<times> bytes) result" where
  "read_ingest_body s =
     rbind (conn_read ''reading ingest length'' 4 s) (\<lambda>(len_buf, s1).
     let n = unat (u32_of_be len_buf) in
     if n = 0 \<or> MAX_INGEST_BODY < n then Err (BodyOutOfRange n)
     else rbind (conn_read ''reading ingest body'' n s1) (\<lambda>(body, s2).
     rbind (map_err (ConnDecode ''decoding modification'') (modification_decode body)) (\<lambda>m.
     Ok (m, s2))))"

lemma read_ingest_body_shorter: "read_ingest_body s = Ok (m, s') \<Longrightarrow> length s' < length s"
  by (auto simp: read_ingest_body_def rbind_eq_Ok conn_read_Ok Let_def split: if_splits)

function handle_ingest_conn :: "bytes \<Rightarrow> Timeline \<Rightarrow> Timeline \<times> bytes \<times> (ServeError, unit) result" where
  "handle_ingest_conn s t =
     (if length s < 4 then (t, [], Ok ())
      else
        case read_ingest_body s of
          Ok (m, s1) \<Rightarrow> (let (t', out, r) = handle_ingest_conn s1 (timeline_ingest [m] t) in (t', 0 # out, r))
        | Err e \<Rightarrow> (t, [], Err e)
        | Panic \<Rightarrow> (t, [], Panic))"
  by auto
termination by (relation "measure (\<lambda>(s, t). length s)") (auto dest: read_ingest_body_shorter)

declare handle_ingest_conn.simps [simp del]

section \<open>Page requests\<close>

lemma read_page_request_encode: "read_page_request (request_encode r @ rest) = Ok (r, rest)"
proof -
  have len: "HEADER_LEN \<le> length (request_encode r)" by (cases r) (simp_all add: ps_lens)
  have "total_len (take HEADER_LEN (request_encode r)) = Ok (length (request_encode r))"
    by (rule request_codec.total_enc) simp
  moreover have "request_decode (request_encode r) = Ok r"
    using request_codec.dec_enc [of r] by simp
  ultimately show ?thesis
    using len by (simp add: read_page_request_def conn_read_def PAGE_REQ_HEADER_def ps_lens)
qed

lemma handle_page_conn_step:
  "handle_page_conn m (request_encode r @ rest) =
     (case answer_request m r of
        Ok resp \<Rightarrow> (let (out, x) = handle_page_conn m rest in (response_encode resp @ out, x))
      | Err e \<Rightarrow> ([], Err e) | Panic \<Rightarrow> ([], Panic))"
proof -
  have "\<not> length (request_encode r @ rest) < PAGE_REQ_HEADER" by (cases r) (simp_all add: PAGE_REQ_HEADER_def)
  then show ?thesis by (subst handle_page_conn.simps) (simp add: read_page_request_encode)
qed

lemma total_len_min: "total_len h = Ok n \<Longrightarrow> 8 \<le> n"
  by (auto simp: total_len_def rbind_eq_Ok ps_lens split: if_splits)

lemma read_page_request_no_panic: "read_page_request s \<noteq> Panic"
  using total_len_min
  by (fastforce simp: read_page_request_def rbind_eq_Panic conn_read_def map_err_eq_Ok map_err_eq_Panic total_len_total
      request_decode_total PAGE_REQ_HEADER_def split: if_splits)

context redo_backend
begin

lemma lookup_with_base_no_panic: "get_page_with_base reconstruct r k lsn base \<noteq> Panic"
  using no_panic [of k lsn "sort_key fst (gather r k lsn base)"]
  by (auto simp: get_page_with_base_def page_lookup_def split: result.splits option.splits RedoError.splits)

lemma tl_get_page_no_panic:
  "timelines_ok ts \<Longrightarrow> i \<in> tl_id ` set ts \<Longrightarrow> tl_get_page reconstruct ts i k lsn \<noteq> Panic"
proof (induction ts arbitrary: i lsn)
  case (Cons t ts)
  show ?case
  proof (cases "tl_id t = i")
    case True
    then show ?thesis
      using Cons lookup_with_base_no_panic
      by (auto simp: get_page_def rbind_eq_Panic split: option.splits PageLookup.splits)
  qed (use Cons in auto)
qed simp

end

definition backends_ok :: "TenantManager \<Rightarrow> bool" where
  "backends_ok m \<longleftrightarrow> (\<forall>(i, ten) \<in> set (tm_tenants m). redo_backend (tenant_redo ten))"

lemma answer_request_total:
  assumes "manager_ok m" "backends_ok m"
  shows "\<exists>resp. answer_request m r = Ok resp"
proof -
  obtain ti tl where target: "request_target r = (ti, tl)" by (cases "request_target r")
  show ?thesis
  proof (cases "manager_get m ti")
    case (Some ten)
    have ok: "tenant_ok ten" using manager_get_ok [OF assms(1) Some] .
    have redo: "redo_backend (tenant_redo ten)"
      using assms(2) Some by (auto simp: backends_ok_def manager_get_def dest!: map_of_SomeD)
    have "tenant_get_page ten tl k lsn \<noteq> Panic" if "get_timeline ten tl \<noteq> None" for k lsn
      using redo_backend.tl_get_page_no_panic [OF redo] ok that
      by (auto simp: tenant_get_page_def tenant_ok_def dest!: get_timeline_Some)
    then show ?thesis
      using target Some
      by (cases r) (fastforce simp: answer_request_def split: result.splits PageLookup.splits option.splits)+
  qed (use target in \<open>simp add: answer_request_def\<close>)
qed

lemma handle_page_conn_no_panic:
  assumes "manager_ok m" "backends_ok m"
  shows "snd (handle_page_conn m s) \<noteq> Panic"
  using assms
proof (induction m s rule: handle_page_conn.induct)
  case (1 m s)
  obtain resp where resp: "answer_request m r = Ok (resp r)" for r
    using answer_request_total [OF 1(2,3)] by metis
  show ?case
  proof (cases "length s < PAGE_REQ_HEADER")
    case False
    show ?thesis
    proof (cases "read_page_request s")
      case (Ok q)
      obtain req s1 where q: "q = (req, s1)" by (cases q)
      then have "snd (handle_page_conn m s1) \<noteq> Panic"
        using 1(1) [OF False Ok q [symmetric] resp] 1(2,3) by blast
      with False Ok q resp show ?thesis by (subst handle_page_conn.simps) (simp add: case_prod_beta)
    qed (use False read_page_request_no_panic [of s] in \<open>simp_all add: handle_page_conn.simps\<close>)
  qed (simp add: handle_page_conn.simps)
qed

lemma handle_page_conn_answers:
  assumes "manager_ok m" "backends_ok m"
  shows "\<exists>resps. map (answer_request m) reqs = map Ok resps \<and>
    handle_page_conn m (concat (map request_encode reqs)) = (concat (map response_encode resps), Ok ())"
proof (induction reqs)
  case Nil
  show ?case by (simp add: handle_page_conn.simps PAGE_REQ_HEADER_def)
next
  case (Cons r reqs)
  then obtain resps where "map (answer_request m) reqs = map Ok resps"
      "handle_page_conn m (concat (map request_encode reqs)) = (concat (map response_encode resps), Ok ())"
    by blast
  moreover obtain resp where "answer_request m r = Ok resp" using answer_request_total [OF assms] by blast
  ultimately show ?case
    by (intro exI [of _ "resp # resps"]) (simp add: handle_page_conn_step)
qed

subsection \<open>What the page service promises\<close>

text \<open>
  The contract of one answer, in terms of the tenant and the timeline the request names: an error that names
  them when either is unknown, otherwise what that timeline reads, which is the page of its linear history
  for the native backend and wherever the conditions of that reading hold.  A page request at the invalid LSN is left out: the protocol
  documents it as a request for the latest version, which the server does not implement.
\<close>

definition unknown_target :: "TenantId \<Rightarrow> TimelineId \<Rightarrow> Response" where
  "unknown_target ti i = Response.Error (''unknown tenant/timeline '' @ id_display ti @ ''/'' @ id_display i)"

definition page_response :: "(PageError, PageLookup) result \<Rightarrow> Response \<Rightarrow> bool" where
  "page_response r resp \<longleftrightarrow>
     (case r of
        Ok (PageLookup.Page page) \<Rightarrow> resp = Response.Page page
      | Ok PageLookup.NotFound \<Rightarrow> resp = Response.NotFound
      | Err e \<Rightarrow> resp = Response.Error (''reconstruction failed: '' @ page_error_display e)
      | Panic \<Rightarrow> False)"

definition on_target :: "TenantManager \<Rightarrow> TenantId \<Rightarrow> TimelineId \<Rightarrow> Response \<Rightarrow> (Tenant \<Rightarrow> timelines \<Rightarrow> bool) \<Rightarrow> bool" where
  "on_target m ti i resp P \<longleftrightarrow>
     (case manager_get m ti of
        None \<Rightarrow> resp = unknown_target ti i
      | Some ten \<Rightarrow>
          if i \<in> tl_id ` set (tenant_timelines ten) then P ten (tenant_timelines ten) else resp = unknown_target ti i)"

fun page_contract :: "TenantManager \<Rightarrow> Request \<Rightarrow> Response \<Rightarrow> bool" where
  "page_contract m (GetPage ti i rl blk lsn) resp \<longleftrightarrow> lsn = INVALID \<or>
     on_target m ti i resp (\<lambda>ten ts.
       page_response (tl_get_page (tenant_redo ten) ts i (PageKey rl blk) lsn) resp \<and>
       (tenant_redo ten = rust_reconstruct \<and> (\<forall>t \<in> set ts. writes_after_branch t) \<and> points_nested ts \<and> since_branch ts i lsn \<longrightarrow>
         page_response (page_lookup (tenant_redo ten (PageKey rl blk) lsn (linear_history ts i (PageKey rl blk) lsn))) resp))"
| "page_contract m (GetRelSize ti i rl lsn) resp \<longleftrightarrow>
     on_target m ti i resp (\<lambda>ten ts.
       resp = (case tl_get_rel_size ts i rl lsn of Some n \<Rightarrow> RelSize n | None \<Rightarrow> Response.NotFound))"

lemma answer_request_contract:
  assumes "manager_ok m" "backends_ok m" "answer_request m r = Ok resp"
  shows "page_contract m r resp"
proof -
  have known: "get_timeline ten i = None \<longleftrightarrow> i \<notin> tl_id ` set (tenant_timelines ten)" for ten i
    by (simp add: get_timeline_None timeline_ids_def)
  have linear: "tl_get_page (tenant_redo ten) (tenant_timelines ten) i k lsn =
      page_lookup (tenant_redo ten k lsn (linear_history (tenant_timelines ten) i k lsn))"
    if "manager_get m ti = Some ten" "i \<in> tl_id ` set (tenant_timelines ten)" "tenant_redo ten = rust_reconstruct"
      "\<forall>t \<in> set (tenant_timelines ten). writes_after_branch t" "points_nested (tenant_timelines ten)"
      "since_branch (tenant_timelines ten) i lsn" for ti ten i k lsn
    using manager_get_ok [OF assms(1) that(1)] that rust_redo.read_is_linear by (simp add: tenant_ok_def)
  show ?thesis
  proof (cases r)
    case (GetPage ti i rl blk lsn)
    show ?thesis
    proof (cases "\<exists>ten. manager_get m ti = Some ten \<and> i \<in> tl_id ` set (tenant_timelines ten)")
      case True
      then obtain ten where ten: "manager_get m ti = Some ten" "i \<in> tl_id ` set (tenant_timelines ten)" by blast
      then have "page_response (tl_get_page (tenant_redo ten) (tenant_timelines ten) i (PageKey rl blk) lsn) resp"
        using assms(3) GetPage known
        by (auto simp: answer_request_def tenant_get_page_def page_response_def split: result.splits PageLookup.splits)
      then show ?thesis using linear [OF ten, of lsn "PageKey rl blk"] GetPage ten by (auto simp: on_target_def)
    qed (use assms(3) GetPage known in \<open>auto simp: answer_request_def on_target_def unknown_target_def split: option.splits\<close>)
  next
    case (GetRelSize ti i rl lsn)
    then show ?thesis
      using assms(3) known
      by (auto simp: answer_request_def tenant_get_rel_size_def on_target_def unknown_target_def split: option.splits if_splits)
  qed
qed

lemma list_all2_answers:
  assumes "manager_ok m" "backends_ok m" "map (answer_request m) reqs = map Ok resps"
  shows "list_all2 (page_contract m) reqs resps"
  using assms(3)
proof (induction reqs arbitrary: resps)
  case (Cons r reqs)
  then show ?case using answer_request_contract [OF assms(1,2)] by (cases resps) auto
qed simp

section \<open>Ingest records\<close>

text \<open>A record as a client frames it.\<close>

definition ingest_frame :: "Modification \<Rightarrow> bytes" where
  "ingest_frame m = u32_to_be (of_nat (length (modification_encode m))) @ modification_encode m"

definition frame_wf :: "Modification \<Rightarrow> bool" where
  "frame_wf m \<longleftrightarrow> version_wf (mod_version m) \<and> length (modification_encode m) \<le> MAX_INGEST_BODY"

lemma timeline_ingest_append: "timeline_ingest (ms @ ns) t = timeline_ingest ns (timeline_ingest ms t)"
proof -
  have "ingest (ms @ ns) r = ingest ns (ingest ms r)" for r by (induction ms arbitrary: r) auto
  then show ?thesis by (simp add: timeline_ingest_def)
qed

lemma timeline_ingest_Nil [simp]: "timeline_ingest [] t = t"
  by (simp add: timeline_ingest_def)

lemma read_ingest_body_frame:
  assumes "frame_wf m"
  shows "read_ingest_body (ingest_frame m @ rest) = Ok (m, rest)"
proof -
  have len: "0 < length (modification_encode m)" "length (modification_encode m) \<le> 2 ^ 20"
    using assms length_write_key by (auto simp: frame_wf_def MAX_INGEST_BODY_def modification_encode_def)
  then have "length (modification_encode m) mod 4294967296 = length (modification_encode m)" by simp
  moreover have "modification_decode (modification_encode m) = Ok m"
    using modification_codec.dec_enc [of m] assms by (simp add: frame_wf_def)
  ultimately show ?thesis
    using len by (simp add: read_ingest_body_def ingest_frame_def conn_read_def MAX_INGEST_BODY_def unat_of_nat)
qed

lemma handle_ingest_conn_frames:
  "\<forall>m \<in> set ms. frame_wf m \<Longrightarrow>
   handle_ingest_conn (concat (map ingest_frame ms)) t = (timeline_ingest ms t, replicate (length ms) 0, Ok ())"
proof (induction ms arbitrary: t)
  case Nil
  show ?case by (simp add: handle_ingest_conn.simps)
next
  case (Cons m ms)
  have "\<not> length (ingest_frame m @ concat (map ingest_frame ms)) < 4" by (simp add: ingest_frame_def)
  then show ?case
    using Cons read_ingest_body_frame [of m] timeline_ingest_append [of "[m]" ms t]
    by (subst handle_ingest_conn.simps) simp
qed

lemma read_ingest_body_no_panic: "read_ingest_body s \<noteq> Panic"
  by (auto simp: read_ingest_body_def rbind_eq_Panic conn_read_def map_err_eq_Panic modification_decode_no_panic Let_def
      split: if_splits)

lemma handle_ingest_conn_acks:
  "\<exists>ms r. handle_ingest_conn s t = (timeline_ingest ms t, replicate (length ms) 0, r) \<and> r \<noteq> Panic"
proof (induction s t rule: handle_ingest_conn.induct)
  case (1 s t)
  show ?case
  proof (cases "length s < 4")
    case True
    then show ?thesis by (subst handle_ingest_conn.simps) (auto intro: exI [of _ "[]"])
  next
    case False
    show ?thesis
    proof (cases "read_ingest_body s")
      case (Ok ms)
      obtain m s1 where ms: "ms = (m, s1)" by (cases ms)
      obtain ns r where "handle_ingest_conn s1 (timeline_ingest [m] t) =
          (timeline_ingest ns (timeline_ingest [m] t), replicate (length ns) 0, r)" "r \<noteq> Panic"
        using 1 [OF False Ok ms [symmetric]] by blast
      then show ?thesis
        using False Ok ms timeline_ingest_append [of "[m]" ns t]
        by (subst handle_ingest_conn.simps) (auto intro!: exI [of _ "m # ns"])
    next
      case (Err e)
      then show ?thesis using False by (subst handle_ingest_conn.simps) (auto intro: exI [of _ "[]"])
    qed (simp add: read_ingest_body_no_panic)
  qed
qed

section \<open>Main results\<close>

text \<open>
  C11.  A page connection answers each request in turn, from the tenant and the timeline it names.  For a
  sequence of encoded requests the reply stream is a sequence of as many encoded responses: an error naming
  the tenant and the timeline when either is unknown, the page, its absence or the reconstruction error
  that this timeline of this tenant reads (with the native backend the page of its linear history, at or
  after its branch point and where branches are written after their branch points), the relation size it has.  Page requests at LSN 0 are answered, but nothing is
  promised about the answer.  No byte string, however malformed, makes the handler panic.
\<close>

theorem page_connection_answers:
  assumes "manager_ok m" "backends_ok m"
  shows "(\<exists>resps. handle_page_conn m (concat (map request_encode reqs)) = (concat (map response_encode resps), Ok ()) \<and>
      list_all2 (page_contract m) reqs resps) \<and>
    snd (handle_page_conn m s) \<noteq> Panic"
  using handle_page_conn_answers [OF assms] handle_page_conn_no_panic [OF assms] list_all2_answers [OF assms] by blast

lemma sample_manager_ok: "manager_ok (manager_single sample_tenant)" "backends_ok (manager_single sample_tenant)"
  using sample_timelines_ok(1) rust_redo.redo_backend_axioms
  by (simp_all add: manager_ok_def manager_single_def tenant_ids_def tenant_ok_def sample_tenant_def backends_ok_def)

lemma sample_tenant_page:
  "tl_get_page rust_reconstruct sample_timelines 1 (PageKey sample_rel 3) lsn =
     get_page rust_reconstruct (ingest sample_mods (repository_new 2)) (PageKey sample_rel 3) lsn"
  by (simp add: sample_timelines_def branched_def timeline_root_def)

theorem page_connection_answers_witness:
  "handle_page_conn (manager_single sample_tenant) (concat (map request_encode
     [GetPage ZERO 1 sample_rel 3 25, GetRelSize ZERO 9 sample_rel 50, GetPage 1 ZERO sample_rel 3 25])) =
   (response_encode (Response.Page (replicate PAGE_SIZE 1)) @ response_encode (unknown_target ZERO 9)
      @ response_encode (unknown_target 1 ZERO), Ok ())"
proof -
  let ?reqs = "[GetPage ZERO 1 sample_rel 3 25, GetRelSize ZERO 9 sample_rel 50, GetPage 1 ZERO sample_rel 3 25]"
  obtain resps where resps: "handle_page_conn (manager_single sample_tenant) (concat (map request_encode ?reqs)) =
      (concat (map response_encode resps), Ok ())" "list_all2 (page_contract (manager_single sample_tenant)) ?reqs resps"
    using page_connection_answers [OF sample_manager_ok, of ?reqs] by blast
  have ten: "manager_get (manager_single sample_tenant) ZERO = Some sample_tenant" "manager_get (manager_single sample_tenant) 1 = None"
    by (simp_all add: manager_get_def manager_single_def ZERO_def)
  have ids: "tl_id ` set (tenant_timelines sample_tenant) = {1, 2}"
    by (auto simp: sample_tenant_def sample_timelines_def branched_def timeline_root_def)
  have page: "tl_get_page (tenant_redo sample_tenant) (tenant_timelines sample_tenant) 1 (PageKey sample_rel 3) 25 =
      Ok (Page (replicate PAGE_SIZE 1))"
    using sample_tenant_page [of 25] sample_root_reads(1) by (simp add: sample_tenant_def)
  have "resps = [Response.Page (replicate PAGE_SIZE 1), unknown_target ZERO 9, unknown_target 1 ZERO]"
    using resps(2) ten ids page by (auto simp: list_all2_Cons1 on_target_def page_response_def)
  with resps(1) show ?thesis by simp
qed

text \<open>
  C0.  The documented request for the latest version finds nothing.  The page service protocol and the storage
  manager of the compute node ask for the latest version of a page with LSN 0, but the server reads at LSN 0:
  a page that timeline 1 has had since LSN 20, and that a request at LSN 25 returns, is answered as not found.
\<close>

theorem latest_page_request_not_found:
  "handle_page_conn (manager_single sample_tenant) (request_encode (GetPage ZERO 1 sample_rel 3 25)) =
     (response_encode (Response.Page (replicate PAGE_SIZE 1)), Ok ()) \<and>
   handle_page_conn (manager_single sample_tenant) (request_encode (GetPage ZERO 1 sample_rel 3 INVALID)) =
     (response_encode Response.NotFound, Ok ())"
proof -
  have "answer_request (manager_single sample_tenant) (GetPage ZERO 1 sample_rel 3 lsn) =
      answer_on sample_tenant (GetPage ZERO 1 sample_rel 3 lsn)" for lsn
    by (simp add: answer_request_def manager_get_def manager_single_def get_timeline_def sample_tenant_def
        sample_timelines_def branched_def timeline_root_def)
  moreover have "answer_on sample_tenant (GetPage ZERO 1 sample_rel 3 25) = Ok (Response.Page (replicate PAGE_SIZE 1))"
    "answer_on sample_tenant (GetPage ZERO 1 sample_rel 3 INVALID) = Ok Response.NotFound"
    using sample_tenant_page sample_root_reads by (simp_all add: tenant_get_page_def sample_tenant_def)
  moreover have "handle_page_conn m [] = ([], Ok ())" for m by (simp add: handle_page_conn.simps PAGE_REQ_HEADER_def)
  ultimately show ?thesis
    using handle_page_conn_step [of "manager_single sample_tenant" _ "[]"]
    by (simp del: request_encode.simps answer_on.simps)
qed

text \<open>
  C12.  The ingest endpoint acknowledges what it applied.  A stream of framed modifications is ingested in
  order and answered with one zero byte each; on any byte string the bytes written are as many as the
  modifications ingested, and the handler does not panic.
\<close>

theorem ingest_connection_applies:
  "(list_all frame_wf ms \<longrightarrow>
      handle_ingest_conn (concat (map ingest_frame ms)) t = (timeline_ingest ms t, replicate (length ms) 0, Ok ())) \<and>
   (\<exists>ns r. handle_ingest_conn s t = (timeline_ingest ns t, replicate (length ns) 0, r) \<and> r \<noteq> Panic)"
  using handle_ingest_conn_frames [of ms t] handle_ingest_conn_acks [of s t] by (auto simp: list_all_iff)

theorem ingest_connection_applies_witness:
  "handle_ingest_conn (concat (map ingest_frame
      [\<lparr>mod_rel = sample_rel, mod_block = 0, mod_lsn = 40, mod_version = Delta [ByteEdit 1 [9]]\<rparr>]))
      (timeline_root 1 (repository_new 4)) =
    (timeline_ingest [\<lparr>mod_rel = sample_rel, mod_block = 0, mod_lsn = 40, mod_version = Delta [ByteEdit 1 [9]]\<rparr>]
      (timeline_root 1 (repository_new 4)), [0], Ok ())"
proof -
  have "frame_wf \<lparr>mod_rel = sample_rel, mod_block = 0, mod_lsn = 40, mod_version = Delta [ByteEdit 1 [9]]\<rparr>"
    by (simp add: frame_wf_def MAX_INGEST_BODY_def modification_encode_def length_write_key version_wf_def edit_wf_def)
  with ingest_connection_applies [of "[\<lparr>mod_rel = sample_rel, mod_block = 0, mod_lsn = 40,
      mod_version = Delta [ByteEdit 1 [9]]\<rparr>]" "timeline_root 1 (repository_new 4)" "[]"]
  show ?thesis by simp
qed

end
