(* ===== verification/Object_Store.thy ===== *)
theory Object_Store
  imports Common_Types "HOL-Library.List_Lexorder" "HOL-Library.Char_ord"
begin

text \<open>
  Object storage: \<open>pageserver/src/objstore.rs\<close>.  The trait \<open>ObjectStore\<close> is the locale \<open>object_store\<close>;
  the filesystem store is modelled over an explicit tree of files and directories, with the temporary
  file and the rename that make an upload visible at once, and interprets the locale for the keys the
  page server uses.
\<close>

section \<open>Keys and paths\<close>

type_synonym path = "string list"

datatype StoreError = InvalidKey string | StoreIo

fun split_on :: "char \<Rightarrow> string \<Rightarrow> string list" where
  "split_on c [] = [[]]"
| "split_on c (x # xs) =
     (if x = c then [] # split_on c xs
      else case split_on c xs of [] \<Rightarrow> [[x]] | y # ys \<Rightarrow> (x # y) # ys)"

fun join_with :: "char \<Rightarrow> string list \<Rightarrow> string" where
  "join_with c [] = []"
| "join_with c [x] = x"
| "join_with c (x # y # ys) = x @ c # join_with c (y # ys)"

fun contains_dotdot :: "string \<Rightarrow> bool" where
  "contains_dotdot (x # y # s) \<longleftrightarrow> (x = CHR ''.'' \<and> y = CHR ''.'') \<or> contains_dotdot (y # s)"
| "contains_dotdot _ \<longleftrightarrow> False"

definition components :: "string \<Rightarrow> path" where
  "components key = filter (\<lambda>c. c \<noteq> [] \<and> c \<noteq> ''.'') (split_on (CHR ''/'') key)"

definition starts_with :: "string \<Rightarrow> string \<Rightarrow> bool" where
  "starts_with s p \<longleftrightarrow> take (length p) s = p"

definition path_for :: "string \<Rightarrow> (StoreError, path) result" where
  "path_for key =
     (if contains_dotdot key \<or> starts_with key ''/'' then Err (InvalidKey key) else Ok (components key))"

text \<open>
  The extension of a file name is what follows its last dot, unless the name has no dot or begins
  with its only one.
\<close>

fun rsplit_dot :: "string \<Rightarrow> (string \<times> string) option" where
  "rsplit_dot [] = None"
| "rsplit_dot (x # xs) =
     (case rsplit_dot xs of
        Some (a, b) \<Rightarrow> Some (x # a, b)
      | None \<Rightarrow> if x = CHR ''.'' then Some ([], xs) else None)"

definition extension :: "string \<Rightarrow> string option" where
  "extension name = (case rsplit_dot name of Some (x # a, b) \<Rightarrow> Some b | _ \<Rightarrow> None)"

definition file_stem :: "string \<Rightarrow> string" where
  "file_stem name = (case rsplit_dot name of Some (x # a, b) \<Rightarrow> x # a | _ \<Rightarrow> name)"

definition with_extension_tmp :: "path \<Rightarrow> path" where
  "with_extension_tmp p = butlast p @ [file_stem (last p) @ ''.tmp'']"

section \<open>The filesystem store\<close>

record LocalStore =
  files :: "(path \<times> bytes) list"
  dirs :: "path set"

definition local_new :: LocalStore where
  "local_new = \<lparr>files = [], dirs = {[]}\<rparr>"

definition file_set :: "path \<Rightarrow> bytes \<Rightarrow> LocalStore \<Rightarrow> LocalStore" where
  "file_set p b s = s\<lparr>files := (p, b) # filter (\<lambda>e. fst e \<noteq> p) (files s)\<rparr>"

definition file_remove :: "path \<Rightarrow> LocalStore \<Rightarrow> LocalStore" where
  "file_remove p s = s\<lparr>files := filter (\<lambda>e. fst e \<noteq> p) (files s)\<rparr>"

definition is_file :: "LocalStore \<Rightarrow> path \<Rightarrow> bool" where
  "is_file s p \<longleftrightarrow> p \<in> fst ` set (files s)"

definition create_dir_all :: "path \<Rightarrow> LocalStore \<Rightarrow> (StoreError, LocalStore) result" where
  "create_dir_all p s =
     (if list_ex (is_file s) (prefixes p) then Err StoreIo
      else Ok (s\<lparr>dirs := dirs s \<union> set (prefixes p)\<rparr>))"

definition local_put :: "string \<Rightarrow> bytes \<Rightarrow> LocalStore \<Rightarrow> (StoreError, unit) result \<times> LocalStore" where
  "local_put key bs s =
     (case path_for key of
        Ok p \<Rightarrow>
          if p = [] then (Err StoreIo, s)
          else (case create_dir_all (butlast p) s of
            Ok s1 \<Rightarrow>
              let tmp = with_extension_tmp p in
              if tmp \<in> dirs s1 then (Err StoreIo, s1)
              else let s2 = file_set tmp bs s1 in
                if p \<in> dirs s2 then (Err StoreIo, s2)
                else if p = tmp then (Ok (), s2)
                else (Ok (), file_remove tmp (file_set p bs s2))
          | Err e \<Rightarrow> (Err e, s)
          | Panic \<Rightarrow> (Panic, s))
      | Err e \<Rightarrow> (Err e, s)
      | Panic \<Rightarrow> (Panic, s))"

definition local_get :: "string \<Rightarrow> LocalStore \<Rightarrow> (StoreError, bytes) result" where
  "local_get key s = rbind (path_for key) (\<lambda>p. ok_or (map_of (files s) p) StoreIo)"

definition collect_keys :: "string \<Rightarrow> (path \<times> bytes) list \<Rightarrow> string list" where
  "collect_keys prfx fs =
     filter (\<lambda>key. starts_with key prfx)
       (map (\<lambda>(p, _). join_with (CHR ''/'') p) (filter (\<lambda>(p, _). extension (last p) \<noteq> Some ''tmp'') fs))"

definition local_list :: "string \<Rightarrow> LocalStore \<Rightarrow> (StoreError, string list) result" where
  "local_list prfx s = Ok (sort (collect_keys prfx (files s)))"

definition local_delete :: "string \<Rightarrow> LocalStore \<Rightarrow> (StoreError, unit) result \<times> LocalStore" where
  "local_delete key s =
     (case path_for key of
        Ok p \<Rightarrow>
          if is_file s p then (Ok (), file_remove p s)
          else if p \<in> dirs s \<or> list_ex (is_file s) (prefixes p) then (Err StoreIo, s)
          else (Ok (), s)
      | Err e \<Rightarrow> (Err e, s)
      | Panic \<Rightarrow> (Panic, s))"

lemma split_on_none: "c \<notin> set s \<Longrightarrow> split_on c s = [s]"
  by (induction s) auto

lemma split_on_append: "c \<notin> set a \<Longrightarrow> split_on c (a @ c # b) = a # split_on c b"
  by (induction a) auto

section \<open>The trait\<close>

locale object_store =
  fixes put :: "string \<Rightarrow> bytes \<Rightarrow> 's \<Rightarrow> (StoreError, unit) result \<times> 's"
    and get :: "string \<Rightarrow> 's \<Rightarrow> (StoreError, bytes) result"
    and delete :: "string \<Rightarrow> 's \<Rightarrow> (StoreError, unit) result \<times> 's"
    and good_key :: "string \<Rightarrow> bool"
  assumes put_get: "good_key k \<Longrightarrow> put k bs s = (Ok (), s') \<Longrightarrow> get k s' = Ok bs"
    and put_other: "good_key k \<Longrightarrow> good_key j \<Longrightarrow> j \<noteq> k \<Longrightarrow> put k bs s = (r, s') \<Longrightarrow> get j s' = get j s"
    and put_failed: "good_key k \<Longrightarrow> put k bs s = (Err e, s') \<Longrightarrow> get k s' = get k s"
    and delete_get: "good_key k \<Longrightarrow> delete k s = (Ok (), s') \<Longrightarrow> \<exists>e. get k s' = Err e"
    and delete_other: "good_key k \<Longrightarrow> good_key j \<Longrightarrow> j \<noteq> k \<Longrightarrow> delete k s = (r, s') \<Longrightarrow> get j s' = get j s"
begin

lemma put_read:
  "good_key k \<Longrightarrow> good_key j \<Longrightarrow> put k bs s = (Ok (), s') \<Longrightarrow> get j s' = (if j = k then Ok bs else get j s)"
  using put_get put_other by simp

lemma put_total:
  "good_key k \<Longrightarrow> good_key j \<Longrightarrow> fst (put k bs s) \<noteq> Panic \<Longrightarrow>
   get j (snd (put k bs s)) = (if fst (put k bs s) = Ok () \<and> j = k then Ok bs else get j s)"
  using put_get [of k bs s] put_other [of k j bs s] put_failed [of k bs s]
  by (cases "put k bs s"; cases "fst (put k bs s)") auto

end

section \<open>The filesystem store implements the trait\<close>

definition good_path_key :: "string \<Rightarrow> bool" where
  "good_path_key key =
     (case path_for key of
        Ok p \<Rightarrow> p \<noteq> [] \<and> join_with (CHR ''/'') p = key \<and> extension (last p) \<noteq> Some ''tmp''
      | _ \<Rightarrow> False)"

lemma path_for_no_panic [simp]: "path_for key \<noteq> Panic"
  by (simp add: path_for_def)

lemma path_for_components: "path_for key = Ok p \<Longrightarrow> p = components key"
  by (simp add: path_for_def split: if_splits)

lemma good_path_inj: "good_path_key k \<Longrightarrow> good_path_key j \<Longrightarrow> path_for k = path_for j \<Longrightarrow> k = j"
  by (auto simp: good_path_key_def split: result.splits)

lemma good_pathE:
  assumes "good_path_key k"
  obtains p where "path_for k = Ok p" "p \<noteq> []" "extension (last p) \<noteq> Some ''tmp''"
  using assms by (auto simp: good_path_key_def split: result.splits)

lemma rsplit_dot_append: "rsplit_dot (a @ CHR ''.'' # b) = Some (a, b)" if "CHR ''.'' \<notin> set b"
proof -
  have "rsplit_dot b = None" using that by (induction b) auto
  then show ?thesis by (induction a) auto
qed

lemma extension_tmp: "n \<noteq> [] \<Longrightarrow> extension (file_stem n @ ''.tmp'') = Some ''tmp''"
proof -
  assume n: "n \<noteq> []"
  have "file_stem n \<noteq> []"
    unfolding file_stem_def using n by (simp split: option.splits list.splits prod.splits)
  then obtain x a where "file_stem n = x # a" by (cases "file_stem n") auto
  moreover have "rsplit_dot (file_stem n @ CHR ''.'' # ''tmp'') = Some (file_stem n, ''tmp'')"
    by (rule rsplit_dot_append) simp
  ultimately show ?thesis by (simp add: extension_def)
qed

lemma tmp_not_good:
  assumes "path_for k = Ok p" "p \<noteq> []" "extension (last q) \<noteq> Some ''tmp''"
  shows "with_extension_tmp p \<noteq> q"
proof
  assume "with_extension_tmp p = q"
  then have "last q = file_stem (last p) @ ''.tmp''" by (auto simp: with_extension_tmp_def)
  moreover have "last p \<in> set (components k)"
    using assms(1,2) path_for_components by auto
  then have "last p \<noteq> []" by (simp add: components_def)
  ultimately show False using extension_tmp assms(3) by simp
qed

lemma map_of_filter_fst: "map_of (filter (\<lambda>e. fst e \<noteq> p) es) = (map_of es)(p := None)"
  by (induction es) auto

lemma file_ops:
  "map_of (files (file_set p b s)) = (map_of (files s))(p \<mapsto> b)"
  "map_of (files (file_remove p s)) = (map_of (files s))(p := None)"
  by (auto simp: file_set_def file_remove_def map_of_filter_fst)

lemma create_dir_all_files: "create_dir_all p s = Ok s1 \<Longrightarrow> files s1 = files s"
  by (auto simp: create_dir_all_def split: if_splits)

lemma local_put_files:
  assumes "path_for k = Ok p" "p \<noteq> []" "q \<noteq> with_extension_tmp p" "local_put k bs s = (r, s')"
  shows "map_of (files s') q = (if r = Ok () \<and> q = p then Some bs else map_of (files s) q)"
proof (cases "create_dir_all (butlast p) s")
  case (Ok s1)
  note files = create_dir_all_files [OF Ok]
  show ?thesis
    using assms Ok files
    by (auto simp: local_put_def Let_def file_ops split: if_splits)
qed (use assms in \<open>auto simp: local_put_def\<close>)

interpretation local_store: object_store local_put local_get local_delete good_path_key
proof
  fix k j bs s s' r e
  assume k: "good_path_key k"
  then obtain p where p: "path_for k = Ok p" "p \<noteq> []" "extension (last p) \<noteq> Some ''tmp''" by (rule good_pathE)
  then have tmp: "with_extension_tmp p \<noteq> p" using tmp_not_good by blast
  show "local_get k s' = Ok bs" if "local_put k bs s = (Ok (), s')"
    using local_put_files [OF p(1,2) tmp [symmetric] that] p(1) by (simp add: local_get_def)
  show "local_get k s' = local_get k s" if "local_put k bs s = (Err e, s')"
    using local_put_files [OF p(1,2) tmp [symmetric] that] p(1) by (simp add: local_get_def)
  show "\<exists>e. local_get k s' = Err e" if "local_delete k s = (Ok (), s')"
    using that p(1)
    by (auto simp: local_delete_def local_get_def file_ops is_file_def split: if_splits)
       (metis ok_or_simps(1) map_of_eq_None_iff)
  assume j: "good_path_key j" "j \<noteq> k"
  then obtain q where q: "path_for j = Ok q" "extension (last q) \<noteq> Some ''tmp''" by (auto elim: good_pathE)
  have "q \<noteq> p" using good_path_inj [OF j(1) k] j(2) p(1) q(1) by auto
  moreover have "q \<noteq> with_extension_tmp p" using tmp_not_good [OF p(1,2) q(2)] by blast
  ultimately show "local_get j s' = local_get j s" if "local_put k bs s = (r, s')"
    using local_put_files [OF p(1,2) _ that, of q] q(1) by (simp add: local_get_def)
  show "local_get j s' = local_get j s" if "local_delete k s = (r, s')"
    using that \<open>q \<noteq> p\<close> p(1) q(1)
    by (auto simp: local_delete_def local_get_def file_ops split: if_splits)
qed

lemma local_put_no_panic: "fst (local_put k bs s) \<noteq> Panic"
  by (auto simp: local_put_def create_dir_all_def path_for_def Let_def)

section \<open>Main results\<close>

text \<open>
  C35.  The filesystem object store behaves as a map over the keys the page server uses.  An upload that
  succeeds is what the next read of the key returns, one that fails leaves the old object in place, a
  deleted key is gone, and neither operation touches any other key.
\<close>

theorem local_store_is_a_map:
  assumes "good_path_key k" "good_path_key j"
  shows "local_get j (snd (local_put k bs s)) =
      (if fst (local_put k bs s) = Ok () \<and> j = k then Ok bs else local_get j s) \<and>
    (fst (local_delete k s) = Ok () \<longrightarrow>
      (if j = k then \<exists>e. local_get j (snd (local_delete k s)) = Err e
       else local_get j (snd (local_delete k s)) = local_get j s))"
  using local_store.put_total [OF assms local_put_no_panic]
    local_store.delete_get [OF assms(1), of s "snd (local_delete k s)"]
    local_store.delete_other [OF assms, of s "fst (local_delete k s)" "snd (local_delete k s)"]
  by (cases "local_delete k s") auto

theorem local_store_is_a_map_witness:
  "local_get ''catalog/topology.json'' (snd (local_put ''catalog/topology.json'' [1, 2, 3] local_new)) = Ok [1, 2, 3]"
proof -
  have good: "good_path_key ''catalog/topology.json''"
    by (simp add: good_path_key_def path_for_def components_def starts_with_def extension_def)
  moreover have "fst (local_put ''catalog/topology.json'' [1, 2, 3] local_new) = Ok ()"
    by (simp add: local_put_def path_for_def components_def starts_with_def create_dir_all_def
        local_new_def with_extension_tmp_def file_stem_def Let_def is_file_def file_set_def)
  ultimately show ?thesis using local_store_is_a_map [OF good good, of "[1, 2, 3]" local_new] by simp
qed

end
