(* ===== verification/Rust_Text.thy ===== *)
theory Rust_Text
  imports Object_Store
begin

text \<open>
  What the textual interfaces use of the Rust string library beyond \<open>Common_Types\<close>: splitting into words
  and lines, decimal numbers, prefixes, substitution and joining.  The lemmas are the facts a client of
  such an interface relies on: a command printed as words separated by blanks is split back into its words,
  and a printed number is parsed back.
\<close>

section \<open>Words\<close>

definition white_at :: "string \<Rightarrow> string option" where
  "white_at s = find (\<lambda>w. prefix w s) white_space"

lemma white_at_pos: "white_at s = Some w \<Longrightarrow> 0 < length w \<and> length w \<le> length s"
proof -
  assume "white_at s = Some w"
  then obtain i where "i < length white_space" "w = white_space ! i" "prefix w s"
    by (auto simp: white_at_def find_Some_iff)
  then show ?thesis using white_space_ends [of w] nth_mem [of i white_space] by (auto simp: prefix_def)
qed

lemma white_at_shrinks: "white_at s = Some w \<Longrightarrow> length s - length w < length s"
  using white_at_pos [of s w] by linarith

text \<open>\<open>str::split_whitespace\<close>; \<open>cur\<close> is the word being read.\<close>

function split_words :: "string \<Rightarrow> string \<Rightarrow> string list" where
  "split_words cur s =
     (case white_at s of
        Some w \<Rightarrow> (if cur = [] then [] else [cur]) @ split_words [] (drop (length w) s)
      | None \<Rightarrow>
          (case s of
             [] \<Rightarrow> (if cur = [] then [] else [cur])
           | c # cs \<Rightarrow> split_words (cur @ [c]) cs))"
  by auto
termination by (relation "measure (\<lambda>(cur, s). length s)") (auto dest: white_at_shrinks)

declare split_words.simps [simp del]

definition split_whitespace :: "string \<Rightarrow> string list" where
  "split_whitespace s = split_words [] s"

definition nth_word :: "nat \<Rightarrow> string \<Rightarrow> string option" where
  "nth_word n s = (let ws = split_whitespace s in if n < length ws then Some (ws ! n) else None)"

fun join :: "string \<Rightarrow> string list \<Rightarrow> string" where
  "join sep [] = []"
| "join sep [x] = x"
| "join sep (x # y # ys) = x @ sep @ join sep (y # ys)"

section \<open>Decimal numbers\<close>

definition to_digit10 :: "char \<Rightarrow> nat option" where
  "to_digit10 c = (let n = of_char c :: nat in if 48 \<le> n \<and> n \<le> 57 then Some (n - 48) else None)"

fun parse_dec_digits :: "nat \<Rightarrow> nat \<Rightarrow> string \<Rightarrow> (IntErrorKind, nat) result" where
  "parse_dec_digits mx acc [] = Ok acc"
| "parse_dec_digits mx acc (c # cs) =
     (case to_digit10 c of
        None \<Rightarrow> Err InvalidDigit
      | Some d \<Rightarrow> (if acc * 10 + d > mx then Err PosOverflow else parse_dec_digits mx (acc * 10 + d) cs))"

text \<open>\<open>str::parse\<close> of an unsigned type with largest value \<open>mx\<close>.\<close>

definition parse_dec :: "nat \<Rightarrow> string \<Rightarrow> (IntErrorKind, nat) result" where
  "parse_dec mx s =
     (case s of
        [] \<Rightarrow> Err Empty
      | [c] \<Rightarrow> (if c = CHR ''+'' \<or> c = CHR ''-'' then Err InvalidDigit else parse_dec_digits mx 0 [c])
      | c # cs \<Rightarrow> (if c = CHR ''+'' then parse_dec_digits mx 0 cs else parse_dec_digits mx 0 (c # cs)))"

definition parse_u64 :: "string \<Rightarrow> u64 option" where
  "parse_u64 s = (case parse_dec (2 ^ 64 - 1) s of Ok n \<Rightarrow> Some (of_nat n) | _ \<Rightarrow> None)"

section \<open>Prefixes, lines and substitution\<close>

definition strip_prefix :: "string \<Rightarrow> string \<Rightarrow> string option" where
  "strip_prefix p s = (if prefix p s then Some (drop (length p) s) else None)"

definition eq_ignore_ascii_case :: "string \<Rightarrow> string \<Rightarrow> bool" where
  "eq_ignore_ascii_case a b \<longleftrightarrow>
     (let low = map (\<lambda>c. let n = of_char c :: nat in if 65 \<le> n \<and> n \<le> 90 then char_of (n + 32) else c)
      in low a = low b)"

text \<open>\<open>str::split\<close> at a non-empty string, and \<open>str::replace\<close>.\<close>

function split_str :: "string \<Rightarrow> string \<Rightarrow> string \<Rightarrow> string list" where
  "split_str sep cur s =
     (if sep \<noteq> [] \<and> prefix sep s then cur # split_str sep [] (drop (length sep) s)
      else case s of [] \<Rightarrow> [cur] | c # cs \<Rightarrow> split_str sep (cur @ [c]) cs)"
  by auto
termination by (relation "measure (\<lambda>(sep, cur, s). length s)") (auto simp: prefix_def)

declare split_str.simps [simp del]

definition replace_str :: "string \<Rightarrow> string \<Rightarrow> string \<Rightarrow> string" where
  "replace_str pat by_str s = join by_str (split_str pat [] s)"

text \<open>\<open>str::lines\<close>: the pieces between line feeds, a final empty one dropped, each without a final carriage return.\<close>

definition chomp :: "string \<Rightarrow> string" where
  "chomp s = (if s \<noteq> [] \<and> last s = CHR 0x0D then butlast s else s)"

definition lines :: "string \<Rightarrow> string list" where
  "lines s = (let ls = split_on (CHR 0x0A) s in map chomp (if last ls = [] then butlast ls else ls))"

section \<open>Lemmas\<close>

definition graphic :: "string \<Rightarrow> bool" where
  "graphic s \<longleftrightarrow> list_all (\<lambda>c. 32 < (of_char c :: nat) \<and> (of_char c :: nat) < 128) s"

lemma graphic_simps [simp]:
  "graphic []" "graphic (c # s) \<longleftrightarrow> 32 < (of_char c :: nat) \<and> (of_char c :: nat) < 128 \<and> graphic s"
  "graphic (a @ b) \<longleftrightarrow> graphic a \<and> graphic b"
  by (auto simp: graphic_def)

lemma white_at_graphic: "graphic [c] \<Longrightarrow> white_at (c # s) = None"
  using white_space_ends by (fastforce simp: white_at_def find_None_iff prefix_Cons)

lemma white_at_simps: "white_at [] = None" "white_at (CHR '' '' # s) = Some '' ''"
  by (auto simp: white_at_def white_space_def)

lemma split_words_graphic:
  "graphic a \<Longrightarrow> split_words cur (a @ s) = split_words (cur @ a) s"
proof (induction a arbitrary: cur)
  case (Cons c a)
  then show ?case using white_at_graphic [of c "a @ s"] by (subst split_words.simps) simp
qed simp

lemma split_words_space: "split_words cur (CHR '' '' # s) = (if cur = [] then [] else [cur]) @ split_words [] s"
  by (subst split_words.simps) (simp add: white_at_simps)

lemma split_words_Nil: "split_words cur [] = (if cur = [] then [] else [cur])"
  by (subst split_words.simps) (simp add: white_at_simps)

lemma split_whitespace_join:
  "list_all (\<lambda>w. w \<noteq> [] \<and> graphic w) ws \<Longrightarrow> split_whitespace (join '' '' ws) = ws"
  unfolding split_whitespace_def
proof (induction "'' ''" ws rule: join.induct)
  case (2 x)
  then show ?case using split_words_graphic [of x "[]" "[]"] by (simp add: split_words_Nil)
next
  case (3 x y ys)
  then show ?case using split_words_graphic [of x "[]"] by (simp add: split_words_space)
qed (simp add: split_words_Nil)

lemma to_digit10_digit: "d < 10 \<Longrightarrow> to_digit10 (char_of (48 + d)) = Some d"
  by (auto simp: to_digit10_def Let_def)

lemma parse_dec_digits_append:
  "parse_dec_digits mx acc (a @ b) = rbind (parse_dec_digits mx acc a) (\<lambda>n. parse_dec_digits mx n b)"
  by (induction a arbitrary: acc) (auto split: option.splits)

lemma parse_dec_digits_to_dec: "n \<le> mx \<Longrightarrow> parse_dec_digits mx 0 (to_dec n) = Ok n"
proof (induction n rule: less_induct)
  case (less n)
  show ?case
  proof (cases "n < 10")
    case True
    then show ?thesis using less.prems to_digit10_digit [of n] by (simp add: to_dec.simps)
  next
    case False
    then have "parse_dec_digits mx 0 (to_dec (n div 10)) = Ok (n div 10)" using less by auto
    with False less.prems show ?thesis
      using to_digit10_digit [of "n mod 10"] by (simp add: to_dec.simps [of n] parse_dec_digits_append)
  qed
qed

lemma to_dec_graphic: "graphic (to_dec n)"
  by (induction n rule: to_dec.induct) (subst to_dec.simps, auto)

lemma to_dec_not_Nil [simp]: "to_dec n \<noteq> []"
  by (subst to_dec.simps) auto

lemma to_dec_digits: "c \<in> set (to_dec n) \<Longrightarrow> 48 \<le> (of_char c :: nat) \<and> (of_char c :: nat) \<le> 57"
  by (induction n rule: to_dec.induct) (subst (asm) to_dec.simps, auto split: if_splits)

lemma parse_dec_to_dec: "n \<le> mx \<Longrightarrow> parse_dec mx (to_dec n) = Ok n"
proof -
  assume n: "n \<le> mx"
  have "hd (to_dec n) \<noteq> CHR ''+'' \<and> hd (to_dec n) \<noteq> CHR ''-''"
    using to_dec_digits [of "hd (to_dec n)" n] by auto
  with parse_dec_digits_to_dec [OF n] show ?thesis
    by (cases "to_dec n") (auto simp: parse_dec_def split: list.splits)
qed

lemma parse_u64_to_dec: "parse_u64 (to_dec (unat x)) = Some x"
proof -
  have "unat x \<le> 2 ^ 64 - 1" using unat_bounds(4) [of x] by simp
  then show ?thesis by (simp add: parse_u64_def parse_dec_to_dec)
qed

lemma id_display_graphic: "graphic (id_display i)"
proof -
  have "graphic (hex_byte b)" for b :: u8
    using unat_bounds(1) [of b] by (auto simp: hex_byte_def hex_digit_lower_def)
  then have "graphic (concat (map hex_byte bs))" for bs by (induction bs) auto
  then show ?thesis by (simp add: id_display_def)
qed

lemma id_display_not_Nil [simp]: "id_display i \<noteq> []"
proof -
  have "length (id_display i) = 32"
    by (simp add: id_display_def length_concat comp_def hex_byte_def as_bytes_length sum_list_triv)
  then show ?thesis by auto
qed

end
