(* ===== verification/Offload.thy ===== *)
theory Offload
  imports Object_Store Tenant_Manager
begin

text \<open>
  Background offload of frozen layers: \<open>pageserver/src/offload.rs\<close>.  The object store is a parameter,
  the \<open>put\<close> of the trait.  Within one repository the upload marks are truthful: a layer marked as
  uploaded can be fetched and deserialized to itself.  Across the timelines of a tenant they are not,
  because the object key of a layer names neither the tenant nor the timeline.
\<close>

section \<open>Operations\<close>

type_synonym 's store_put = "string \<Rightarrow> bytes \<Rightarrow> 's \<Rightarrow> (StoreError, unit) result \<times> 's"

definition LAYER_PREFIX :: string where "LAYER_PREFIX = ''layers/''"

definition layer_key :: "LayerId \<Rightarrow> string" where
  "layer_key i = LAYER_PREFIX @ concat (map hex_byte (u64_to_be i)) @ ''.layer''"

fun offload_layers :: "'s store_put \<Rightarrow> Layer list \<Rightarrow> Inner \<Rightarrow> 's \<Rightarrow> Inner \<times> 's \<times> nat" where
  "offload_layers put [] r s = (r, s, 0)"
| "offload_layers put (l # ls) r s =
     (case put (layer_key (layer_id l)) (serialize l) s of
        (Ok _, s) \<Rightarrow>
          let (r, s, n) = offload_layers put ls (mark_uploaded (layer_id l) r) s in (r, s, n + 1)
      | (_, s) \<Rightarrow> offload_layers put ls r s)"

definition offload_pending :: "'s store_put \<Rightarrow> Inner \<Rightarrow> 's \<Rightarrow> Inner \<times> 's \<times> nat" where
  "offload_pending put r s = offload_layers put (pending_offload r) r s"

fun offload_timelines :: "'s store_put \<Rightarrow> timelines \<Rightarrow> 's \<Rightarrow> timelines \<times> 's \<times> nat" where
  "offload_timelines put [] s = ([], s, 0)"
| "offload_timelines put (t # ts) s =
     (let (r, s, n) = offload_pending put (repo t) s;
          (ts, s, m) = offload_timelines put ts s
      in (t\<lparr>repo := r\<rparr> # ts, s, n + m))"

definition offload_tenant :: "'s store_put \<Rightarrow> Tenant \<Rightarrow> 's \<Rightarrow> Tenant \<times> 's \<times> nat" where
  "offload_tenant put ten s =
     (let (ts, s, n) = offload_timelines put (tenant_timelines ten) s
      in (ten\<lparr>tenant_timelines := ts\<rparr>, s, n))"

fun offload_tenants :: "'s store_put \<Rightarrow> (TenantId \<times> Tenant) list \<Rightarrow> 's \<Rightarrow> (TenantId \<times> Tenant) list \<times> 's \<times> nat" where
  "offload_tenants put [] s = ([], s, 0)"
| "offload_tenants put ((i, ten) # tens) s =
     (let (ten, s, n) = offload_tenant put ten s;
          (tens, s, m) = offload_tenants put tens s
      in ((i, ten) # tens, s, n + m))"

definition offload_all :: "'s store_put \<Rightarrow> TenantManager \<Rightarrow> 's \<Rightarrow> TenantManager \<times> 's \<times> nat" where
  "offload_all put m s =
     (let (tens, s, n) = offload_tenants put (tm_tenants m) s in (m\<lparr>tm_tenants := tens\<rparr>, s, n))"

section \<open>Layer keys\<close>

lemma hex_byte_inj: "hex_byte a = hex_byte b \<Longrightarrow> a = b"
  using hex_byte_props(3) [of a] hex_byte_props(3) [of b] by (simp add: word_unat_eq_iff)

lemma concat_hex_inj: "length xs = length ys \<Longrightarrow> concat (map hex_byte xs) = concat (map hex_byte ys) \<Longrightarrow> xs = ys"
proof (induction xs ys rule: list_induct2)
  case (Cons x xs y ys)
  then have "hex_byte x = hex_byte y" "concat (map hex_byte xs) = concat (map hex_byte ys)"
    by (simp_all add: hex_byte_props(1))
  then show ?case using Cons hex_byte_inj by simp
qed simp

lemma layer_key_inj: "layer_key i = layer_key j \<longleftrightarrow> i = j"
proof
  assume "layer_key i = layer_key j"
  then have "concat (map hex_byte (u64_to_be i)) = concat (map hex_byte (u64_to_be j))"
    by (simp add: layer_key_def)
  then have "u64_to_be i = u64_to_be j" by (intro concat_hex_inj) (simp_all add: codec)
  then show "i = j" using of_be_to_be(3) by metis
qed simp

lemma contains_dotdot_count: "contains_dotdot s \<Longrightarrow> 2 \<le> length (filter (\<lambda>c. c = CHR ''.'') s)"
  by (induction s rule: contains_dotdot.induct) (auto split: if_splits)

lemma hex_chars:
  assumes "c \<in> set (concat (map hex_byte bs))"
  shows "c \<noteq> CHR ''.''" "c \<noteq> CHR ''/''"
  using assms hex_byte_props(2) [of c] by (auto simp: to_digit16_def)

definition layer_path :: "LayerId \<Rightarrow> path" where
  "layer_path i = [''layers'', concat (map hex_byte (u64_to_be i)) @ ''.layer'']"

lemma layer_path_for: "path_for (layer_key i) = Ok (layer_path i)"
proof -
  define h where "h = concat (map hex_byte (u64_to_be i))"
  have h: "CHR ''.'' \<notin> set h" "CHR ''/'' \<notin> set h" using hex_chars [of _ "u64_to_be i"] unfolding h_def by blast+
  have key: "layer_key i = ''layers'' @ CHR ''/'' # (h @ ''.layer'')"
    by (simp add: layer_key_def LAYER_PREFIX_def h_def)
  have "split_on (CHR ''/'') (layer_key i) = [''layers'', h @ ''.layer'']"
    unfolding key using h by (subst split_on_append) (simp_all add: split_on_none)
  then have comps: "components (layer_key i) = layer_path i"
    by (cases h) (auto simp: components_def layer_path_def h_def)
  have "length (filter (\<lambda>c. c = CHR ''.'') (layer_key i)) = 1"
    using h by (auto simp: key filter_empty_conv)
  then have "\<not> contains_dotdot (layer_key i)" using contains_dotdot_count by force
  moreover have "\<not> starts_with (layer_key i) ''/''" by (simp add: key starts_with_def)
  ultimately show ?thesis using comps by (simp add: path_for_def)
qed

lemma layer_name:
  "rsplit_dot (concat (map hex_byte (u64_to_be i)) @ ''.layer'') = Some (concat (map hex_byte (u64_to_be i)), ''layer'')"
  "concat (map hex_byte (u64_to_be i)) \<noteq> []"
proof -
  show "rsplit_dot (concat (map hex_byte (u64_to_be i)) @ ''.layer'') = Some (concat (map hex_byte (u64_to_be i)), ''layer'')"
    using rsplit_dot_append [of "''layer''"] by simp
  have "length (concat (map hex_byte (u64_to_be i))) = 16"
    unfolding length_concat_hex by (simp add: codec)
  then show "concat (map hex_byte (u64_to_be i)) \<noteq> []"
    by (metis list.size(3) zero_neq_numeral)
qed

lemma layer_key_good: "good_path_key (layer_key i)"
proof -
  have "extension (concat (map hex_byte (u64_to_be i)) @ ''.layer'') = Some ''layer''"
    using layer_name(2) [of i] unfolding extension_def layer_name(1) by (simp split: list.splits)
  moreover have "join_with (CHR ''/'') (layer_path i) = layer_key i"
    by (simp add: layer_path_def layer_key_def LAYER_PREFIX_def)
  ultimately show ?thesis by (simp add: good_path_key_def layer_path_for layer_path_def)
qed

section \<open>Upload marks are truthful\<close>

text \<open>
  The invariant that ties a repository to the store: layer ids are unique and below the next one, only
  existing layers are marked, and a marked layer is stored under its key.
\<close>

definition upload_ok :: "(string \<Rightarrow> 's \<Rightarrow> (StoreError, bytes) result) \<Rightarrow> Inner \<Rightarrow> 's \<Rightarrow> bool" where
  "upload_ok get r s \<longleftrightarrow>
     distinct (map layer_id (layers r)) \<and> (\<forall>l \<in> set (layers r). layer_id l < next_layer_id r) \<and>
     uploaded r \<subseteq> layer_id ` set (layers r) \<and>
     (\<forall>l \<in> set (layers r). layer_id l \<in> uploaded r \<longrightarrow> get (layer_key (layer_id l)) s = Ok (serialize l))"

context object_store
begin

lemma offload_layers_stored:
  assumes "\<And>i. good_key (layer_key i)" "\<And>k bs s. fst (put k bs s) \<noteq> Panic" "distinct (map layer_id ls)"
    "offload_layers put ls r s = (r', s', n)"
  shows "\<exists>U \<subseteq> layer_id ` set ls. r' = r\<lparr>uploaded := uploaded r \<union> U\<rparr> \<and> n = card U \<and>
    (\<forall>l \<in> set ls. layer_id l \<in> U \<longrightarrow> get (layer_key (layer_id l)) s' = Ok (serialize l)) \<and>
    (\<forall>i. i \<notin> layer_id ` set ls \<longrightarrow> get (layer_key i) s' = get (layer_key i) s)"
  using assms(3,4)
proof (induction ls arbitrary: r s r' n)
  case Nil
  then show ?case by (auto intro!: exI [of _ "{}"])
next
  case (Cons l ls)
  obtain res s1 where put: "put (layer_key (layer_id l)) (serialize l) s = (res, s1)" by fastforce
  have "res \<noteq> Panic" using assms(2) [of "layer_key (layer_id l)" "serialize l" s] put by simp
  have other: "get (layer_key i) s1 = get (layer_key i) s" if "i \<noteq> layer_id l" for i
    using put_other [OF assms(1,1) _ put] that layer_key_inj by blast
  have d: "distinct (map layer_id ls)" using Cons.prems(1) by simp
  show ?case
  proof (cases res)
    case (Ok u)
    obtain n' where off: "offload_layers put ls (mark_uploaded (layer_id l) r) s1 = (r', s', n')" and n: "n = n' + 1"
      using Cons.prems(2) put Ok by (auto split: prod.splits)
    from Cons.IH [OF d off] obtain U where U: "U \<subseteq> layer_id ` set ls"
      "r' = (mark_uploaded (layer_id l) r)\<lparr>uploaded := uploaded (mark_uploaded (layer_id l) r) \<union> U\<rparr>" "n' = card U"
      "\<forall>l \<in> set ls. layer_id l \<in> U \<longrightarrow> get (layer_key (layer_id l)) s' = Ok (serialize l)"
      "\<forall>i. i \<notin> layer_id ` set ls \<longrightarrow> get (layer_key i) s' = get (layer_key i) s1" by blast
    have fresh: "layer_id l \<notin> layer_id ` set ls" using Cons.prems(1) by simp
    have "get (layer_key (layer_id l)) s' = Ok (serialize l)"
      using U(5) fresh put_get [OF assms(1), of "layer_id l" "serialize l" s s1] put Ok by simp
    moreover have "layer_id l \<notin> U" "finite U" using fresh U(1) finite_subset by blast+
    ultimately show ?thesis
      using U n fresh other
      by (intro exI [of _ "insert (layer_id l) U"]) (auto simp: mark_uploaded_def rev_image_eqI)
  next
    case (Err e)
    then have off: "offload_layers put ls r s1 = (r', s', n)" using Cons.prems(2) put by simp
    from Cons.IH [OF d off] obtain U where U: "U \<subseteq> layer_id ` set ls" "r' = r\<lparr>uploaded := uploaded r \<union> U\<rparr>"
      "n = card U" "\<forall>l \<in> set ls. layer_id l \<in> U \<longrightarrow> get (layer_key (layer_id l)) s' = Ok (serialize l)"
      "\<forall>i. i \<notin> layer_id ` set ls \<longrightarrow> get (layer_key i) s' = get (layer_key i) s1" by blast
    moreover have "layer_id l \<notin> U" using Cons.prems(1) U(1) by auto
    ultimately show ?thesis using other by (intro exI [of _ U]) auto
  qed (use \<open>res \<noteq> Panic\<close> in simp)
qed

lemma offload_pending_ok:
  assumes "\<And>i. good_key (layer_key i)" "\<And>k bs s. fst (put k bs s) \<noteq> Panic" "upload_ok get r s"
    "offload_pending put r s = (r', s', n)"
  shows "upload_ok get r' s'" "layers r' = layers r" "memtable r' = memtable r" "uploaded r \<subseteq> uploaded r'"
    "n = card (uploaded r' - uploaded r)"
proof -
  have d: "distinct (map layer_id (layers r))" using assms(3) by (simp add: upload_ok_def)
  then have dp: "distinct (map layer_id (pending_offload r))" by (simp add: pending_offload_def distinct_map_filter)
  from offload_layers_stored [OF assms(1,2) dp assms(4) [unfolded offload_pending_def]]
  obtain U where U: "U \<subseteq> layer_id ` set (pending_offload r)" "r' = r\<lparr>uploaded := uploaded r \<union> U\<rparr>" "n = card U"
    "\<forall>l \<in> set (pending_offload r). layer_id l \<in> U \<longrightarrow> get (layer_key (layer_id l)) s' = Ok (serialize l)"
    "\<forall>i. i \<notin> layer_id ` set (pending_offload r) \<longrightarrow> get (layer_key i) s' = get (layer_key i) s" by blast
  have "get (layer_key (layer_id l)) s' = Ok (serialize l)" if l: "l \<in> set (layers r)" "layer_id l \<in> uploaded r \<union> U" for l
  proof (cases "layer_id l \<in> uploaded r")
    case True
    have "layer_id l \<notin> layer_id ` set (pending_offload r)"
      using True d l(1) by (auto simp: pending_offload_def)
    then show ?thesis using U(5) True l(1) assms(3) by (simp add: upload_ok_def)
  next
    case False
    then have "l \<in> set (pending_offload r)" using l(1) by (simp add: pending_offload_def)
    then show ?thesis using U(4) False l(2) by blast
  qed
  then show "upload_ok get r' s'"
    using assms(3) U(1,2) by (auto simp: upload_ok_def pending_offload_def)
  have "U \<inter> uploaded r = {}" using U(1) by (auto simp: pending_offload_def)
  then show "layers r' = layers r" "memtable r' = memtable r" "uploaded r \<subseteq> uploaded r'" "n = card (uploaded r' - uploaded r)"
    using U(2,3) by (auto simp: Un_Diff Diff_triv)
qed

end

lemma word_less_succ: "x < - 1 \<Longrightarrow> x < x + (1 :: u64)"
  by (simp add: word_less_nat_alt unat_word_ariths unsigned_minus_1_eq_mask mask_eq_exp_minus_1)

lemma next_not_uploaded: "upload_ok get r s \<Longrightarrow> next_layer_id r \<notin> uploaded r"
  unfolding upload_ok_def by (metis imageE order_less_irrefl subsetD)

lemma upload_ok_freeze:
  assumes "upload_ok get r s" "next_layer_id r < - 1"
  shows "upload_ok get (freeze_locked r) s"
proof -
  have lt: "next_layer_id r < next_layer_id r + 1"
    using assms(2) by (rule word_less_succ)
  then have "layer_id l < next_layer_id r + 1" if "l \<in> set (layers r)" for l
    using assms(1) that by (meson order.strict_trans upload_ok_def)
  then show ?thesis
    using assms(1) lt next_not_uploaded [OF assms(1)] by (auto simp: upload_ok_def freeze_locked_def)
qed

lemma upload_ok_compact:
  assumes "upload_ok get r s" "next_layer_id r < - 1"
  shows "upload_ok get (fst (compact h r)) s"
proof -
  have "next_layer_id r < next_layer_id r + 1"
    using assms(2) by (rule word_less_succ)
  moreover have "next_layer_id r \<notin> uploaded r" by (rule next_not_uploaded [OF assms(1)])
  ultimately show ?thesis
    using assms(1) by (auto simp: upload_ok_def compact_def Let_def)
qed

section \<open>Main results\<close>


definition one_layer :: "u32 \<Rightarrow> Inner" where
  "one_layer blk = freeze_locked (ingest
     [\<lparr>mod_rel = sample_rel, mod_block = blk, mod_lsn = 10, mod_version = Delta [ByteEdit 0 [1]]\<rparr>] (repository_new 8))"

definition delta_layer :: "u32 \<Rightarrow> Layer" where
  "delta_layer blk = \<lparr>layer_id = 0, entries = [((PageKey sample_rel blk, 10), Delta [ByteEdit 0 [1]])]\<rparr>"

lemma one_layer_fields:
  "layers (one_layer blk) = [delta_layer blk]" "uploaded (one_layer blk) = {}" "next_layer_id (one_layer blk) = 1"
  by (simp_all add: one_layer_def ingest_one_def freeze_locked_def repository_new_def delta_layer_def)

lemma delta_layer_wf: "layer_wf (delta_layer blk)"
  by (simp add: delta_layer_def layer_wf_def version_wf_def edit_wf_def bt_inv_def)


lemma local_put_layer:
  assumes "fst ` set (files s) \<subseteq> {layer_path i}" "dirs s \<subseteq> {[], [''layers'']}"
  shows "\<exists>s'. local_put (layer_key i) bs s = (Ok (), s') \<and> fst ` set (files s') \<subseteq> {layer_path i} \<and>
    dirs s' \<subseteq> {[], [''layers'']}"
proof -
  let ?h = "concat (map hex_byte (u64_to_be i))"
  have stem: "file_stem (?h @ ''.layer'') = ?h"
    using layer_name(2) [of i] unfolding file_stem_def layer_name(1) by (simp split: list.splits)
  have "is_file s [] = False" "is_file s [''layers''] = False"
    using assms(1) by (auto simp: is_file_def layer_path_def)
  then show ?thesis
    using assms
    by (simp add: local_put_def layer_path_for layer_path_def create_dir_all_def with_extension_tmp_def
        stem Let_def file_set_def file_remove_def)
       auto
qed

lemma offload_one_layer:
  assumes "fst ` set (files s) \<subseteq> {layer_path 0}" "dirs s \<subseteq> {[], [''layers'']}"
  shows "\<exists>s'. offload_pending local_put (one_layer blk) s = (mark_uploaded 0 (one_layer blk), s', 1) \<and>
    local_get (layer_key 0) s' = Ok (serialize (delta_layer blk)) \<and>
    fst ` set (files s') \<subseteq> {layer_path 0} \<and> dirs s' \<subseteq> {[], [''layers'']}"
proof -
  have pending: "pending_offload (one_layer blk) = [delta_layer blk]" "layer_id (delta_layer blk) = 0"
    by (simp_all add: pending_offload_def one_layer_fields delta_layer_def)
  obtain s' where put: "local_put (layer_key 0) (serialize (delta_layer blk)) s = (Ok (), s')"
    "fst ` set (files s') \<subseteq> {layer_path 0}" "dirs s' \<subseteq> {[], [''layers'']}"
    using local_put_layer [OF assms] by blast
  then have "local_get (layer_key 0) s' = Ok (serialize (delta_layer blk))"
    using local_store.put_get [OF layer_key_good] by blast
  with put pending show ?thesis by (simp add: offload_pending_def)
qed

definition two_branches :: Tenant where
  "two_branches =
     \<lparr>tenant_timelines = [timeline_root 2 (one_layer 4), timeline_root 1 (one_layer 3)],
      tenant_threshold = 8, tenant_redo = rust_reconstruct\<rparr>"

text \<open>
  C34.  Across timelines the marks are not truthful.  Layer ids start at zero in every repository and the object
  key holds the layer id only, so the layers of two timelines overwrite each other: one pass over a
  tenant with two timelines of one layer each reports two uploads and leaves nothing pending, but the
  store holds a single object and the layer of the first timeline is lost.
\<close>

theorem offload_tenant_overwrites:
  "\<exists>ten' s'. offload_tenant local_put two_branches local_new = (ten', s', 2) \<and>
     map (\<lambda>t. pending_offload (repo t)) (tenant_timelines ten') = [[], []] \<and>
     local_get (layer_key 0) s' = Ok (serialize (delta_layer 3)) \<and>
     serialize (delta_layer 3) \<noteq> serialize (delta_layer 4)"
proof -
  have new: "fst ` set (files local_new) \<subseteq> {layer_path 0}" "dirs local_new \<subseteq> {[], [''layers'']}"
    by (simp_all add: local_new_def)
  obtain s1 where s1: "offload_pending local_put (one_layer 4) local_new = (mark_uploaded 0 (one_layer 4), s1, 1)"
    "fst ` set (files s1) \<subseteq> {layer_path 0}" "dirs s1 \<subseteq> {[], [''layers'']}"
    using offload_one_layer [OF new] by blast
  obtain s2 where s2: "offload_pending local_put (one_layer 3) s1 = (mark_uploaded 0 (one_layer 3), s2, 1)"
    "local_get (layer_key 0) s2 = Ok (serialize (delta_layer 3))"
    using offload_one_layer [OF s1(2,3)] by blast
  have "delta_layer 3 \<noteq> delta_layer 4" by (simp add: delta_layer_def)
  then have "serialize (delta_layer 3) \<noteq> serialize (delta_layer 4)"
    using layer_codec.dec_enc [OF delta_layer_wf] by (metis result.inject(1))
  with s1 s2 show ?thesis
    by (simp add: offload_tenant_def two_branches_def timeline_root_def mark_uploaded_def
        pending_offload_def one_layer_fields delta_layer_def)
qed

end
