(* ===== verification/Catalog.thy ===== *)
theory Catalog
  imports Object_Store Tenant_Manager
begin

text \<open>
  The persisted topology: \<open>pageserver/src/catalog.rs\<close> and the \<open>persist\<close> and \<open>load_persisted\<close> of
  \<open>pageserver/src/tenant_manager.rs\<close>.  The JSON codec is the parameter \<open>to_json\<close>, \<open>from_json\<close>.
  Restoring a snapshot rebuilds every tenant with the same timelines and the same ancestry, in whatever
  order the records come: the loop over the records whose parent is missing always ends, and it ends
  with none left.
\<close>

section \<open>Records\<close>

record TimelineRecord =
  rec_id :: string
  rec_ancestor :: "string option"
  rec_ancestor_lsn :: "u64 option"

record TenantRecord =
  tenant_rec_id :: string
  tenant_rec_timelines :: "TimelineRecord list"

record Catalog =
  cat_version :: u32
  cat_tenants :: "TenantRecord list"

definition CATALOG_KEY :: string where "CATALOG_KEY = ''catalog/topology.json''"

section \<open>Snapshot\<close>

definition timeline_record :: "Timeline \<Rightarrow> TimelineRecord" where
  "timeline_record t =
     \<lparr>rec_id = id_display (tl_id t), rec_ancestor = map_option id_display (ancestor_timeline t),
      rec_ancestor_lsn = ancestor_lsn t\<rparr>"

definition snapshot_timelines :: "Tenant \<Rightarrow> TimelineRecord list" where
  "snapshot_timelines ten =
     concat (map (\<lambda>i. case get_timeline ten i of Some t \<Rightarrow> [timeline_record t] | None \<Rightarrow> []) (timeline_ids ten))"

definition snapshot :: "TenantManager \<Rightarrow> Catalog" where
  "snapshot m =
     \<lparr>cat_version = 1,
      cat_tenants =
        map (\<lambda>t. t\<lparr>tenant_rec_timelines := sort_key rec_id (tenant_rec_timelines t)\<rparr>)
          (sort_key tenant_rec_id
            (map (\<lambda>(i, ten). \<lparr>tenant_rec_id = id_display i, tenant_rec_timelines = snapshot_timelines ten\<rparr>)
              (tm_tenants m)))\<rparr>"

section \<open>Restore\<close>

fun or_unchanged :: "Tenant \<Rightarrow> (TenantError, Tenant) result \<Rightarrow> Tenant" where
  "or_unchanged ten (Ok ten') = ten'"
| "or_unchanged ten _ = ten"

definition restore_record :: "TimelineRecord \<Rightarrow> Tenant \<Rightarrow> (Error, bool \<times> Tenant) result" where
  "restore_record tr ten =
     (case id_from_str ''TimelineId'' (rec_id tr) of
        Panic \<Rightarrow> Panic
      | Err _ \<Rightarrow> Ok (False, ten)
      | Ok i \<Rightarrow>
          if get_timeline ten i \<noteq> None then Ok (False, ten)
          else case rec_ancestor tr of
            None \<Rightarrow> Ok (False, or_unchanged ten (create_timeline i ten))
          | Some parent_hex \<Rightarrow>
              (case id_from_str ''TimelineId'' parent_hex of
                 Panic \<Rightarrow> Panic
               | Err _ \<Rightarrow> Ok (False, ten)
               | Ok parent \<Rightarrow>
                   if get_timeline ten parent \<noteq> None
                   then let lsn = (case rec_ancestor_lsn tr of Some l \<Rightarrow> l | None \<Rightarrow> 0)
                        in Ok (False, or_unchanged ten (branch_timeline i parent lsn ten))
                   else Ok (True, ten)))"

fun restore_pass :: "TimelineRecord list \<Rightarrow> Tenant \<Rightarrow> (Error, TimelineRecord list \<times> Tenant) result" where
  "restore_pass [] ten = Ok ([], ten)"
| "restore_pass (tr # recs) ten =
     rbind (restore_record tr ten) (\<lambda>(keep, ten).
     rbind (restore_pass recs ten) (\<lambda>(rest, ten).
     Ok (if keep then tr # rest else rest, ten)))"

lemma restore_pass_length: "restore_pass recs ten = Ok (rest, ten') \<Longrightarrow> length rest \<le> length recs"
  by (induction recs arbitrary: ten rest ten') (auto simp: rbind_eq_Ok split: prod.splits if_splits, fastforce+)

function restore_loop :: "TimelineRecord list \<Rightarrow> Tenant \<Rightarrow> (Error, TimelineRecord list \<times> Tenant) result" where
  "restore_loop pending ten =
     (case restore_pass pending ten of
        Ok (pending', ten') \<Rightarrow>
          if pending' = [] \<or> length pending' = length pending then Ok (pending', ten')
          else restore_loop pending' ten'
      | Err e \<Rightarrow> Err e
      | Panic \<Rightarrow> Panic)"
  by pat_completeness auto
termination
  by (relation "measure (\<lambda>(pending, _). length pending)") (auto dest: restore_pass_length simp: le_neq_implies_less)

declare restore_loop.simps [simp del]

fun restore_tenants :: "TenantRecord list \<Rightarrow> TenantManager \<Rightarrow> (Error, TenantManager) result" where
  "restore_tenants [] m = Ok m"
| "restore_tenants (trec # recs) m =
     (case id_from_str ''TenantId'' (tenant_rec_id trec) of
        Panic \<Rightarrow> Panic
      | Err _ \<Rightarrow> restore_tenants recs m
      | Ok i \<Rightarrow>
          let (m, ten) = manager_get_or_create i m in
          rbind (restore_loop (tenant_rec_timelines trec) ten) (\<lambda>(_, ten').
          restore_tenants recs (manager_update i (\<lambda>_. ten') m)))"

definition restore :: "TenantManager \<Rightarrow> Catalog \<Rightarrow> (Error, TenantManager) result" where
  "restore m cat = restore_tenants (cat_tenants cat) m"

section \<open>Persistence\<close>

text \<open>
  The store is the \<open>put\<close> and \<open>get\<close> of the trait.  A failed write is logged and dropped; a catalog that
  is missing or cannot be parsed leaves the registry as it is.
\<close>

definition save ::
  "(string \<Rightarrow> bytes \<Rightarrow> 's \<Rightarrow> (StoreError, unit) result \<times> 's) \<Rightarrow> (Catalog \<Rightarrow> bytes) \<Rightarrow> Catalog \<Rightarrow> 's \<Rightarrow>
   (StoreError, unit) result \<times> 's" where
  "save put to_json cat s = put CATALOG_KEY (to_json cat) s"

definition load ::
  "(string \<Rightarrow> 's \<Rightarrow> (StoreError, bytes) result) \<Rightarrow> (bytes \<Rightarrow> Catalog option) \<Rightarrow> 's \<Rightarrow>
   (string, Catalog option) result" where
  "load get from_json s =
     (case get CATALOG_KEY s of
        Ok bs \<Rightarrow> rbind (ok_or (from_json bs) ''json'') (\<lambda>cat. Ok (Some cat))
      | Err _ \<Rightarrow> Ok None
      | Panic \<Rightarrow> Panic)"

definition persist ::
  "(string \<Rightarrow> bytes \<Rightarrow> 's \<Rightarrow> (StoreError, unit) result \<times> 's) \<Rightarrow> (Catalog \<Rightarrow> bytes) \<Rightarrow> TenantManager \<Rightarrow> 's \<Rightarrow> 's" where
  "persist put to_json m s = (if tm_store m then snd (save put to_json (snapshot m) s) else s)"

definition load_persisted ::
  "(string \<Rightarrow> 's \<Rightarrow> (StoreError, bytes) result) \<Rightarrow> (bytes \<Rightarrow> Catalog option) \<Rightarrow> TenantManager \<Rightarrow> 's \<Rightarrow>
   (Error, TenantManager) result" where
  "load_persisted get from_json m s =
     (if tm_store m then
        (case load get from_json s of
           Ok (Some doc) \<Rightarrow> restore m doc
         | Ok None \<Rightarrow> Ok m
         | Err _ \<Rightarrow> Ok m
         | Panic \<Rightarrow> Panic)
      else Ok m)"

section \<open>The topology of a tenant\<close>

definition topology :: "Timeline set \<Rightarrow> (TimelineId \<times> (TimelineId \<times> Lsn) option) set" where
  "topology C = (\<lambda>t. (tl_id t, ancestor t)) ` C"

definition restored :: "Tenant \<Rightarrow> Timeline set \<Rightarrow> bool" where
  "restored ten C \<longleftrightarrow> tenant_ok ten \<and> topology (set (tenant_timelines ten)) = topology C \<and>
     (\<forall>t \<in> set (tenant_timelines ten). repo t = repository_new (tenant_threshold ten))"

lemma topology_ids: "tl_id ` C = fst ` topology C"
  by (auto simp: topology_def image_comp)

lemma restored_get: "restored ten C \<Longrightarrow> get_timeline ten i \<noteq> None \<longleftrightarrow> i \<in> tl_id ` C"
  unfolding restored_def get_timeline_None timeline_ids_def set_map topology_ids by simp

lemma restored_create:
  assumes "restored ten C" "tl_id t \<notin> tl_id ` C" "ancestor t = None"
  shows "restored (or_unchanged ten (create_timeline (tl_id t) ten)) (insert t C)"
proof -
  have none: "get_timeline ten (tl_id t) = None" using restored_get [OF assms(1)] assms(2) by blast
  then have ok: "create_timeline (tl_id t) ten = Ok (ten\<lparr>tenant_timelines :=
      timeline_root (tl_id t) (repository_new (tenant_threshold ten)) # tenant_timelines ten\<rparr>)"
    by (simp add: create_timeline_def)
  have "tenant_ok ten" using assms(1) by (simp add: restored_def)
  from create_timeline_ok(1) [OF this ok] show ?thesis
    using assms(1,3) ok by (auto simp: restored_def topology_def timeline_root_def)
qed

lemma restored_branch:
  assumes "restored ten C" "tl_id t \<notin> tl_id ` C" "ancestor t = Some (p, alsn)" "p \<in> tl_id ` C"
  shows "restored (or_unchanged ten (branch_timeline (tl_id t) p alsn ten)) (insert t C)"
proof -
  have none: "get_timeline ten (tl_id t) = None" using restored_get [OF assms(1)] assms(2) by blast
  obtain u where u: "get_timeline ten p = Some u" using restored_get [OF assms(1)] assms(4) by blast
  then have ok: "branch_timeline (tl_id t) p alsn ten = Ok (ten\<lparr>tenant_timelines :=
      branched (tl_id t) (repository_new (tenant_threshold ten)) p alsn # tenant_timelines ten\<rparr>)"
    using none get_timeline_Some [OF u] by (simp add: branch_timeline_def)
  have "tenant_ok ten" using assms(1) by (simp add: restored_def)
  from branch_timeline_ok(1) [OF this ok] show ?thesis
    using assms(1,3) ok by (auto simp: restored_def topology_def branched_def)
qed

section \<open>One pass\<close>

definition ready :: "Timeline set \<Rightarrow> Timeline \<Rightarrow> bool" where
  "ready C t = (case ancestor t of None \<Rightarrow> True | Some (p, _) \<Rightarrow> p \<in> tl_id ` C)"

lemma restore_record_step:
  assumes "restored ten C" "tl_id t \<notin> tl_id ` C"
  shows "\<exists>ten'. restore_record (timeline_record t) ten = Ok (\<not> ready C t, ten') \<and>
    tenant_threshold ten' = tenant_threshold ten \<and>
    restored ten' (if ready C t then insert t C else C)"
proof -
  have none: "get_timeline ten (tl_id t) = None" using restored_get [OF assms(1)] assms(2) by blast
  have parse: "id_from_str ''TimelineId'' (id_display i) = Ok i" for i using id_parse_display by blast
  have thr: "tenant_threshold (or_unchanged ten (create_timeline i ten)) = tenant_threshold ten"
    "tenant_threshold (or_unchanged ten (branch_timeline i p l ten)) = tenant_threshold ten" for i p l
    by (auto simp: create_timeline_def branch_timeline_def split: option.splits)
  show ?thesis
  proof (cases "ancestor t")
    case None
    then show ?thesis
      using none restored_create [OF assms None]
      by (simp add: restore_record_def timeline_record_def parse ready_def ancestor_timeline_def thr)
  next
    case (Some a)
    obtain p alsn where a: "a = (p, alsn)" by (cases a)
    show ?thesis
    proof (cases "p \<in> tl_id ` C")
      case True
      then have "get_timeline ten p \<noteq> None" using restored_get [OF assms(1)] by blast
      then show ?thesis
        using none True Some a restored_branch [OF assms _ True]
        by (simp add: restore_record_def timeline_record_def parse ready_def ancestor_timeline_def
            ancestor_lsn_def Let_def thr)
    next
      case False
      then have "get_timeline ten p = None" using restored_get [OF assms(1)] by blast
      then show ?thesis
        using none False Some a assms(1)
        by (simp add: restore_record_def timeline_record_def parse ready_def ancestor_timeline_def)
    qed
  qed
qed

lemma restore_pass_step:
  assumes "restored ten C" "distinct (map tl_id ps)" "tl_id ` set ps \<inter> tl_id ` C = {}"
  shows "\<exists>qs ten'. restore_pass (map timeline_record ps) ten = Ok (map timeline_record qs, ten') \<and>
    set qs \<subseteq> set ps \<and> distinct (map tl_id qs) \<and> length qs \<le> length ps \<and>
    restored ten' (C \<union> (set ps - set qs)) \<and> tenant_threshold ten' = tenant_threshold ten \<and>
    ((\<exists>p \<in> set ps. ready C p) \<longrightarrow> length qs < length ps)"
  using assms
proof (induction ps arbitrary: ten C)
  case Nil
  then show ?case by (auto intro!: exI [of _ "[]"])
next
  case (Cons p ps)
  let ?C = "if ready C p then insert p C else C"
  from Cons.prems restore_record_step [of ten C p] obtain ten1 where one:
    "restore_record (timeline_record p) ten = Ok (\<not> ready C p, ten1)"
    "tenant_threshold ten1 = tenant_threshold ten" "restored ten1 ?C" by auto
  have p: "p \<notin> set ps" "tl_id ` set ps \<inter> tl_id ` ?C = {}" "distinct (map tl_id ps)"
    using Cons.prems(2,3) by auto
  from Cons.IH [OF one(3) p(3,2)] obtain qs ten2 where rest:
    "restore_pass (map timeline_record ps) ten1 = Ok (map timeline_record qs, ten2)"
    "set qs \<subseteq> set ps" "distinct (map tl_id qs)" "length qs \<le> length ps"
    "restored ten2 (?C \<union> (set ps - set qs))" "tenant_threshold ten2 = tenant_threshold ten1"
    "(\<exists>p \<in> set ps. ready ?C p) \<longrightarrow> length qs < length ps" by blast
  show ?case
  proof (cases "ready C p")
    case True
    have "insert p C \<union> (set ps - set qs) = C \<union> (set (p # ps) - set qs)" using p(1) rest(2) by auto
    then show ?thesis
      using True one rest by (intro exI [of _ qs] exI [of _ ten2]) (auto simp: insert_absorb)
  next
    case False
    have "C \<union> (set ps - set qs) = C \<union> (set (p # ps) - set (p # qs))" using p(1) by auto
    moreover have "tl_id p \<notin> tl_id ` set qs" using Cons.prems(2) rest(2) by auto
    ultimately show ?thesis
      using False one rest by (intro exI [of _ "p # qs"] exI [of _ ten2]) auto
  qed
qed

lemma ready_exists:
  "timelines_ok ts \<Longrightarrow> P \<subseteq> set ts \<Longrightarrow> P \<noteq> {} \<Longrightarrow> \<exists>t \<in> P. ready (set ts - P) t"
proof (induction ts arbitrary: P)
  case Nil
  then show ?case by simp
next
  case (Cons u ts)
  show ?case
  proof (cases "P \<inter> set ts = {}")
    case True
    then have "P = {u}" "u \<notin> set ts" using Cons.prems by auto
    then show ?thesis
      using Cons.prems(1) by (auto simp: ready_def split: option.splits)
  next
    case False
    then obtain t where t: "t \<in> P" "ready (set ts - P \<inter> set ts) t"
      using Cons.IH [of "P \<inter> set ts"] Cons.prems(1) by auto
    have "tl_id ` (set ts - P \<inter> set ts) \<subseteq> tl_id ` (set (u # ts) - P)" by auto
    with t(2) have "ready (set (u # ts) - P) t" by (auto simp: ready_def split: option.splits)
    then show ?thesis using t(1) by blast
  qed
qed

lemma restore_loop_complete:
  assumes "timelines_ok ts" "set ps \<subseteq> set ts" "distinct (map tl_id ps)" "restored ten (set ts - set ps)"
  shows "\<exists>ten'. restore_loop (map timeline_record ps) ten = Ok ([], ten') \<and> restored ten' (set ts) \<and>
    tenant_threshold ten' = tenant_threshold ten"
  using assms(2-4)
proof (induction "length ps" arbitrary: ps ten rule: less_induct)
  case less
  let ?C = "set ts - set ps"
  have inj: "inj_on tl_id (set ts)" using timelines_ok_distinct [OF assms(1)] by (simp add: distinct_map)
  then have disj: "tl_id ` set ps \<inter> tl_id ` ?C = {}" using less.prems(1) by (auto dest: inj_onD)
  from restore_pass_step [OF less.prems(3,2) disj] obtain qs ten1 where pass:
    "restore_pass (map timeline_record ps) ten = Ok (map timeline_record qs, ten1)" "set qs \<subseteq> set ps"
    "distinct (map tl_id qs)" "restored ten1 (?C \<union> (set ps - set qs))" "tenant_threshold ten1 = tenant_threshold ten"
    "(\<exists>p \<in> set ps. ready ?C p) \<longrightarrow> length qs < length ps" by blast
  have C1: "?C \<union> (set ps - set qs) = set ts - set qs" using less.prems(1) pass(2) by auto
  show ?case
  proof (cases "qs = []")
    case True
    then show ?thesis
      using pass C1 by (auto simp: restore_loop.simps [of "map timeline_record ps"])
  next
    case False
    then have "set ps \<noteq> {}" using pass(2) by auto
    then have lt: "length qs < length ps"
      using ready_exists [OF assms(1) less.prems(1)] pass(6) by blast
    have "restored ten1 (set ts - set qs)" using pass(4) C1 by simp
    from less.hyps [OF lt _ pass(3) this] show ?thesis
      using pass lt False less.prems(1) by (auto simp: restore_loop.simps [of "map timeline_record ps"])
  qed
qed

section \<open>Snapshot and restore\<close>

lemma find_distinct: "distinct (map f xs) \<Longrightarrow> x \<in> set xs \<Longrightarrow> find (\<lambda>y. f y = f x) xs = Some x"
  by (induction xs) force+

lemma snapshot_timelines_map:
  assumes "tenant_ok ten"
  shows "snapshot_timelines ten = map timeline_record (tenant_timelines ten)"
proof -
  have "distinct (map tl_id (tenant_timelines ten))"
    using assms timelines_ok_distinct by (simp add: tenant_ok_def)
  then have "get_timeline ten (tl_id t) = Some t" if "t \<in> set (tenant_timelines ten)" for t
    using that find_distinct by (simp add: get_timeline_def)
  then have "map (\<lambda>i. case get_timeline ten i of Some t \<Rightarrow> [timeline_record t] | None \<Rightarrow> []) (timeline_ids ten) =
      map (\<lambda>t. [timeline_record t]) (tenant_timelines ten)"
    by (simp add: timeline_ids_def)
  then show ?thesis by (simp add: snapshot_timelines_def)
qed

lemma sort_key_map: "sort_key f (map g xs) = map g (sort_key (f \<circ> g) xs)"
proof -
  have "insort_key f (g x) (map g ys) = map g (insort_key (f \<circ> g) x ys)" for x ys
    by (induction ys) simp_all
  then show ?thesis by (induction xs) simp_all
qed

lemma manager_get_entries: "manager_ok m \<Longrightarrow> (i, ten) \<in> set (tm_tenants m) \<longleftrightarrow> manager_get m i = Some ten"
  by (simp add: manager_ok_def manager_get_def tenant_ids_def)

definition tenant_record :: "TenantId \<times> Tenant \<Rightarrow> TenantRecord" where
  "tenant_record e =
     \<lparr>tenant_rec_id = id_display (fst e),
      tenant_rec_timelines = map timeline_record (sort_key (rec_id \<circ> timeline_record) (tenant_timelines (snd e)))\<rparr>"

lemma snapshot_records:
  assumes "manager_ok m"
  shows "cat_tenants (snapshot m) = map tenant_record (sort_key (id_display \<circ> fst) (tm_tenants m))"
proof -
  have "map (\<lambda>t. t\<lparr>tenant_rec_timelines := sort_key rec_id (tenant_rec_timelines t)\<rparr>)
      (map (\<lambda>(i, ten). \<lparr>tenant_rec_id = id_display i, tenant_rec_timelines = snapshot_timelines ten\<rparr>) es) =
      map tenant_record es" if "set es \<subseteq> set (tm_tenants m)" for es
    using that assms
    by (induction es) (auto simp: manager_ok_def tenant_record_def snapshot_timelines_map sort_key_map)
  note this [of "sort_key (id_display \<circ> fst) (tm_tenants m)"]
  moreover have "tenant_rec_id \<circ> (\<lambda>(i, ten). \<lparr>tenant_rec_id = id_display i, tenant_rec_timelines = snapshot_timelines ten\<rparr>) =
      id_display \<circ> fst" by (auto simp: fun_eq_iff)
  ultimately show ?thesis
    unfolding snapshot_def by (simp only: Catalog.simps sort_key_map set_sort subset_refl)
qed

definition same_topology :: "Tenant \<Rightarrow> Tenant \<Rightarrow> bool" where
  "same_topology a b \<longleftrightarrow> topology (set (tenant_timelines a)) = topology (set (tenant_timelines b))"

lemma restore_tenants_complete:
  assumes "distinct (map fst es)" "\<forall>e \<in> set es. tenant_ok (snd e)" "manager_ok m"
    "\<forall>e \<in> set es. manager_get m (fst e) = None"
  shows "\<exists>m'. restore_tenants (map tenant_record es) m = Ok m' \<and> manager_ok m' \<and>
    (\<forall>i. case map_of es i of
       None \<Rightarrow> manager_get m' i = manager_get m i
     | Some ten \<Rightarrow> \<exists>ten'. manager_get m' i = Some ten' \<and> same_topology ten' ten \<and>
         (\<forall>t \<in> set (tenant_timelines ten'). repo t = repository_new (tm_threshold m)))"
  using assms
proof (induction es arbitrary: m)
  case Nil
  then show ?case by simp
next
  case (Cons e es)
  obtain i ten where e: "e = (i, ten)" by (cases e)
  have none: "manager_get m i = None" and ten: "timelines_ok (tenant_timelines ten)"
    using Cons.prems e by (auto simp: tenant_ok_def)
  define m1 where "m1 = fst (manager_get_or_create i m)"
  have goc: "manager_get_or_create i m = (m1, build_tenant m)" using none by (simp add: manager_get_or_create_def m1_def)
  have m1: "manager_ok m1" "manager_get m1 = (manager_get m)(i \<mapsto> build_tenant m)"
    using manager_get_or_create_ok [OF Cons.prems(3), of i] unfolding goc by simp_all
  have thr: "tm_threshold m1 = tm_threshold m" using none goc by (auto simp: manager_get_or_create_def)
  let ?ps = "sort_key (rec_id \<circ> timeline_record) (tenant_timelines ten)"
  have "restored (build_tenant m) {}"
    using build_tenant_ok [of m] by (simp add: restored_def topology_def build_tenant_def tenant_new_def
        tenant_with_redo_def split: option.splits)
  moreover have "distinct (map tl_id ?ps)"
    using timelines_ok_distinct [OF ten] by (simp add: distinct_map)
  ultimately obtain ten' where loop: "restore_loop (map timeline_record ?ps) (build_tenant m) = Ok ([], ten')"
    "restored ten' (set (tenant_timelines ten))" "tenant_threshold ten' = tenant_threshold (build_tenant m)"
    using restore_loop_complete [OF ten, of ?ps "build_tenant m"] by auto
  define m2 where "m2 = manager_update i (\<lambda>_. ten') m1"
  have "manager_get m2 = (manager_get m)(i \<mapsto> ten')"
    using m1(2) by (simp add: m2_def manager_get_update fun_eq_iff)
  moreover have "manager_ok m2"
    unfolding m2_def using loop(2) by (intro manager_update_ok [OF m1(1)]) (simp add: restored_def)
  moreover have "tm_threshold m2 = tm_threshold m" using thr by (simp add: m2_def manager_update_def)
  ultimately have m2: "manager_ok m2" "manager_get m2 = (manager_get m)(i \<mapsto> ten')" "tm_threshold m2 = tm_threshold m"
    by simp_all
  have bt: "tenant_threshold (build_tenant m) = tm_threshold m"
    by (simp add: build_tenant_def tenant_new_def tenant_with_redo_def split: option.splits)
  have "\<forall>e \<in> set es. manager_get m2 (fst e) = None" using Cons.prems(1,4) e m2(2) by auto
  then obtain m' where IH: "restore_tenants (map tenant_record es) m2 = Ok m'" "manager_ok m'"
    "\<forall>i. case map_of es i of
       None \<Rightarrow> manager_get m' i = manager_get m2 i
     | Some ten \<Rightarrow> \<exists>ten'. manager_get m' i = Some ten' \<and> same_topology ten' ten \<and>
         (\<forall>t \<in> set (tenant_timelines ten'). repo t = repository_new (tm_threshold m2))"
    using Cons.IH [OF _ _ m2(1)] Cons.prems(1,2) by auto
  have run: "restore_tenants (map tenant_record (e # es)) m = Ok m'"
    using IH(1) loop(1) goc id_parse_display [of i] by (simp add: e tenant_record_def m2_def)
  have "map_of es i = None" using Cons.prems(1) e by (simp add: map_of_eq_None_iff)
  then have "manager_get m' i = Some ten'" using IH(3) [rule_format, of i] m2(2) by simp
  moreover have "same_topology ten' ten" "\<forall>t \<in> set (tenant_timelines ten'). repo t = repository_new (tm_threshold m)"
    using loop(2,3) bt by (auto simp: restored_def same_topology_def)
  moreover have "case map_of es j of
       None \<Rightarrow> manager_get m' j = manager_get m j
     | Some ten \<Rightarrow> \<exists>ten'. manager_get m' j = Some ten' \<and> same_topology ten' ten \<and>
         (\<forall>t \<in> set (tenant_timelines ten'). repo t = repository_new (tm_threshold m))" if "j \<noteq> i" for j
    using IH(3) [rule_format, of j] m2 that by (auto split: option.splits)
  ultimately have "\<forall>j. case map_of (e # es) j of
       None \<Rightarrow> manager_get m' j = manager_get m j
     | Some ten \<Rightarrow> \<exists>ten'. manager_get m' j = Some ten' \<and> same_topology ten' ten \<and>
         (\<forall>t \<in> set (tenant_timelines ten'). repo t = repository_new (tm_threshold m))"
    by (simp add: e)
  with run IH(2) show ?case by blast
qed

lemma restore_snapshot:
  assumes "manager_ok m" "manager_ok m0" "tm_tenants m0 = []"
  shows "\<exists>m'. restore m0 (snapshot m) = Ok m' \<and> manager_ok m' \<and>
    (\<forall>i. case manager_get m i of
       None \<Rightarrow> manager_get m' i = None
     | Some ten \<Rightarrow> \<exists>ten'. manager_get m' i = Some ten' \<and> same_topology ten' ten \<and>
         (\<forall>t \<in> set (tenant_timelines ten'). repo t = repository_new (tm_threshold m0)))"
proof -
  let ?es = "sort_key (id_display \<circ> fst) (tm_tenants m)"
  have d: "distinct (map fst ?es)" using assms(1) by (simp add: manager_ok_def tenant_ids_def distinct_map)
  have "map_of ?es = map_of (tm_tenants m)"
    using d assms(1) by (subst map_of_inject_set) (simp_all add: manager_ok_def tenant_ids_def)
  then have same: "map_of ?es i = manager_get m i" for i by (simp add: manager_get_def)
  have none: "manager_get m0 i = None" for i using assms(3) by (simp add: manager_get_def)
  have "\<forall>e \<in> set ?es. tenant_ok (snd e)" using assms(1) by (auto simp: manager_ok_def)
  from restore_tenants_complete [OF d this assms(2), unfolded same none] show ?thesis
    by (simp add: restore_def snapshot_records [OF assms(1)])
qed

section \<open>Main results\<close>

text \<open>
  C25.  The catalog survives a restart.  When a registry was persisted and the upload succeeded, a fresh
  registry that loads the catalog has the same tenants, each with the same timelines, the same parents
  and the same branch points, on empty page stores, whatever the order in which parents and branches
  are listed.  The JSON codec is assumed to read back what it wrote.
\<close>

theorem catalog_survives_restart:
  assumes "from_json (to_json (snapshot m)) = Some (snapshot m)"
    and "manager_ok m" "tm_store m" "fst (local_put CATALOG_KEY (to_json (snapshot m)) s) = Ok ()"
  shows "\<exists>m'. load_persisted local_get from_json (manager_with_catalog threshold redo)
        (persist local_put to_json m s) = Ok m' \<and> manager_ok m' \<and>
    (\<forall>i. case manager_get m i of
       None \<Rightarrow> manager_get m' i = None
     | Some ten \<Rightarrow> \<exists>ten'. manager_get m' i = Some ten' \<and>
         (\<lambda>t. (tl_id t, ancestor t)) ` set (tenant_timelines ten') =
           (\<lambda>t. (tl_id t, ancestor t)) ` set (tenant_timelines ten) \<and>
         (\<forall>t \<in> set (tenant_timelines ten'). repo t = repository_new threshold))"
proof -
  have good: "good_path_key CATALOG_KEY"
    by (simp add: CATALOG_KEY_def good_path_key_def path_for_def components_def starts_with_def extension_def)
  let ?s' = "snd (local_put CATALOG_KEY (to_json (snapshot m)) s)"
  have "local_get CATALOG_KEY ?s' = Ok (to_json (snapshot m))"
    using local_store.put_get [OF good, of "to_json (snapshot m)" s ?s'] assms(4) by (metis prod.collapse)
  then have "load local_get from_json ?s' = Ok (Some (snapshot m))"
    using assms(1) by (simp add: load_def)
  moreover have new: "manager_ok (manager_with_catalog threshold redo)" "tm_tenants (manager_with_catalog threshold redo) = []"
    and thr: "tm_store (manager_with_catalog threshold redo)" "tm_threshold (manager_with_catalog threshold redo) = threshold"
    by (simp_all add: manager_with_catalog_def manager_ok_def tenant_ids_def)
  ultimately show ?thesis
    using restore_snapshot [OF assms(2) new, unfolded same_topology_def topology_def thr] thr assms(3)
    by (simp add: load_persisted_def persist_def save_def)
qed

definition sample_manager :: TenantManager where
  "sample_manager = \<lparr>tm_threshold = 2, tm_redo = None, tm_store = True, tm_tenants = [(7, sample_tenant)]\<rparr>"

theorem catalog_survives_restart_witness:
  "\<exists>m'. load_persisted local_get (\<lambda>bs. if bs = [123] then Some (snapshot sample_manager) else None)
      (manager_with_catalog 9 None) (persist local_put (\<lambda>_. [123]) sample_manager local_new) = Ok m' \<and> manager_ok m'"
proof -
  have "manager_ok sample_manager" "tm_store sample_manager"
    using sample_timelines_ok(1) by (simp_all add: sample_manager_def manager_ok_def tenant_ids_def sample_tenant_def tenant_ok_def)
  moreover have "fst (local_put CATALOG_KEY [123] local_new) = Ok ()"
    by (simp add: CATALOG_KEY_def local_put_def path_for_def components_def starts_with_def create_dir_all_def
        local_new_def with_extension_tmp_def file_stem_def Let_def is_file_def file_set_def)
  ultimately show ?thesis
    using catalog_survives_restart [of "\<lambda>bs. if bs = [123] then Some (snapshot sample_manager) else None"
        "\<lambda>_. [123]" sample_manager local_new 9 None] by auto
qed

end
