(* ===== verification/Wal_Decode.thy ===== *)
theory Wal_Decode
  imports Repository
begin

text \<open>
  Decoding of PostgreSQL WAL records: the record layer of \<open>pageserver/src/waldecode.rs\<close> and the
  mapping of a record to page modifications in \<open>pageserver/src/repository.rs\<close>.  The lz4 and zstd
  decompressors are parameters; the pglz decompressor is modelled.  Arithmetic is that of the release
  profile: the hole length of an uncompressed image wraps at 16 bits.  The decoder is total on every
  input, a record written by the builders of the format decodes to itself, pglz expands every well
  formed token stream, and a restored image has exactly one page.
\<close>

unbundle bit_operations_syntax

section \<open>Constants and types\<close>

definition XLOG_BLCKSZ :: nat where "XLOG_BLCKSZ = PAGE_SIZE"
definition SIZE_OF_XLOG_RECORD :: nat where "SIZE_OF_XLOG_RECORD = 24"

definition XLR_MAX_BLOCK_ID :: u8 where "XLR_MAX_BLOCK_ID = 32"
definition XLR_BLOCK_ID_DATA_SHORT :: u8 where "XLR_BLOCK_ID_DATA_SHORT = 255"
definition XLR_BLOCK_ID_DATA_LONG :: u8 where "XLR_BLOCK_ID_DATA_LONG = 254"
definition XLR_BLOCK_ID_ORIGIN :: u8 where "XLR_BLOCK_ID_ORIGIN = 253"
definition XLR_BLOCK_ID_TOPLEVEL_XID :: u8 where "XLR_BLOCK_ID_TOPLEVEL_XID = 252"

definition BKPBLOCK_FORK_MASK :: u8 where "BKPBLOCK_FORK_MASK = 0x0F"
definition BKPBLOCK_HAS_IMAGE :: u8 where "BKPBLOCK_HAS_IMAGE = 0x10"
definition BKPBLOCK_HAS_DATA :: u8 where "BKPBLOCK_HAS_DATA = 0x20"
definition BKPBLOCK_WILL_INIT :: u8 where "BKPBLOCK_WILL_INIT = 0x40"
definition BKPBLOCK_SAME_REL :: u8 where "BKPBLOCK_SAME_REL = 0x80"

definition BKPIMAGE_HAS_HOLE :: u8 where "BKPIMAGE_HAS_HOLE = 0x01"
definition BKPIMAGE_APPLY :: u8 where "BKPIMAGE_APPLY = 0x02"
definition BKPIMAGE_COMPRESS_PGLZ :: u8 where "BKPIMAGE_COMPRESS_PGLZ = 0x04"
definition BKPIMAGE_COMPRESS_LZ4 :: u8 where "BKPIMAGE_COMPRESS_LZ4 = 0x08"
definition BKPIMAGE_COMPRESS_ZSTD :: u8 where "BKPIMAGE_COMPRESS_ZSTD = 0x10"
definition BKPIMAGE_COMPRESSED :: u8 where
  "BKPIMAGE_COMPRESSED = BKPIMAGE_COMPRESS_PGLZ OR BKPIMAGE_COMPRESS_LZ4 OR BKPIMAGE_COMPRESS_ZSTD"

lemmas block_ids = XLR_MAX_BLOCK_ID_def XLR_BLOCK_ID_DATA_SHORT_def XLR_BLOCK_ID_DATA_LONG_def
  XLR_BLOCK_ID_ORIGIN_def XLR_BLOCK_ID_TOPLEVEL_XID_def

lemmas block_flags = BKPBLOCK_FORK_MASK_def BKPBLOCK_HAS_IMAGE_def BKPBLOCK_HAS_DATA_def
  BKPBLOCK_WILL_INIT_def BKPBLOCK_SAME_REL_def

lemmas image_flags = BKPIMAGE_HAS_HOLE_def BKPIMAGE_APPLY_def BKPIMAGE_COMPRESS_PGLZ_def
  BKPIMAGE_COMPRESS_LZ4_def BKPIMAGE_COMPRESS_ZSTD_def BKPIMAGE_COMPRESSED_def

datatype Compression = Uncompressed | Pglz | Lz4 | Zstd

datatype WalDecodeError =
    WalTruncated string
  | BadTotalLen u32 nat
  | ShortTotalLen u32
  | BadBlockId u8
  | SameRelWithoutPrev
  | BadFork u8
  | BadPageMagic u16 u16
  | WalBadImageSize nat nat
  | Decompress Compression
  | BadHole nat nat

record DecodedImage =
  img_bytes :: bytes
  hole_offset :: u16
  hole_length :: u16
  compression :: Compression
  img_apply :: bool

record DecodedBlock =
  blk_rel :: RelTag
  blkno :: u32
  blk_will_init :: bool
  blk_image :: "DecodedImage option"
  blk_data :: bytes

record DecodedWalRecord =
  dec_lsn :: Lsn
  rmid :: u8
  info :: u8
  xid :: u32
  main_data :: bytes
  dec_blocks :: "DecodedBlock list"

section \<open>Full-page images\<close>

text \<open>\<open>copy_back\<close> is the inner loop of a back reference: it reads what it has just written.\<close>

fun copy_back :: "nat \<Rightarrow> nat \<Rightarrow> nat \<Rightarrow> bytes \<Rightarrow> (WalDecodeError, bytes) result" where
  "copy_back 0 off dst_len dst = Ok dst"
| "copy_back (Suc n) off dst_len dst =
     (if length dst \<ge> dst_len then Ok dst
      else rbind (get_u8 dst (length dst - off)) (\<lambda>b. copy_back n off dst_len (dst @ [b])))"

definition pglz_reference :: "bytes \<Rightarrow> nat \<Rightarrow> nat \<Rightarrow> bytes \<Rightarrow> (WalDecodeError, nat \<times> bytes) result" where
  "pglz_reference src dst_len sp dst =
     (if sp + 1 \<ge> length src then Err (Decompress Pglz)
      else
        rbind (get_u8 src sp) (\<lambda>b0. rbind (get_u8 src (sp + 1)) (\<lambda>b1.
        let len = unat (b0 AND 0x0F) + 3;
            off = unat (b0 AND 0xF0) * 16 + unat b1;
            sp = sp + 2
        in rbind
            (if len = 18
             then (if sp \<ge> length src then Err (Decompress Pglz)
                   else rbind (get_u8 src sp) (\<lambda>b. Ok (len + unat b, sp + 1)))
             else Ok (len, sp)) (\<lambda>(len, sp).
            if off = 0 \<or> off > length dst then Err (Decompress Pglz)
            else rbind (copy_back len off dst_len dst) (\<lambda>dst. Ok (sp, dst))))))"

fun pglz_bits :: "bytes \<Rightarrow> nat \<Rightarrow> u8 \<Rightarrow> nat \<Rightarrow> nat \<Rightarrow> bytes \<Rightarrow> (WalDecodeError, nat \<times> bytes) result" where
  "pglz_bits src dst_len ctrl 0 sp dst = Ok (sp, dst)"
| "pglz_bits src dst_len ctrl (Suc k) sp dst =
     (if sp \<ge> length src \<or> length dst \<ge> dst_len then Ok (sp, dst)
      else if drop_bit (7 - k) ctrl AND 1 = 0
      then rbind (get_u8 src sp) (\<lambda>b. pglz_bits src dst_len ctrl k (sp + 1) (dst @ [b]))
      else rbind (pglz_reference src dst_len sp dst) (\<lambda>(sp, dst). pglz_bits src dst_len ctrl k sp dst))"

lemma pglz_reference_sp: "pglz_reference src n sp dst = Ok (sp', dst') \<Longrightarrow> sp \<le> sp'"
  by (auto simp: pglz_reference_def rbind_eq_Ok Let_def split: if_splits)

lemma pglz_bits_sp: "pglz_bits src n ctrl k sp dst = Ok (sp', dst') \<Longrightarrow> sp \<le> sp'"
proof (induction k arbitrary: sp dst)
  case (Suc k)
  then show ?case
    by (auto simp: rbind_eq_Ok split: if_splits dest!: pglz_reference_sp)
       (meson Suc_leD order.trans)+
qed simp

function pglz_loop :: "bytes \<Rightarrow> nat \<Rightarrow> nat \<Rightarrow> bytes \<Rightarrow> (WalDecodeError, bytes) result" where
  "pglz_loop src dst_len sp dst =
     (if sp < length src \<and> length dst < dst_len
      then (case pglz_bits src dst_len (src ! sp) 8 (sp + 1) dst of
              Ok (sp, dst) \<Rightarrow> pglz_loop src dst_len sp dst
            | Err e \<Rightarrow> Err e
            | Panic \<Rightarrow> Panic)
      else Ok dst)"
  by pat_completeness auto
termination
  by (relation "measure (\<lambda>(src, _, sp, _). length src - sp)") (auto dest!: pglz_bits_sp)

declare pglz_loop.simps [simp del]

definition pglz_decompress :: "bytes \<Rightarrow> nat \<Rightarrow> (WalDecodeError, bytes) result" where
  "pglz_decompress src dst_len = pglz_loop src dst_len 0 []"

text \<open>The decompressors of the \<open>lz4_flex\<close> and \<open>zstd\<close> crates, from the input and the expected size.\<close>

record codecs =
  lz4_decompress :: "bytes \<Rightarrow> nat \<Rightarrow> bytes option"
  zstd_decompress :: "bytes \<Rightarrow> nat \<Rightarrow> bytes option"

definition image_body :: "codecs \<Rightarrow> DecodedImage \<Rightarrow> nat \<Rightarrow> (WalDecodeError, bytes) result" where
  "image_body cs img body_len =
     (case compression img of
        Uncompressed \<Rightarrow>
          if length (img_bytes img) \<noteq> body_len then Err (WalBadImageSize (length (img_bytes img)) body_len)
          else Ok (img_bytes img)
      | Pglz \<Rightarrow> pglz_decompress (img_bytes img) body_len
      | Lz4 \<Rightarrow> ok_or (lz4_decompress cs (img_bytes img) body_len) (Decompress Lz4)
      | Zstd \<Rightarrow> ok_or (zstd_decompress cs (img_bytes img) body_len) (Decompress Zstd))"

definition restore_image :: "codecs \<Rightarrow> DecodedImage \<Rightarrow> (WalDecodeError, bytes) result" where
  "restore_image cs img =
     (let hl = unat (hole_length img); ho = unat (hole_offset img) in
      if ho + hl > XLOG_BLCKSZ then Err (BadHole ho hl)
      else let body_len = XLOG_BLCKSZ - hl in
        rbind (image_body cs img body_len) (\<lambda>body.
          if length body \<noteq> body_len then Err (WalBadImageSize (length body) body_len)
          else rbind (get_bytes body 0 ho) (\<lambda>before.
               rbind (get_bytes body ho (length body - ho)) (\<lambda>after.
               if length after \<noteq> XLOG_BLCKSZ - (ho + hl) then Panic
               else Ok (before @ replicate hl 0 @ after)))))"

section \<open>The cursor\<close>

definition cur_take :: "nat \<Rightarrow> string \<Rightarrow> bytes \<Rightarrow> nat \<Rightarrow> (WalDecodeError, bytes \<times> nat) result" where
  "cur_take n what buf pos =
     (if length buf - pos < n then Err (WalTruncated what)
      else rbind (get_bytes buf pos n) (\<lambda>bs. Ok (bs, pos + n)))"

definition cur_u8 :: "string \<Rightarrow> bytes \<Rightarrow> nat \<Rightarrow> (WalDecodeError, u8 \<times> nat) result" where
  "cur_u8 what buf pos = (if pos < length buf then Ok (buf ! pos, pos + 1) else Err (WalTruncated what))"

definition cur_u16 :: "string \<Rightarrow> bytes \<Rightarrow> nat \<Rightarrow> (WalDecodeError, u16 \<times> nat) result" where
  "cur_u16 what buf pos = rbind (cur_take 2 what buf pos) (\<lambda>(s, pos). Ok (u16_of_le s, pos))"

definition cur_u32 :: "string \<Rightarrow> bytes \<Rightarrow> nat \<Rightarrow> (WalDecodeError, u32 \<times> nat) result" where
  "cur_u32 what buf pos = rbind (cur_take 4 what buf pos) (\<lambda>(s, pos). Ok (u32_of_le s, pos))"

definition cur_u64 :: "string \<Rightarrow> bytes \<Rightarrow> nat \<Rightarrow> (WalDecodeError, u64 \<times> nat) result" where
  "cur_u64 what buf pos = rbind (cur_take 8 what buf pos) (\<lambda>(s, pos). Ok (u64_of_le s, pos))"

definition cur_skip :: "nat \<Rightarrow> string \<Rightarrow> bytes \<Rightarrow> nat \<Rightarrow> (WalDecodeError, nat) result" where
  "cur_skip n what buf pos = rbind (cur_take n what buf pos) (\<lambda>(_, pos). Ok pos)"

section \<open>Decoding a record\<close>

record ImageMeta =
  bimg_len :: nat
  meta_hole_offset :: u16
  meta_hole_length :: u16
  meta_compression :: Compression
  meta_apply :: bool

record BlockWork =
  work_rel :: RelTag
  work_blkno :: u32
  work_will_init :: bool
  work_has_data :: bool
  work_data_len :: nat
  image_meta :: "ImageMeta option"

definition compression_from_info :: "u8 \<Rightarrow> Compression" where
  "compression_from_info bimg_info =
     (if bimg_info AND BKPIMAGE_COMPRESS_PGLZ \<noteq> 0 then Pglz
      else if bimg_info AND BKPIMAGE_COMPRESS_LZ4 \<noteq> 0 then Lz4
      else if bimg_info AND BKPIMAGE_COMPRESS_ZSTD \<noteq> 0 then Zstd
      else Uncompressed)"

definition read_image_meta :: "bytes \<Rightarrow> nat \<Rightarrow> (WalDecodeError, ImageMeta \<times> nat) result" where
  "read_image_meta buf pos =
     rbind (cur_u16 ''bimg_len'' buf pos) (\<lambda>(len, pos).
     rbind (cur_u16 ''hole_offset'' buf pos) (\<lambda>(ho, pos).
     rbind (cur_u8 ''bimg_info'' buf pos) (\<lambda>(bimg_info, pos).
     let has_hole = bimg_info AND BKPIMAGE_HAS_HOLE \<noteq> 0 in
     rbind
       (if has_hole \<and> bimg_info AND BKPIMAGE_COMPRESSED \<noteq> 0 then cur_u16 ''hole_length'' buf pos
        else if has_hole then Ok (of_nat XLOG_BLCKSZ - len, pos)
        else Ok (0, pos)) (\<lambda>(hl, pos).
     Ok (\<lparr>bimg_len = unat len, meta_hole_offset = ho, meta_hole_length = hl,
          meta_compression = compression_from_info bimg_info,
          meta_apply = (bimg_info AND BKPIMAGE_APPLY \<noteq> 0)\<rparr>, pos)))))"

type_synonym locator = "u32 \<times> u32 \<times> u32"

definition read_locator :: "bytes \<Rightarrow> nat \<Rightarrow> (WalDecodeError, locator \<times> nat) result" where
  "read_locator buf pos =
     rbind (cur_u32 ''spcOid'' buf pos) (\<lambda>(spc, pos).
     rbind (cur_u32 ''dbOid'' buf pos) (\<lambda>(db, pos).
     rbind (cur_u32 ''relNumber'' buf pos) (\<lambda>(relnode, pos).
     Ok ((spc, db, relnode), pos))))"

definition read_block :: "bytes \<Rightarrow> locator option \<Rightarrow> nat \<Rightarrow> (WalDecodeError, (BlockWork \<times> locator) \<times> nat) result" where
  "read_block buf last_locator pos =
     rbind (cur_u8 ''fork_flags'' buf pos) (\<lambda>(fork_flags, pos).
     rbind (cur_u16 ''block data_len'' buf pos) (\<lambda>(data_len, pos).
     let raw = fork_flags AND BKPBLOCK_FORK_MASK in
     rbind (if fork_flags AND BKPBLOCK_HAS_IMAGE \<noteq> 0
            then rbind (read_image_meta buf pos) (\<lambda>(m, pos). Ok (Some m, pos))
            else Ok (None, pos)) (\<lambda>(meta, pos).
     rbind (if fork_flags AND BKPBLOCK_SAME_REL \<noteq> 0
            then rbind (ok_or last_locator SameRelWithoutPrev) (\<lambda>l. Ok (l, pos))
            else read_locator buf pos) (\<lambda>((spc, db, relnode), pos).
     rbind (cur_u32 ''blkno'' buf pos) (\<lambda>(blk, pos).
     rbind (ok_or (from_raw raw) (BadFork raw)) (\<lambda>fk.
     Ok ((\<lparr>work_rel = RelTag spc db relnode fk, work_blkno = blk,
           work_will_init = (fork_flags AND BKPBLOCK_WILL_INIT \<noteq> 0),
           work_has_data = (fork_flags AND BKPBLOCK_HAS_DATA \<noteq> 0),
           work_data_len = unat data_len, image_meta = meta\<rparr>, (spc, db, relnode)), pos)))))))"

datatype HeaderItem = MainLen nat | Skipped | Block BlockWork locator

definition read_header_item :: "bytes \<Rightarrow> locator option \<Rightarrow> nat \<Rightarrow> (WalDecodeError, HeaderItem \<times> nat) result" where
  "read_header_item buf last_locator pos =
     rbind (cur_u8 ''block_id'' buf pos) (\<lambda>(block_id, pos).
       if block_id = XLR_BLOCK_ID_DATA_SHORT then
         rbind (cur_u8 ''main_data_len'' buf pos) (\<lambda>(n, pos). Ok (MainLen (unat n), pos))
       else if block_id = XLR_BLOCK_ID_DATA_LONG then
         rbind (cur_u32 ''main_data_len'' buf pos) (\<lambda>(n, pos). Ok (MainLen (unat n), pos))
       else if block_id = XLR_BLOCK_ID_ORIGIN then
         rbind (cur_skip 2 ''replication origin'' buf pos) (\<lambda>pos. Ok (Skipped, pos))
       else if block_id = XLR_BLOCK_ID_TOPLEVEL_XID then
         rbind (cur_skip 8 ''toplevel xid'' buf pos) (\<lambda>pos. Ok (Skipped, pos))
       else if block_id \<le> XLR_MAX_BLOCK_ID then
         rbind (read_block buf last_locator pos) (\<lambda>((w, l), pos). Ok (Block w l, pos))
       else Err (BadBlockId block_id))"

lemma cur_pos:
  "cur_take n what buf pos = Ok (s, pos') \<Longrightarrow> pos' = pos + n \<and> pos + n \<le> length buf \<or> n = 0 \<and> pos' = pos"
  "cur_u8 what buf pos = Ok (b, pos') \<Longrightarrow> pos' = pos + 1 \<and> pos < length buf"
  by (auto simp: cur_take_def cur_u8_def get_bytes_def split: if_splits)

lemma cur_pos_le:
  "cur_u16 what buf pos = Ok (v16, pos') \<Longrightarrow> pos \<le> pos'"
  "cur_u32 what buf pos = Ok (v32, pos') \<Longrightarrow> pos \<le> pos'"
  "cur_u64 what buf pos = Ok (v64, pos') \<Longrightarrow> pos \<le> pos'"
  "cur_skip n what buf pos = Ok pos' \<Longrightarrow> pos \<le> pos'"
  by (auto simp: cur_u16_def cur_u32_def cur_u64_def cur_skip_def rbind_eq_Ok dest!: cur_pos(1))

lemma read_image_meta_pos: "read_image_meta buf pos = Ok (m, pos') \<Longrightarrow> pos \<le> pos'"
  by (auto simp: read_image_meta_def rbind_eq_Ok Let_def split: if_splits
      dest!: cur_pos(2) cur_pos_le(1))

lemma read_locator_pos: "read_locator buf pos = Ok (l, pos') \<Longrightarrow> pos \<le> pos'"
  by (auto simp: read_locator_def rbind_eq_Ok dest!: cur_pos_le(2))

lemma read_block_pos: "read_block buf loc pos = Ok (w, pos') \<Longrightarrow> pos \<le> pos'"
  by (auto simp: read_block_def rbind_eq_Ok Let_def split: if_splits
      dest!: cur_pos(2) cur_pos_le(1,2) read_image_meta_pos read_locator_pos)

lemma read_header_item_pos:
  "read_header_item buf loc pos = Ok (it, pos') \<Longrightarrow> pos < pos' \<and> pos < length buf"
  by (auto simp: read_header_item_def rbind_eq_Ok split: if_splits
      dest!: cur_pos(2) cur_pos_le(2,4) read_block_pos)

text \<open>The header loop ends: each item consumes at least its block id.\<close>

function read_headers ::
  "bytes \<Rightarrow> locator option \<Rightarrow> BlockWork list \<Rightarrow> nat \<Rightarrow> (WalDecodeError, (BlockWork list \<times> nat) \<times> nat) result" where
  "read_headers buf last_locator blocks pos =
     (case read_header_item buf last_locator pos of
        Ok (MainLen n, pos') \<Rightarrow> Ok ((blocks, n), pos')
      | Ok (Skipped, pos') \<Rightarrow> read_headers buf last_locator blocks pos'
      | Ok (Block w l, pos') \<Rightarrow> read_headers buf (Some l) (blocks @ [w]) pos'
      | Err e \<Rightarrow> Err e
      | Panic \<Rightarrow> Panic)"
  by pat_completeness auto
termination
  by (relation "measure (\<lambda>(buf, _, _, pos). length buf - pos)") (auto dest!: read_header_item_pos)

declare read_headers.simps [simp del]

fun read_data :: "bytes \<Rightarrow> BlockWork list \<Rightarrow> nat \<Rightarrow> (WalDecodeError, DecodedBlock list \<times> nat) result" where
  "read_data buf [] pos = Ok ([], pos)"
| "read_data buf (w # ws) pos =
     rbind (case image_meta w of
         Some m \<Rightarrow>
           rbind (cur_take (bimg_len m) ''block image'' buf pos) (\<lambda>(bs, pos).
           Ok (Some \<lparr>img_bytes = bs, hole_offset = meta_hole_offset m, hole_length = meta_hole_length m,
                     compression = meta_compression m, img_apply = meta_apply m\<rparr>, pos))
       | None \<Rightarrow> Ok (None, pos)) (\<lambda>(img, pos).
     rbind (if work_has_data w then cur_take (work_data_len w) ''block data'' buf pos
            else Ok ([], pos)) (\<lambda>(bs, pos).
     rbind (read_data buf ws pos) (\<lambda>(bks, pos).
     Ok (\<lparr>blk_rel = work_rel w, blkno = work_blkno w, blk_will_init = work_will_init w,
          blk_image = img, blk_data = bs\<rparr> # bks, pos))))"

definition decode_wal_record :: "Lsn \<Rightarrow> bytes \<Rightarrow> (WalDecodeError, DecodedWalRecord) result" where
  "decode_wal_record lsn r =
     rbind (cur_u32 ''xl_tot_len'' r 0) (\<lambda>(xl_tot_len, pos).
     rbind (cur_u32 ''xl_xid'' r pos) (\<lambda>(xl_xid, pos).
     rbind (cur_u64 ''xl_prev'' r pos) (\<lambda>(_, pos).
     rbind (cur_u8 ''xl_info'' r pos) (\<lambda>(xl_info, pos).
     rbind (cur_u8 ''xl_rmid'' r pos) (\<lambda>(xl_rmid, pos).
     rbind (cur_skip 2 ''xl_padding'' r pos) (\<lambda>pos.
     rbind (cur_u32 ''xl_crc'' r pos) (\<lambda>(_, pos).
       if unat xl_tot_len < SIZE_OF_XLOG_RECORD then Err (ShortTotalLen xl_tot_len)
       else if unat xl_tot_len \<noteq> length r then Err (BadTotalLen xl_tot_len (length r))
       else
         rbind (read_headers r None [] pos) (\<lambda>((works, main_data_len), pos).
         rbind (read_data r works pos) (\<lambda>(bks, pos).
         rbind (cur_take main_data_len ''main data'' r pos) (\<lambda>(md, _).
         Ok \<lparr>dec_lsn = lsn, rmid = xl_rmid, info = xl_info, xid = xl_xid, main_data = md,
             dec_blocks = bks\<rparr>))))))))))"

section \<open>From records to page modifications\<close>

definition block_version :: "codecs \<Rightarrow> bytes \<Rightarrow> DecodedBlock \<Rightarrow> (WalDecodeError, PageVersion) result" where
  "block_version cs raw b =
     (case blk_image b of
        Some img \<Rightarrow>
          (case restore_image cs img of
             Ok page \<Rightarrow> Ok (Image page)
           | Err _ \<Rightarrow> Ok (WalRecord (WalRec (blk_will_init b) raw))
           | Panic \<Rightarrow> Panic)
      | None \<Rightarrow> Ok (WalRecord (WalRec (blk_will_init b) raw)))"

fun block_modifications :: "codecs \<Rightarrow> Lsn \<Rightarrow> bytes \<Rightarrow> DecodedBlock list \<Rightarrow> (WalDecodeError, Modification list) result" where
  "block_modifications cs lsn raw [] = Ok []"
| "block_modifications cs lsn raw (b # bs) =
     rbind (block_version cs raw b) (\<lambda>v.
     rbind (block_modifications cs lsn raw bs) (\<lambda>ms.
     Ok (\<lparr>mod_rel = blk_rel b, mod_block = blkno b, mod_lsn = lsn, mod_version = v\<rparr> # ms)))"

definition modifications_from_record :: "codecs \<Rightarrow> DecodedWalRecord \<Rightarrow> bytes \<Rightarrow> (WalDecodeError, Modification list) result" where
  "modifications_from_record cs decoded raw = block_modifications cs (dec_lsn decoded) raw (dec_blocks decoded)"

definition ingest_record :: "codecs \<Rightarrow> Lsn \<Rightarrow> bytes \<Rightarrow> Inner \<Rightarrow> (WalDecodeError, Inner) result" where
  "ingest_record cs lsn r repo =
     rbind (decode_wal_record lsn r) (\<lambda>decoded.
     rbind (modifications_from_record cs decoded r) (\<lambda>ms.
     Ok (ingest ms repo)))"

section \<open>Writing records\<close>

text \<open>
  The format as the sources' own builders write it (\<open>make_record\<close>, \<open>block_ref\<close>, \<open>main_short\<close> and
  \<open>main_long\<close> of the test module), extended to images and block data.
\<close>

definition make_record :: "u8 \<Rightarrow> u8 \<Rightarrow> u32 \<Rightarrow> bytes \<Rightarrow> bytes" where
  "make_record rm xinfo x body =
     u32_to_le (of_nat (SIZE_OF_XLOG_RECORD + length body)) @ u32_to_le x @ u64_to_le 0
     @ [xinfo, rm, 0, 0] @ u32_to_le 0 @ body"

definition image_info :: "DecodedImage \<Rightarrow> u8" where
  "image_info img =
     (if hole_length img \<noteq> 0 then BKPIMAGE_HAS_HOLE else 0)
     OR (if img_apply img then BKPIMAGE_APPLY else 0)
     OR (case compression img of
           Uncompressed \<Rightarrow> 0 | Pglz \<Rightarrow> BKPIMAGE_COMPRESS_PGLZ
         | Lz4 \<Rightarrow> BKPIMAGE_COMPRESS_LZ4 | Zstd \<Rightarrow> BKPIMAGE_COMPRESS_ZSTD)"

definition write_image_meta :: "DecodedImage \<Rightarrow> bytes" where
  "write_image_meta img =
     u16_to_le (of_nat (length (img_bytes img))) @ u16_to_le (hole_offset img) @ [image_info img]
     @ (if hole_length img \<noteq> 0 \<and> compression img \<noteq> Uncompressed then u16_to_le (hole_length img) else [])"

definition block_locator :: "DecodedBlock \<Rightarrow> locator" where
  "block_locator b = (spc_node (blk_rel b), db_node (blk_rel b), rel_node (blk_rel b))"

definition block_fork_flags :: "bool \<Rightarrow> DecodedBlock \<Rightarrow> u8" where
  "block_fork_flags same b =
     fork_raw (fork (blk_rel b)) OR (if blk_image b \<noteq> None then BKPBLOCK_HAS_IMAGE else 0)
     OR (if blk_data b \<noteq> [] then BKPBLOCK_HAS_DATA else 0)
     OR (if blk_will_init b then BKPBLOCK_WILL_INIT else 0)
     OR (if same then BKPBLOCK_SAME_REL else 0)"

definition write_locator :: "locator \<Rightarrow> bytes" where
  "write_locator l = (case l of (spc, db, relnode) \<Rightarrow> u32_to_le spc @ u32_to_le db @ u32_to_le relnode)"

definition write_block :: "locator option \<Rightarrow> DecodedBlock \<Rightarrow> bytes" where
  "write_block loc b =
     (let same = (loc = Some (block_locator b)) in
      [block_fork_flags same b] @ u16_to_le (of_nat (length (blk_data b)))
      @ (case blk_image b of Some img \<Rightarrow> write_image_meta img | None \<Rightarrow> [])
      @ (if same then [] else write_locator (block_locator b)) @ u32_to_le (blkno b))"

fun write_headers :: "u8 \<Rightarrow> locator option \<Rightarrow> DecodedBlock list \<Rightarrow> bytes" where
  "write_headers i loc [] = []"
| "write_headers i loc (b # bs) =
     i # write_block loc b @ write_headers (i + 1) (Some (block_locator b)) bs"

definition write_main_len :: "nat \<Rightarrow> bytes" where
  "write_main_len n =
     (if n < 256 then [XLR_BLOCK_ID_DATA_SHORT, of_nat n] else XLR_BLOCK_ID_DATA_LONG # u32_to_le (of_nat n))"

definition write_block_data :: "DecodedBlock \<Rightarrow> bytes" where
  "write_block_data b = (case blk_image b of Some img \<Rightarrow> img_bytes img | None \<Rightarrow> []) @ blk_data b"

definition write_record :: "DecodedWalRecord \<Rightarrow> bytes" where
  "write_record r =
     make_record (rmid r) (info r) (xid r)
       (write_headers 0 None (dec_blocks r) @ write_main_len (length (main_data r))
        @ concat (map write_block_data (dec_blocks r)) @ main_data r)"

definition image_wf :: "DecodedImage \<Rightarrow> bool" where
  "image_wf img \<longleftrightarrow> length (img_bytes img) < 65536 \<and>
     (compression img = Uncompressed \<and> hole_length img \<noteq> 0 \<longrightarrow>
       hole_length img = of_nat XLOG_BLCKSZ - of_nat (length (img_bytes img)))"

definition block_wf :: "DecodedBlock \<Rightarrow> bool" where
  "block_wf b \<longleftrightarrow> length (blk_data b) < 65536 \<and> (\<forall>img. blk_image b = Some img \<longrightarrow> image_wf img)"

definition record_wf :: "DecodedWalRecord \<Rightarrow> bool" where
  "record_wf r \<longleftrightarrow> length (dec_blocks r) \<le> 33 \<and> (\<forall>b \<in> set (dec_blocks r). block_wf b) \<and>
     length (write_record r) < 4294967296"

section \<open>Reading back what was written\<close>

lemmas cur_defs = cur_take_def cur_u8_def cur_u16_def cur_u32_def cur_u64_def cur_skip_def

definition meta_of :: "DecodedImage \<Rightarrow> ImageMeta" where
  "meta_of img = \<lparr>bimg_len = length (img_bytes img), meta_hole_offset = hole_offset img,
     meta_hole_length = hole_length img, meta_compression = compression img, meta_apply = img_apply img\<rparr>"

lemma image_info_flags:
  "image_info img AND BKPIMAGE_HAS_HOLE \<noteq> 0 \<longleftrightarrow> hole_length img \<noteq> 0"
  "image_info img AND BKPIMAGE_APPLY \<noteq> 0 \<longleftrightarrow> img_apply img"
  "image_info img AND BKPIMAGE_COMPRESSED \<noteq> 0 \<longleftrightarrow> compression img \<noteq> Uncompressed"
  "compression_from_info (image_info img) = compression img"
  by (cases "compression img"; cases "img_apply img"; cases "hole_length img = 0";
      simp add: image_info_def image_flags compression_from_info_def)+

lemma block_flags_bits:
  "block_fork_flags same b AND BKPBLOCK_FORK_MASK = fork_raw (fork (blk_rel b))"
  "block_fork_flags same b AND BKPBLOCK_HAS_IMAGE \<noteq> 0 \<longleftrightarrow> blk_image b \<noteq> None"
  "block_fork_flags same b AND BKPBLOCK_HAS_DATA \<noteq> 0 \<longleftrightarrow> blk_data b \<noteq> []"
  "block_fork_flags same b AND BKPBLOCK_WILL_INIT \<noteq> 0 \<longleftrightarrow> blk_will_init b"
  "block_fork_flags same b AND BKPBLOCK_SAME_REL \<noteq> 0 \<longleftrightarrow> same"
  by (cases "fork (blk_rel b)"; cases "blk_image b"; cases "blk_data b = []"; cases "blk_will_init b"; cases same;
      simp add: block_fork_flags_def block_flags)+

lemma read_image_meta_write:
  assumes "image_wf img"
  shows "read_image_meta (pre @ write_image_meta img @ rest) (length pre) =
    Ok (meta_of img, length pre + length (write_image_meta img))"
  using assms
  by (cases "hole_length img = 0"; cases "compression img = Uncompressed")
     (simp_all add: image_wf_def read_image_meta_def write_image_meta_def cur_defs codec nth_append
       image_info_flags [simplified] meta_of_def)

lemma read_locator_write:
  "read_locator (pre @ write_locator l @ rest) (length pre) = Ok (l, length pre + 12)"
  by (cases l) (simp add: read_locator_def write_locator_def cur_defs codec nth_append)

definition work_of :: "DecodedBlock \<Rightarrow> BlockWork" where
  "work_of b = \<lparr>work_rel = blk_rel b, work_blkno = blkno b, work_will_init = blk_will_init b,
     work_has_data = (blk_data b \<noteq> []), work_data_len = length (blk_data b),
     image_meta = map_option meta_of (blk_image b)\<rparr>"

lemma cur_write:
  "cur_u8 what (pre @ b # rest) (length pre) = Ok (b, length pre + 1)"
  "cur_u16 what (pre @ u16_to_le v @ rest) (length pre) = Ok (v, length pre + 2)"
  "cur_u32 what (pre @ u32_to_le w @ rest) (length pre) = Ok (w, length pre + 4)"
  "cur_u64 what (pre @ u64_to_le x @ rest) (length pre) = Ok (x, length pre + 8)"
  "cur_take (length bs) what (pre @ bs @ rest) (length pre) = Ok (bs, length pre + length bs)"
  by (simp_all add: cur_defs codec nth_append)

lemma read_block_write:
  assumes "block_wf b"
  shows "read_block (pre @ write_block loc b @ rest) loc (length pre) =
    Ok ((work_of b, block_locator b), length pre + length (write_block loc b))"
proof -
  let ?same = "loc = Some (block_locator b)"
  let ?img = "case blk_image b of Some img \<Rightarrow> write_image_meta img | None \<Rightarrow> []"
  let ?loc = "if ?same then [] else write_locator (block_locator b)"
  let ?fl = "block_fork_flags ?same b"
  let ?pre2 = "pre @ ?fl # u16_to_le (of_nat (length (blk_data b)))"
  let ?buf = "pre @ write_block loc b @ rest"
  have buf: "?buf = ?pre2 @ ?img @ ?loc @ u32_to_le (blkno b) @ rest"
    by (simp add: write_block_def Let_def)
  have a: "cur_u8 w ?buf (length pre) = Ok (?fl, length pre + 1)" for w
    unfolding buf using cur_write(1) [of w pre ?fl] by simp
  have b: "cur_u16 w ?buf (length pre + 1) = Ok (of_nat (length (blk_data b)), length pre + 3)" for w
    unfolding buf using cur_write(2) [of w "pre @ [?fl]"] by simp
  have c: "(if blk_image b \<noteq> None
        then rbind (read_image_meta ?buf (length pre + 3)) (\<lambda>(m, pos). Ok (Some m, pos))
        else Ok (None, length pre + 3)) =
      Ok (map_option meta_of (blk_image b), length (?pre2 @ ?img))"
  proof (cases "blk_image b")
    case (Some img)
    then have "image_wf img" using assms by (simp add: block_wf_def)
    then show ?thesis
      unfolding buf using read_image_meta_write [of img ?pre2] Some by simp
  qed simp
  have d: "(if ?same
        then rbind (ok_or loc SameRelWithoutPrev) (\<lambda>l. Ok (l, length (?pre2 @ ?img)))
        else read_locator ?buf (length (?pre2 @ ?img))) =
      Ok (block_locator b, length (?pre2 @ ?img @ ?loc))"
    unfolding buf
    using read_locator_write [of "?pre2 @ ?img" "block_locator b"]
    by (cases ?same) (simp_all add: write_locator_def block_locator_def)
  have e: "cur_u32 w ?buf (length (?pre2 @ ?img @ ?loc)) = Ok (blkno b, length (?pre2 @ ?img @ ?loc) + 4)" for w
    unfolding buf using cur_write(3) [of w "?pre2 @ ?img @ ?loc"] by simp
  have f: "from_raw (fork_raw (fork (blk_rel b))) = Some (fork (blk_rel b))" by simp
  have n: "unat (of_nat (length (blk_data b)) :: u16) = length (blk_data b)" using assms by (simp add: block_wf_def)
  obtain spc db rn where l: "block_locator b = (spc, db, rn)" by (rule prod_cases3)
  then have r: "RelTag spc db rn (fork (blk_rel b)) = blk_rel b" by (cases "blk_rel b") (simp add: block_locator_def)
  have "length (?pre2 @ ?img @ ?loc) + 4 = length pre + length (write_block loc b)"
    by (simp add: write_block_def Let_def)
  then show ?thesis
    unfolding read_block_def a b Let_def rbind.simps prod.case block_flags_bits f ok_or_simps n c d
    unfolding l prod.case rbind.simps e [unfolded l] r by (simp add: work_of_def l)
qed

lemma read_main_len_write:
  assumes "n < 4294967296"
  shows "read_header_item (pre @ write_main_len n @ rest) loc (length pre) =
    Ok (MainLen n, length pre + length (write_main_len n))"
  using assms
  by (simp add: read_header_item_def write_main_len_def cur_defs codec nth_append block_ids)

lemma read_block_item_write:
  assumes "block_wf b" "i \<le> 32"
  shows "read_header_item (pre @ i # write_block loc b @ rest) loc (length pre) =
    Ok (Block (work_of b) (block_locator b), length pre + 1 + length (write_block loc b))"
proof -
  have "i \<noteq> 255" "i \<noteq> 254" "i \<noteq> 253" "i \<noteq> 252"
    using assms(2) by (auto simp: word_le_nat_alt)
  moreover have "cur_u8 w (pre @ i # write_block loc b @ rest) (length pre) = Ok (i, length pre + 1)" for w
    by (rule cur_write(1))
  moreover have "read_block (pre @ i # write_block loc b @ rest) loc (length pre + 1) =
      Ok ((work_of b, block_locator b), length pre + 1 + length (write_block loc b))"
    using read_block_write [OF assms(1), of "pre @ [i]" loc rest] by simp
  ultimately show ?thesis
    using assms(2) by (simp add: read_header_item_def block_ids)
qed

lemma read_headers_write:
  assumes "\<forall>b \<in> set bs. block_wf b" "unat i + length bs \<le> 33" "n < 4294967296"
  shows "read_headers (pre @ write_headers i loc bs @ write_main_len n @ rest) loc acc (length pre) =
    Ok ((acc @ map work_of bs, n), length pre + length (write_headers i loc bs) + length (write_main_len n))"
  using assms(1,2)
proof (induction bs arbitrary: i loc pre acc)
  case Nil
  then show ?case
    using read_main_len_write [OF assms(3), of pre rest loc] by (simp add: read_headers.simps)
next
  case (Cons b bs)
  let ?pre = "pre @ i # write_block loc b"
  have i: "i \<le> 32" using Cons.prems(2) by (simp add: word_le_nat_alt)
  have "unat (i + 1) = unat i + 1" using Cons.prems(2) by (simp add: unat_word_ariths)
  then have "unat (i + 1) + length bs \<le> 33" using Cons.prems(2) by simp
  then have "read_headers (?pre @ write_headers (i + 1) (Some (block_locator b)) bs @ write_main_len n @ rest)
      (Some (block_locator b)) (acc @ [work_of b]) (length ?pre) =
    Ok (((acc @ [work_of b]) @ map work_of bs, n),
      length ?pre + length (write_headers (i + 1) (Some (block_locator b)) bs) + length (write_main_len n))"
    by (rule Cons.IH [rotated]) (use Cons.prems(1) in simp)
  moreover have "read_header_item (pre @ write_headers i loc (b # bs) @ write_main_len n @ rest) loc (length pre) =
      Ok (Block (work_of b) (block_locator b), length ?pre)"
    using read_block_item_write [OF _ i, of b pre loc
        "write_headers (i + 1) (Some (block_locator b)) bs @ write_main_len n @ rest"] Cons.prems(1) by simp
  ultimately show ?case
    by (subst read_headers.simps) simp
qed

lemma read_data_write:
  "read_data (pre @ concat (map write_block_data bs) @ rest) (map work_of bs) (length pre) =
    Ok (bs, length pre + length (concat (map write_block_data bs)))"
proof (induction bs arbitrary: pre)
  case Nil
  then show ?case by simp
next
  case (Cons b bs)
  let ?img = "case blk_image b of Some img \<Rightarrow> img_bytes img | None \<Rightarrow> []"
  let ?tail = "concat (map write_block_data bs) @ rest"
  let ?buf = "pre @ concat (map write_block_data (b # bs)) @ rest"
  have buf: "?buf = pre @ ?img @ blk_data b @ ?tail" by (simp add: write_block_data_def)
  have 1: "(case image_meta (work_of b) of
         Some m \<Rightarrow>
           rbind (cur_take (bimg_len m) ''block image'' ?buf (length pre)) (\<lambda>(bs, pos).
           Ok (Some \<lparr>img_bytes = bs, hole_offset = meta_hole_offset m, hole_length = meta_hole_length m,
                     compression = meta_compression m, img_apply = meta_apply m\<rparr>, pos))
       | None \<Rightarrow> Ok (None, length pre)) = Ok (blk_image b, length pre + length ?img)"
  proof (cases "blk_image b")
    case (Some img)
    then show ?thesis
      unfolding buf using cur_write(5) [of "img_bytes img" _ pre "blk_data b @ ?tail"]
      by (simp add: work_of_def meta_of_def)
  qed (simp add: work_of_def)
  have 2: "(if work_has_data (work_of b) then cur_take (work_data_len (work_of b)) ''block data'' ?buf (length pre + length ?img)
      else Ok ([], length pre + length ?img)) = Ok (blk_data b, length pre + length ?img + length (blk_data b))"
    unfolding buf using cur_write(5) [of "blk_data b" _ "pre @ ?img" ?tail] by (simp add: work_of_def)
  have 3: "read_data ?buf (map work_of bs) (length pre + length ?img + length (blk_data b)) =
      Ok (bs, length pre + length ?img + length (blk_data b) + length (concat (map write_block_data bs)))"
    unfolding buf using Cons.IH [of "pre @ ?img @ blk_data b"] by (simp add: add.assoc)
  have 4: "map work_of (b # bs) = work_of b # map work_of bs" by simp
  have 5: "length (write_block_data b) = length ?img + length (blk_data b)" by (simp add: write_block_data_def)
  show ?case
    unfolding 4 read_data.simps 1 2 3 rbind.simps prod.case by (simp add: work_of_def 5 add.assoc)
qed

lemma decode_write_record:
  assumes "record_wf r" "dec_lsn r = lsn"
  shows "decode_wal_record lsn (write_record r) = Ok r"
proof -
  let ?h = "write_headers 0 None (dec_blocks r)" and ?m = "write_main_len (length (main_data r))"
  let ?d = "concat (map write_block_data (dec_blocks r))"
  define body where "body = ?h @ ?m @ ?d @ main_data r"
  define hd where "hd = u32_to_le (of_nat (24 + length body)) @ u32_to_le (xid r) @ u64_to_le 0
    @ [info r, rmid r, 0, 0] @ u32_to_le 0"
  have rec: "write_record r = hd @ body"
    by (simp add: write_record_def make_record_def SIZE_OF_XLOG_RECORD_def hd_def body_def)
  have hd: "length hd = 24" by (simp add: hd_def)
  have len: "24 + length body < 4294967296" using assms(1) rec hd by (simp add: record_wf_def)
  then have n: "length (main_data r) < 4294967296" by (simp add: body_def)
  have "read_headers (hd @ ?h @ ?m @ ?d @ main_data r) None [] (length hd) =
      Ok (([] @ map work_of (dec_blocks r), length (main_data r)), length hd + length ?h + length ?m)"
    using assms(1) n by (intro read_headers_write) (simp_all add: record_wf_def)
  then have 1: "read_headers (hd @ body) None [] 24 =
      Ok ((map work_of (dec_blocks r), length (main_data r)), length (hd @ ?h @ ?m))"
    using hd by (simp add: body_def)
  have 2: "read_data (hd @ body) (map work_of (dec_blocks r)) (length (hd @ ?h @ ?m)) =
      Ok (dec_blocks r, length (hd @ ?h @ ?m @ ?d))"
    using read_data_write [of "hd @ ?h @ ?m" "dec_blocks r" "main_data r"] by (simp add: body_def add.assoc)
  have 3: "cur_take (length (main_data r)) w (hd @ body) (length (hd @ ?h @ ?m @ ?d)) =
      Ok (main_data r, length (hd @ ?h @ ?m @ ?d) + length (main_data r))" for w
    using cur_write(5) [of "main_data r" w "hd @ ?h @ ?m @ ?d" "[]"] by (simp add: body_def)
  have fields: "cur_u32 w (hd @ body) 0 = Ok (of_nat (24 + length body), 4)" "cur_u32 w (hd @ body) 4 = Ok (xid r, 8)"
    "cur_u64 w (hd @ body) 8 = Ok (0, 16)" "cur_u8 w (hd @ body) 16 = Ok (info r, 17)"
    "cur_u8 w (hd @ body) 17 = Ok (rmid r, 18)" "cur_u32 w (hd @ body) 20 = Ok (0, 24)" for w
    by (simp_all add: hd_def cur_defs codec nth_append)
  have pad: "cur_skip 2 w (hd @ body) 18 = Ok 20" for w
    using hd by (simp add: cur_skip_def cur_take_def get_bytes_def)
  have 5: "unat (of_nat (24 + length body) :: u32) = 24 + length body" using len by (rule unat_of_nat_u32)
  have 6: "24 + length body = length (hd @ body)" using hd by simp
  show ?thesis
    unfolding rec decode_wal_record_def fields pad rbind.simps prod.case 5
    unfolding 6 unfolding 1 2 3 rbind.simps prod.case
    using hd assms(2) by (simp add: SIZE_OF_XLOG_RECORD_def)
qed

section \<open>Totality\<close>

lemma get_u8_no_panic: "off < length buf \<Longrightarrow> get_u8 buf off \<noteq> Panic"
  by (simp add: get_u8_def)

lemma copy_back_ok:
  "0 < off \<Longrightarrow> off \<le> length dst \<Longrightarrow> length dst \<le> n \<Longrightarrow>
   \<exists>dst'. copy_back len off n dst = Ok dst' \<and> length dst \<le> length dst' \<and> length dst' \<le> n"
proof (induction len arbitrary: dst)
  case (Suc len)
  have "\<exists>dst'. copy_back len off n (dst @ [dst ! (length dst - off)]) = Ok dst' \<and> length dst + 1 \<le> length dst' \<and> length dst' \<le> n"
    if "length dst < n"
    using Suc.IH [of "dst @ [dst ! (length dst - off)]"] Suc.prems that by simp
  then show ?case using Suc.prems by (auto simp: get_u8_def not_le)
qed simp

lemma copy_back_length: "copy_back len off n dst = Ok d \<Longrightarrow> length dst \<le> n \<Longrightarrow> length d \<le> n"
  by (induction len arbitrary: dst) (auto simp: rbind_eq_Ok split: if_splits)

lemma pglz_reference_ok:
  assumes "length dst \<le> n"
  shows "pglz_reference src n sp dst \<noteq> Panic"
    and "pglz_reference src n sp dst = Ok (sp', dst') \<Longrightarrow> length dst' \<le> n"
proof -
  have "copy_back len off n dst \<noteq> Panic" if "\<not> (off = 0 \<or> off > length dst)" for len off
    using that copy_back_ok [of off dst n len] assms by auto
  then show "pglz_reference src n sp dst \<noteq> Panic"
    by (auto simp: pglz_reference_def rbind_eq_Panic Let_def get_u8_def split: if_splits)
  show "length dst' \<le> n" if "pglz_reference src n sp dst = Ok (sp', dst')"
    using that assms by (auto simp: pglz_reference_def rbind_eq_Ok Let_def split: if_splits dest!: copy_back_length)
qed

lemma pglz_bits_ok:
  "length dst \<le> n \<Longrightarrow> pglz_bits src n ctrl k sp dst \<noteq> Panic \<and>
    (\<forall>sp' dst'. pglz_bits src n ctrl k sp dst = Ok (sp', dst') \<longrightarrow> length dst' \<le> n)"
proof (induction k arbitrary: sp dst)
  case (Suc k)
  have lit: "pglz_bits src n ctrl k (sp + 1) (dst @ [b]) \<noteq> Panic \<and>
      (\<forall>sp' dst'. pglz_bits src n ctrl k (sp + 1) (dst @ [b]) = Ok (sp', dst') \<longrightarrow> length dst' \<le> n)" if "length dst < n" for b
    using Suc.IH [of "dst @ [b]" "sp + 1"] that by simp
  show ?case
  proof (cases "pglz_reference src n sp dst")
    case (Ok r)
    then have "length (snd r) \<le> n" using pglz_reference_ok(2) [OF Suc.prems] by (cases r) auto
    then show ?thesis using Ok lit Suc by (cases r) (auto simp: get_u8_def not_le)
  qed (use lit Suc.prems pglz_reference_ok(1) [OF Suc.prems] in \<open>auto simp: get_u8_def not_le\<close>)
qed simp

lemma pglz_loop_ok:
  "length dst \<le> n \<Longrightarrow> pglz_loop src n sp dst \<noteq> Panic \<and>
    (\<forall>d. pglz_loop src n sp dst = Ok d \<longrightarrow> length d \<le> n)"
proof (induction src n sp dst rule: pglz_loop.induct)
  case (1 src n sp dst)
  show ?case
  proof (cases "sp < length src \<and> length dst < n")
    case True
    note bits = pglz_bits_ok [OF 1(2), of src "src ! sp" 8 "sp + 1"]
    show ?thesis
    proof (cases "pglz_bits src n (src ! sp) 8 (sp + 1) dst")
      case (Ok r)
      obtain sp1 dst1 where r: "r = (sp1, dst1)" by (cases r)
      then show ?thesis
        using True bits Ok 1(1) [OF True Ok [unfolded r] refl] by (simp add: pglz_loop.simps [of src n sp dst])
    qed (use True bits in \<open>auto simp: pglz_loop.simps [of src n sp dst]\<close>)
  qed (use 1(2) in \<open>auto simp: pglz_loop.simps [of src n sp dst]\<close>)
qed

lemma image_body_no_panic: "image_body cs img n \<noteq> Panic"
  using pglz_loop_ok [of "[]" n "img_bytes img" 0]
  by (auto simp: image_body_def pglz_decompress_def split: Compression.splits)

lemma restore_image_total:
  "restore_image cs img \<noteq> Panic" "restore_image cs img = Ok page \<Longrightarrow> length page = PAGE_SIZE"
  using image_body_no_panic
  by (auto simp: restore_image_def Let_def rbind_eq_Panic rbind_eq_Ok get_bytes_def XLOG_BLCKSZ_def split: if_splits)

text \<open>A cursor read is safe when it does not panic and leaves the position inside the buffer.\<close>

definition in_buf :: "bytes \<Rightarrow> (WalDecodeError, 'a \<times> nat) result \<Rightarrow> bool" where
  "in_buf buf m = (case m of Ok (_, pos) \<Rightarrow> pos \<le> length buf | Err _ \<Rightarrow> True | Panic \<Rightarrow> False)"

lemma in_buf_simps [simp]:
  "in_buf buf (Ok (v, pos)) \<longleftrightarrow> pos \<le> length buf" "in_buf buf (Err e)" "\<not> in_buf buf Panic"
  by (simp_all add: in_buf_def)

lemma in_buf_bind:
  assumes "in_buf buf m" "\<And>v pos. pos \<le> length buf \<Longrightarrow> in_buf buf (f (v, pos))"
  shows "in_buf buf (rbind m f)"
  using assms by (cases m) (auto split: prod.splits)

lemma in_buf_take: "pos \<le> length buf \<Longrightarrow> in_buf buf (cur_take n what buf pos)"
  by (auto simp: cur_take_def get_bytes_def)

lemma in_buf_cur:
  "pos \<le> length buf \<Longrightarrow> in_buf buf (cur_u8 what buf pos)"
  "pos \<le> length buf \<Longrightarrow> in_buf buf (cur_u16 what buf pos)"
  "pos \<le> length buf \<Longrightarrow> in_buf buf (cur_u32 what buf pos)"
  "pos \<le> length buf \<Longrightarrow> in_buf buf (cur_u64 what buf pos)"
  by (auto simp: cur_u8_def cur_u16_def cur_u32_def cur_u64_def intro!: in_buf_bind in_buf_take)

lemma in_buf_skip:
  "pos \<le> length buf \<Longrightarrow> (\<And>pos. pos \<le> length buf \<Longrightarrow> in_buf buf (f pos)) \<Longrightarrow>
   in_buf buf (rbind (cur_skip n what buf pos) f)"
  using in_buf_take [of pos buf n what]
  by (cases "cur_take n what buf pos") (auto simp: cur_skip_def split: prod.splits)

lemma in_buf_ok_or: "(\<And>x. in_buf buf (f x)) \<Longrightarrow> in_buf buf (rbind (ok_or m e) f)"
  by (cases m) auto

lemmas in_buf_rules = in_buf_bind in_buf_take in_buf_cur in_buf_skip in_buf_ok_or

lemma read_image_meta_safe: "pos \<le> length buf \<Longrightarrow> in_buf buf (read_image_meta buf pos)"
  by (auto simp: read_image_meta_def Let_def intro!: in_buf_rules)

lemma read_locator_safe: "pos \<le> length buf \<Longrightarrow> in_buf buf (read_locator buf pos)"
  by (auto simp: read_locator_def intro!: in_buf_rules)

lemma read_block_safe: "pos \<le> length buf \<Longrightarrow> in_buf buf (read_block buf loc pos)"
  by (auto simp: read_block_def Let_def intro!: in_buf_rules read_image_meta_safe read_locator_safe)

lemma read_header_item_safe: "pos \<le> length buf \<Longrightarrow> in_buf buf (read_header_item buf loc pos)"
  by (auto simp: read_header_item_def intro!: in_buf_rules read_block_safe)

lemma read_headers_safe: "pos \<le> length buf \<Longrightarrow> in_buf buf (read_headers buf loc acc pos)"
proof (induction buf loc acc pos rule: read_headers.induct)
  case (1 buf loc acc pos)
  note item = read_header_item_safe [OF 1(3), of loc]
  show ?case
  proof (cases "read_header_item buf loc pos")
    case (Ok r)
    obtain it pos' where r: "r = (it, pos')" by (cases r)
    then have "pos' \<le> length buf" using item Ok by simp
    then show ?thesis
      using Ok r 1(1,2) by (cases it) (simp_all add: read_headers.simps [of buf loc acc pos])
  qed (use item in \<open>simp_all add: read_headers.simps [of buf loc acc pos]\<close>)
qed

lemma read_data_safe: "pos \<le> length buf \<Longrightarrow> in_buf buf (read_data buf ws pos)"
proof (induction ws arbitrary: pos)
  case (Cons w ws)
  then show ?case by (auto intro!: in_buf_rules split: option.splits)
qed simp

lemma in_buf_not_panic: "in_buf buf m \<Longrightarrow> m \<noteq> Panic"
  by auto

lemma decode_wal_record_no_panic: "decode_wal_record lsn r \<noteq> Panic"
proof -
  have "in_buf r (rbind (decode_wal_record lsn r) (\<lambda>d. Ok (d, 0 :: nat)))"
    by (auto simp: decode_wal_record_def rbind_assoc if_distrib [of "\<lambda>m. rbind m _"]
        intro!: in_buf_rules read_headers_safe read_data_safe)
  then show ?thesis by (cases "decode_wal_record lsn r") auto
qed

lemma block_modifications_total:
  "\<exists>ms. block_modifications cs lsn raw bs = Ok ms \<and>
     map (\<lambda>m. (mod_rel m, mod_block m, mod_lsn m)) ms = map (\<lambda>b. (blk_rel b, blkno b, lsn)) bs \<and>
     (\<forall>m \<in> set ms. (\<exists>page. mod_version m = Image page \<and> length page = PAGE_SIZE) \<or>
        (\<exists>wi. mod_version m = WalRecord (WalRec wi raw)))"
proof (induction bs)
  case (Cons b bs)
  have "\<exists>v. block_version cs raw b = Ok v \<and>
      ((\<exists>page. v = Image page \<and> length page = PAGE_SIZE) \<or> (\<exists>wi. v = WalRecord (WalRec wi raw)))"
  proof (cases "blk_image b")
    case (Some img)
    then show ?thesis
      using restore_image_total [of cs img] by (cases "restore_image cs img") (auto simp: block_version_def)
  qed (simp add: block_version_def)
  with Cons show ?case by auto
qed simp

section \<open>The pglz format\<close>

text \<open>
  A stream is a sequence of literals and back references; a control byte precedes every eight of them,
  its lowest bit describing the first.
\<close>

datatype pglz_token = Literal u8 | Reference (ref_offset: nat) (ref_length: nat)

fun copy_ref :: "nat \<Rightarrow> nat \<Rightarrow> bytes \<Rightarrow> bytes" where
  "copy_ref 0 off out = out"
| "copy_ref (Suc n) off out = copy_ref n off (out @ [out ! (length out - off)])"

fun expand_token :: "pglz_token \<Rightarrow> bytes \<Rightarrow> bytes" where
  "expand_token (Literal b) out = out @ [b]"
| "expand_token (Reference off len) out = copy_ref len off out"

fun token_ok :: "pglz_token \<Rightarrow> bytes \<Rightarrow> bool" where
  "token_ok (Literal b) out \<longleftrightarrow> True"
| "token_ok (Reference off len) out \<longleftrightarrow> 0 < off \<and> off \<le> length out \<and> off < 4096 \<and> 3 \<le> len \<and> len \<le> 273"

fun expand :: "pglz_token list \<Rightarrow> bytes \<Rightarrow> bytes" where
  "expand [] out = out"
| "expand (t # ts) out = expand ts (expand_token t out)"

fun tokens_ok :: "pglz_token list \<Rightarrow> bytes \<Rightarrow> bool" where
  "tokens_ok [] out \<longleftrightarrow> True"
| "tokens_ok (t # ts) out \<longleftrightarrow> token_ok t out \<and> tokens_ok ts (expand_token t out)"

fun write_token :: "pglz_token \<Rightarrow> bytes" where
  "write_token (Literal b) = [b]"
| "write_token (Reference off len) =
     (if len < 18 then [of_nat (off div 256 * 16 + (len - 3)), of_nat (off mod 256)]
      else [of_nat (off div 256 * 16 + 15), of_nat (off mod 256), of_nat (len - 18)])"

fun is_reference :: "pglz_token \<Rightarrow> bool" where
  "is_reference (Literal _) \<longleftrightarrow> False"
| "is_reference (Reference _ _) \<longleftrightarrow> True"

fun control_byte :: "pglz_token list \<Rightarrow> nat" where
  "control_byte [] = 0"
| "control_byte (t # ts) = (if is_reference t then 1 else 0) + 2 * control_byte ts"

fun write_tokens :: "pglz_token list \<Rightarrow> bytes" where
  "write_tokens [] = []"
| "write_tokens (t # ts) =
     of_nat (control_byte (take 8 (t # ts))) # concat (map write_token (take 8 (t # ts)))
     @ write_tokens (drop 8 (t # ts))"

lemma copy_ref_length: "length (copy_ref n off out) = length out + n"
  by (induction n arbitrary: out) simp_all

lemma expand_token_grows: "token_ok t out \<Longrightarrow> length out < length (expand_token t out)"
  by (cases t) (auto simp: copy_ref_length)

lemma expand_grows: "tokens_ok ts out \<Longrightarrow> length out \<le> length (expand ts out)"
  by (induction ts arbitrary: out) (auto dest: expand_token_grows less_imp_le order.trans)

lemma copy_back_ref:
  "0 < off \<Longrightarrow> off \<le> length dst \<Longrightarrow> length dst + len \<le> n \<Longrightarrow> copy_back len off n dst = Ok (copy_ref len off dst)"
  by (induction len arbitrary: dst) (auto simp: get_u8_def)

lemma low_nibble: "unat (w AND 0x0F) = unat (w :: u8) mod 16"
proof -
  have "(0x0F :: u8) = mask 4" by code_simp
  then have "w AND 0x0F = take_bit 4 w" by (simp only: take_bit_eq_mask)
  then have "unat (w AND 0x0F) = take_bit 4 (unat w)" by (simp only: unsigned_take_bit_eq)
  then show ?thesis by (simp add: take_bit_eq_mod)
qed

lemma high_nibble: "unat (w AND 0xF0) = unat (w :: u8) div 16 * 16"
proof -
  have "(0xF0 :: u8) = NOT (mask 4)" by code_simp
  then have "w AND 0xF0 = w AND NOT (mask 4)" by simp
  also have "\<dots> = push_bit 4 (drop_bit 4 w)" by (rule bit_eqI) (auto simp: bit_simps)
  moreover have "take_bit 8 (unat w) = unat w" using unat_bounds(1) [of w] by (simp add: take_bit_nat_eq_self)
  ultimately have "unat (w AND 0xF0) = take_bit 8 (push_bit 4 (drop_bit 4 (unat w)))"
    by (simp only: unsigned_push_bit_eq unsigned_drop_bit_eq) simp
  then have "unat (w AND 0xF0) = unat w div 16 * 16 mod 256"
    by (simp add: take_bit_eq_mod push_bit_eq_mult drop_bit_eq_div)
  also have "\<dots> = unat w div 16 * 16"
    using unat_bounds(1) [of w] div_times_less_eq_dividend [of "unat w" 16] by (intro mod_less) simp
  finally show ?thesis .
qed

lemma unat_of_nat_byte: "n < 256 \<Longrightarrow> unat (of_nat n :: u8) = n"
  by (simp add: unsigned_of_nat take_bit_nat_eq_self)

lemma get_u8_Ok: "i < length b \<Longrightarrow> get_u8 b i = Ok (b ! i)"
  by (simp add: get_u8_def)

lemma pglz_reference_write:
  assumes "token_ok (Reference off len) dst" "drop sp src = write_token (Reference off len) @ rest"
    "length dst + len \<le> n"
  shows "pglz_reference src n sp dst = Ok (sp + length (write_token (Reference off len)), copy_ref len off dst)"
proof -
  let ?w = "write_token (Reference off len)"
  have "drop sp src \<noteq> []" using assms(2) by simp
  then have sp: "sp \<le> length src" by auto
  have src: "src ! (sp + i) = (?w @ rest) ! i" for i using assms(2) sp by (metis nth_drop)
  have "length (drop sp src) = length ?w + length rest" using assms(2) by simp
  then have len: "sp + length ?w + length rest = length src" using sp by (simp del: write_token.simps)
  have "off div 256 < 16" using assms(1) by (simp add: div_less_iff_less_mult)
  then have byte: "unat (of_nat (off div 256 * 16 + x) :: u8) = off div 256 * 16 + x" if "x < 16" for x
    using that by (intro unat_of_nat_byte) simp
  have lo_off: "unat (of_nat (off mod 256) :: u8) = off mod 256" by (intro unat_of_nat_byte) simp
  have hi: "(off div 256 * 16 + x) div 16 * 16 * 16 + off mod 256 = off" if "x < 16" for x
    using that by (simp add: mult.assoc)
  have lo: "(off div 256 * 16 + x) mod 16 = x" if "x < 16" for x using that by simp
  have copy: "copy_back len off n dst = Ok (copy_ref len off dst)"
    using assms by (intro copy_back_ref) auto
  show ?thesis
  proof (cases "len < 18")
    case True
    then have x: "len - 3 < 15" "len - 3 + 3 = len" using assms(1) by auto
    have u: "unat (src ! sp) = off div 256 * 16 + (len - 3)" "unat (src ! (sp + 1)) = off mod 256" "sp + 1 < length src"
      using src [of 0] src [of 1] len True byte [of "len - 3"] lo_off x by simp_all
    have "unat (src ! sp AND 0xF0) * 16 + unat (src ! (sp + 1)) = off" "unat (src ! sp AND 0x0F) + 3 = len"
      using hi [of "len - 3"] lo [of "len - 3"] x by (simp_all only: high_nibble low_nibble u)
    moreover have "sp < length src" "(length src \<le> sp + 1) = False" using u(3) by simp_all
    ultimately show ?thesis
      by (simp only: pglz_reference_def Let_def rbind.simps if_False get_u8_Ok u(3)) (use True copy assms(1) in simp)
  next
    case False
    have "unat (of_nat (len - 18) :: u8) = len - 18" using assms(1) by (intro unat_of_nat_byte) auto
    then have u: "unat (src ! sp) = off div 256 * 16 + 15" "unat (src ! (sp + 1)) = off mod 256"
      "unat (src ! (sp + 2)) = len - 18" "sp + 2 < length src"
      using src [of 0] src [of 1] src [of 2] len False byte [of 15] lo_off by simp_all
    have "unat (src ! sp AND 0xF0) * 16 + unat (src ! (sp + 1)) = off" "unat (src ! sp AND 0x0F) + 3 = 18"
      using hi [of 15] lo [of 15] by (simp_all only: high_nibble low_nibble u)
    moreover have "sp < length src" "sp + 1 < length src" "(length src \<le> sp + 1) = False" "(length src \<le> sp + 2) = False"
      using u(4) by simp_all
    ultimately show ?thesis
      by (simp only: pglz_reference_def Let_def rbind.simps if_False get_u8_Ok u(3,4)) (use False copy assms(1) in simp)
  qed
qed

lemma control_bit: "drop_bit j (w :: u8) AND 1 = 0 \<longleftrightarrow> \<not> bit w j"
  by (simp add: bit_iff_odd_drop_bit and_one_eq odd_iff_mod_2_eq_one)

lemma bit_control_byte: "bit (control_byte ts) i \<longleftrightarrow> i < length ts \<and> is_reference (ts ! i)"
proof (induction ts arbitrary: i)
  case (Cons t ts)
  then show ?case by (cases i) (auto simp: bit_Suc bit_0)
qed simp

lemma bit_control_word:
  "i < length ts \<Longrightarrow> length ts \<le> 8 \<Longrightarrow> bit (of_nat (control_byte ts) :: u8) i \<longleftrightarrow> is_reference (ts ! i)"
  by (simp add: bit_of_nat_iff bit_control_byte)

lemma write_token_nonempty: "write_token t \<noteq> []"
  by (cases t) simp_all

lemma pglz_bits_write:
  assumes "length ts \<le> k" "k \<le> 8" "\<And>i. i < length ts \<Longrightarrow> bit ctrl (8 - k + i) \<longleftrightarrow> is_reference (ts ! i)"
    "drop sp src = concat (map write_token ts) @ rest" "length ts = k \<or> rest = []"
    "tokens_ok ts dst" "length (expand ts dst) \<le> n"
  shows "pglz_bits src n ctrl k sp dst = Ok (sp + length (concat (map write_token ts)), expand ts dst)"
  using assms
proof (induction k arbitrary: ts sp dst)
  case (Suc k)
  show ?case
  proof (cases ts)
    case (Cons t ts')
    let ?d = "expand_token t dst"
    have t: "token_ok t dst" "tokens_ok ts' ?d" using Suc.prems(6) Cons by simp_all
    have len: "length dst < length ?d" "length ?d \<le> n"
      using expand_token_grows [OF t(1)] expand_grows [OF t(2)] Suc.prems(7) Cons by simp_all
    have w: "drop sp src = write_token t @ concat (map write_token ts') @ rest" using Suc.prems(4) Cons by simp
    then have sp: "sp < length src" using write_token_nonempty [of t] by (metis append_is_Nil_conv drop_eq_Nil not_le)
    have "bit ctrl (8 - Suc k) \<longleftrightarrow> is_reference t" using Suc.prems(3) [of 0] Cons by simp
    then have ctrl: "drop_bit (7 - k) ctrl AND 1 = 0 \<longleftrightarrow> \<not> is_reference t" by (simp add: control_bit)
    have "8 - Suc k + Suc i = 8 - k + i" for i using Suc.prems(2) by arith
    then have "bit ctrl (8 - k + i) \<longleftrightarrow> is_reference (ts' ! i)" if "i < length ts'" for i
      using Suc.prems(3) [of "Suc i"] Cons that by (metis length_Cons Suc_less_eq nth_Cons_Suc)
    moreover have "drop (sp + length (write_token t)) src = concat (map write_token ts') @ rest"
      using w by (metis add.commute append_eq_conv_conj drop_drop)
    ultimately have rest: "pglz_bits src n ctrl k (sp + length (write_token t)) ?d =
        Ok (sp + length (write_token t) + length (concat (map write_token ts')), expand ts' ?d)"
      using Suc.prems Cons t by (intro Suc.IH) auto
    show ?thesis
    proof (cases t)
      case (Literal b)
      have "src ! sp = b" using w sp Literal by (metis append_Cons hd_drop_conv_nth list.sel(1) write_token.simps(1))
      then show ?thesis using rest Literal Cons sp len ctrl by (simp add: get_u8_def add.assoc)
    next
      case (Reference off l)
      have "pglz_reference src n sp dst = Ok (sp + length (write_token t), ?d)"
        using pglz_reference_write [of off l dst sp src _ n] t(1) w len Reference by (simp add: copy_ref_length)
      then show ?thesis using rest Reference Cons sp len ctrl by (simp del: write_token.simps add: add.assoc)
    qed
  qed (use Suc.prems in auto)
qed simp

lemma expand_append: "expand (ts @ us) out = expand us (expand ts out)"
  by (induction ts arbitrary: out) simp_all

lemma tokens_ok_append: "tokens_ok (ts @ us) out \<longleftrightarrow> tokens_ok ts out \<and> tokens_ok us (expand ts out)"
  by (induction ts arbitrary: out) auto

lemma pglz_loop_write:
  assumes "drop sp src = write_tokens ts" "tokens_ok ts dst" "n = length (expand ts dst)"
  shows "pglz_loop src n sp dst = Ok (expand ts dst)"
  using assms
proof (induction ts arbitrary: sp dst rule: write_tokens.induct)
  case 1
  then show ?case using pglz_loop.simps [of src n sp dst] by simp
next
  case (2 t ts)
  let ?g = "take 8 (t # ts)" and ?r = "drop 8 (t # ts)"
  have g: "tokens_ok ?g dst" "tokens_ok ?r (expand ?g dst)" "expand (t # ts) dst = expand ?r (expand ?g dst)"
    using "2.prems"(2) tokens_ok_append [of ?g ?r dst] expand_append [of ?g ?r dst] by simp_all
  have src: "drop sp src = of_nat (control_byte ?g) # concat (map write_token ?g) @ write_tokens ?r"
    using "2.prems"(1) by simp
  then have sp: "sp < length src" "src ! sp = of_nat (control_byte ?g)"
    by (metis drop_eq_Nil list.discI not_le, metis drop_eq_Nil hd_drop_conv_nth list.discI list.sel(1) not_le)
  have next_sp: "drop (sp + 1) src = concat (map write_token ?g) @ write_tokens ?r"
    using src by (metis Suc_eq_plus1 drop_Suc list.sel(3) tl_drop)
  have "length dst < length (expand_token t dst)" "length (expand_token t dst) \<le> n"
    using "2.prems" expand_token_grows [of t dst] expand_grows [of ts "expand_token t dst"] by simp_all
  then have len: "length dst < n" by simp
  have "pglz_bits src n (src ! sp) 8 (sp + 1) dst = Ok (sp + 1 + length (concat (map write_token ?g)), expand ?g dst)"
  proof (rule pglz_bits_write [where rest = "write_tokens ?r"])
    show "length ?g = 8 \<or> write_tokens ?r = []" by (cases "8 \<le> length (t # ts)") auto
    show "length (expand ?g dst) \<le> n" using expand_grows [OF g(2)] g(3) "2.prems"(3) by simp
    show "bit (src ! sp) (8 - 8 + i) \<longleftrightarrow> is_reference (?g ! i)" if "i < length ?g" for i
      unfolding sp(2) diff_self_eq_0 add_0 by (rule bit_control_word [OF that]) simp
  qed (use g next_sp in simp_all)
  moreover have "drop (sp + 1 + length (concat (map write_token ?g))) src = write_tokens ?r"
    using next_sp by (metis add.commute append_eq_conv_conj drop_drop)
  then have "pglz_loop src n (sp + 1 + length (concat (map write_token ?g))) (expand ?g dst) = Ok (expand (t # ts) dst)"
    using "2.IH" [of _ "expand ?g dst"] g "2.prems"(3) by metis
  ultimately show ?case using sp(1) len by (simp add: pglz_loop.simps [of src n sp dst] del: take_Cons_numeral drop_Cons_numeral)
qed

lemma pglz_decompress_write:
  "tokens_ok ts [] \<Longrightarrow> pglz_decompress (write_tokens ts) (length (expand ts [])) = Ok (expand ts [])"
  by (simp add: pglz_decompress_def pglz_loop_write)

section \<open>Main results\<close>

text \<open>
  C29. Decoding a record inverts writing it: whatever blocks, images, inherited locators, block data and
  main data a record carries, in the short or the long form of the main-data marker, the decoder returns
  exactly that record.
\<close>

theorem wal_record_round_trip:
  assumes "record_wf r"
  shows "decode_wal_record (dec_lsn r) (write_record r) = Ok r"
  using assms by (rule decode_write_record) simp

definition sample_record :: DecodedWalRecord where
  "sample_record = \<lparr>dec_lsn = 0x100, rmid = 10, info = 0x20, xid = 777, main_data = [0xAA, 0xBB, 0xCC],
     dec_blocks = [\<lparr>blk_rel = RelTag 1663 5 16384 Main, blkno = 42, blk_will_init = True, blk_image = None, blk_data = [7]\<rparr>,
       \<lparr>blk_rel = RelTag 1663 5 16384 VisibilityMap, blkno = 3, blk_will_init = False,
        blk_image = Some \<lparr>img_bytes = [1, 2], hole_offset = 2, hole_length = 8190, compression = Uncompressed, img_apply = True\<rparr>,
        blk_data = []\<rparr>]\<rparr>"

lemma sample_record_wf: "record_wf sample_record"
proof -
  have "length (write_record sample_record) < 4294967296"
    by (simp add: sample_record_def write_record_def make_record_def write_block_def write_main_len_def
        write_block_data_def write_image_meta_def write_locator_def block_locator_def Let_def)
  moreover have "\<forall>b \<in> set (dec_blocks sample_record). block_wf b"
    by (simp add: sample_record_def block_wf_def image_wf_def XLOG_BLCKSZ_def PAGE_SIZE_def)
  moreover have "length (dec_blocks sample_record) \<le> 33" by (simp add: sample_record_def)
  ultimately show ?thesis by (simp add: record_wf_def)
qed

theorem wal_record_round_trip_witness: "decode_wal_record 0x100 (write_record sample_record) = Ok sample_record"
  using wal_record_round_trip [OF sample_record_wf] by (simp add: sample_record_def)

text \<open>
  No byte string makes the record decoder panic, and every decoded record maps to exactly one
  modification per block it references, in order and at the record's LSN: a whole page when the block has
  an image that can be restored, otherwise the raw record for the redo backend.
\<close>

theorem wal_record_decoding_total:
  "decode_wal_record lsn r \<noteq> Panic \<and>
   (\<exists>ms. modifications_from_record cs d raw = Ok ms \<and>
      map (\<lambda>m. (mod_rel m, mod_block m, mod_lsn m)) ms = map (\<lambda>b. (blk_rel b, blkno b, dec_lsn d)) (dec_blocks d) \<and>
      list_all (\<lambda>m. (\<exists>page. mod_version m = Image page \<and> length page = PAGE_SIZE) \<or>
        (\<exists>wi. mod_version m = WalRecord (WalRec wi raw))) ms)"
  using block_modifications_total [of cs "dec_lsn d" raw "dec_blocks d"]
  by (auto simp: decode_wal_record_no_panic modifications_from_record_def list_all_iff)

text \<open>
  C30. The pglz decompressor expands every well formed token stream, literals and back references into the
  output so far (overlapping ones included), to exactly the bytes the tokens stand for.
\<close>

theorem pglz_decompress_expands:
  assumes "tokens_ok ts []"
  shows "pglz_decompress (write_tokens ts) (length (expand ts [])) = Ok (expand ts [])"
  using assms by (rule pglz_decompress_write)

theorem pglz_decompress_expands_witness:
  "write_tokens [Literal 65, Literal 66, Reference 2 5, Reference 1 20] = [12, 65, 66, 2, 2, 15, 1, 2] \<and>
   pglz_decompress [12, 65, 66, 2, 2, 15, 1, 2] 27 =
     Ok ([65, 66, 65, 66, 65, 66, 65] @ replicate 20 65)"
proof -
  have t: "tokens_ok [Literal 65, Literal 66, Reference 2 5, Reference 1 20] []" by code_simp
  have w: "write_tokens [Literal 65, Literal 66, Reference 2 5, Reference 1 20] = [12, 65, 66, 2, 2, 15, 1, 2]" by code_simp
  have e: "expand [Literal 65, Literal 66, Reference 2 5, Reference 1 20] [] = [65, 66, 65, 66, 65, 66, 65] @ replicate 20 65"
    by code_simp
  show ?thesis using pglz_decompress_expands [OF t] unfolding w e by simp
qed

end
