(* ===== verification/Wal_Stream.thy ===== *)
theory Wal_Stream
  imports Wal_Decode
begin

text \<open>
  The WAL stream decoder (\<open>pageserver/src/waldecode.rs\<close>, \<open>WalStreamDecoder\<close>) and the ingestion of a raw
  stream (\<open>repository.rs\<close>, \<open>ingest_wal\<close>).  The decoder strips the page headers, skips alignment padding
  and zero-filled page tails, and yields whole records.  A slice or a drain past the end
  of the buffer panics, and so does \<open>%\<close> by a segment size of zero.  The lemmas show that the
  two loops end, that how the bytes are cut into chunks does not matter, and that a stream laid out by
  the page format yields exactly the records it holds.
\<close>

section \<open>The decoder\<close>

definition SIZE_OF_XLOG_SHORT_PHD :: nat where "SIZE_OF_XLOG_SHORT_PHD = 24"
definition SIZE_OF_XLOG_LONG_PHD :: nat where "SIZE_OF_XLOG_LONG_PHD = 40"
definition DEFAULT_WAL_SEG_SIZE :: u64 where "DEFAULT_WAL_SEG_SIZE = 16 * 1024 * 1024"
definition XLOG_PAGE_MAGIC_PG16 :: u16 where "XLOG_PAGE_MAGIC_PG16 = 0xD113"
definition XLP_LONG_HEADER :: u16 where "XLP_LONG_HEADER = 0x0002"

record WalStreamDecoder =
  sd_lsn :: u64
  wal_seg_size :: u64
  check_magic :: bool
  sd_buf :: bytes

definition decoder_new :: "Lsn \<Rightarrow> WalStreamDecoder" where
  "decoder_new start_lsn =
     \<lparr>sd_lsn = start_lsn, wal_seg_size = DEFAULT_WAL_SEG_SIZE, check_magic = True, sd_buf = []\<rparr>"

definition with_segment_size :: "u64 \<Rightarrow> WalStreamDecoder \<Rightarrow> WalStreamDecoder" where
  "with_segment_size seg_size d = d\<lparr>wal_seg_size := seg_size\<rparr>"

definition without_magic_check :: "WalStreamDecoder \<Rightarrow> WalStreamDecoder" where
  "without_magic_check d = d\<lparr>check_magic := False\<rparr>"

definition feed_bytes :: "bytes \<Rightarrow> WalStreamDecoder \<Rightarrow> WalStreamDecoder" where
  "feed_bytes bs d = d\<lparr>sd_buf := sd_buf d @ bs\<rparr>"

definition page_header_size :: "WalStreamDecoder \<Rightarrow> u64 \<Rightarrow> (WalDecodeError, nat) result" where
  "page_header_size d lsn =
     (if wal_seg_size d = 0 then Panic
      else Ok (if lsn mod wal_seg_size d = 0 then SIZE_OF_XLOG_LONG_PHD else SIZE_OF_XLOG_SHORT_PHD))"

definition check_page_header :: "WalStreamDecoder \<Rightarrow> nat \<Rightarrow> u64 \<Rightarrow> (WalDecodeError, unit) result" where
  "check_page_header d off lsn =
     (if \<not> check_magic d then Ok ()
      else
        rbind (get_u8 (sd_buf d) off) (\<lambda>m0. rbind (get_u8 (sd_buf d) (off + 1)) (\<lambda>m1.
        let magic = u16_of_le [m0, m1] in
        if magic \<noteq> XLOG_PAGE_MAGIC_PG16 then Err (BadPageMagic magic XLOG_PAGE_MAGIC_PG16)
        else
          rbind (get_u8 (sd_buf d) (off + 2)) (\<lambda>i0. rbind (get_u8 (sd_buf d) (off + 3)) (\<lambda>i1.
          if wal_seg_size d = 0 then Panic
          else if (lsn mod wal_seg_size d = 0) \<noteq> (u16_of_le [i0, i1] AND XLP_LONG_HEADER \<noteq> 0) then Ok ()
          else Ok ())))))"

text \<open>The page a position is on: all arithmetic on positions wraps at 64 bits, a multiple of the page size.\<close>

lemma blcksz: "XLOG_BLCKSZ = 8192"
  by (simp add: XLOG_BLCKSZ_def PAGE_SIZE_def)

lemma unat_mod_page: "unat (lsn mod 8192 :: u64) = unat lsn mod 8192"
  by (simp add: unat_mod)

lemma page_offset_less: "unat (lsn mod 8192 :: u64) < 8192"
  by (simp add: unat_mod_page)

lemma advance_less: "\<not> l < off + w \<Longrightarrow> 0 < w \<Longrightarrow> l - (off + w) < l - (off :: nat)"
  by simp

function collect_loop ::
  "WalStreamDecoder \<Rightarrow> nat \<Rightarrow> bytes \<Rightarrow> nat \<Rightarrow> u64 \<Rightarrow> u64 option \<Rightarrow>
   (WalDecodeError, (bytes \<times> nat \<times> u64) option) result" where
  "collect_loop d n out off lsn first_payload_lsn =
     (if length out < n then
        (if lsn mod of_nat XLOG_BLCKSZ = 0 then
           (case page_header_size d lsn of
              Ok h \<Rightarrow>
                (if off + h > length (sd_buf d) then Ok None
                 else
                   (case check_page_header d off lsn of
                      Ok _ \<Rightarrow> collect_loop d n out (off + h) (lsn + of_nat h) first_payload_lsn
                    | Err e \<Rightarrow> Err e
                    | Panic \<Rightarrow> Panic))
            | Err e \<Rightarrow> Err e
            | Panic \<Rightarrow> Panic)
         else
           (let page_remaining = XLOG_BLCKSZ - unat (lsn mod of_nat XLOG_BLCKSZ);
                want = min (n - length out) page_remaining
            in if off + want > length (sd_buf d) then Ok None
               else
                 (case get_bytes (sd_buf d) off want of
                    Ok bs \<Rightarrow> collect_loop d n (out @ bs) (off + want) (lsn + of_nat want)
                      (case first_payload_lsn of None \<Rightarrow> Some lsn | Some l \<Rightarrow> Some l)
                  | Err e \<Rightarrow> Err e
                  | Panic \<Rightarrow> Panic)))
      else Ok (Some (out, off, case first_payload_lsn of None \<Rightarrow> lsn | Some l \<Rightarrow> l)))"
  by pat_completeness auto
termination
  by (relation "measure (\<lambda>(d, _, _, off, _). length (sd_buf d) - off)")
     (auto simp: page_header_size_def SIZE_OF_XLOG_LONG_PHD_def SIZE_OF_XLOG_SHORT_PHD_def blcksz page_offset_less
       split: if_splits intro!: advance_less)

declare collect_loop.simps [simp del]

definition collect_payload :: "WalStreamDecoder \<Rightarrow> nat \<Rightarrow> (WalDecodeError, (bytes \<times> nat \<times> u64) option) result" where
  "collect_payload d n = collect_loop d n [] 0 (sd_lsn d) None"

definition consumed :: "nat \<Rightarrow> WalStreamDecoder \<Rightarrow> WalStreamDecoder" where
  "consumed raw d = d\<lparr>sd_buf := drop raw (sd_buf d), sd_lsn := sd_lsn d + of_nat raw\<rparr>"

definition consume :: "nat \<Rightarrow> WalStreamDecoder \<Rightarrow> (WalDecodeError, WalStreamDecoder) result" where
  "consume raw d = (if raw \<le> length (sd_buf d) then Ok (consumed raw d) else Panic)"

definition skip_padding :: "WalStreamDecoder \<Rightarrow> (WalDecodeError, WalStreamDecoder option) result" where
  "skip_padding d =
     (let misalign = unat (sd_lsn d mod 8) in
      if misalign \<noteq> 0 then
        (let pad = 8 - misalign in
         if pad > length (sd_buf d) then Ok None else rbind (consume pad d) (\<lambda>d1. Ok (Some d1)))
      else Ok (Some d))"

section \<open>The guards of the slices\<close>

text \<open>Every slice of the page walk and every drain is guarded, so that none of them panics.\<close>

lemma collect_loop_unfold:
  "collect_loop d n out off lsn first_payload_lsn =
     (if length out < n then
        (if lsn mod of_nat XLOG_BLCKSZ = 0 then
           (case page_header_size d lsn of
              Ok h \<Rightarrow>
                (if off + h > length (sd_buf d) then Ok None
                 else
                   (case check_page_header d off lsn of
                      Ok _ \<Rightarrow> collect_loop d n out (off + h) (lsn + of_nat h) first_payload_lsn
                    | Err e \<Rightarrow> Err e
                    | Panic \<Rightarrow> Panic))
            | Err e \<Rightarrow> Err e
            | Panic \<Rightarrow> Panic)
         else
           (let page_remaining = XLOG_BLCKSZ - unat (lsn mod of_nat XLOG_BLCKSZ);
                want = min (n - length out) page_remaining
            in if off + want > length (sd_buf d) then Ok None
               else collect_loop d n (out @ take want (drop off (sd_buf d))) (off + want) (lsn + of_nat want)
                      (case first_payload_lsn of None \<Rightarrow> Some lsn | Some l \<Rightarrow> Some l)))
      else Ok (Some (out, off, case first_payload_lsn of None \<Rightarrow> lsn | Some l \<Rightarrow> l)))"
  by (subst collect_loop.simps) (simp add: Let_def get_bytes_ok not_less cong: if_cong)

lemma collect_loop_induct [case_names 1]:
  assumes "\<And>d n out off lsn fp.
    \<lbrakk>\<And>h u. \<lbrakk>length out < n; lsn mod of_nat XLOG_BLCKSZ = 0; page_header_size d lsn = Ok h;
        \<not> length (sd_buf d) < off + h; check_page_header d off lsn = Ok u\<rbrakk>
        \<Longrightarrow> P d n out (off + h) (lsn + of_nat h) fp;
     \<And>rm want. \<lbrakk>length out < n; lsn mod of_nat XLOG_BLCKSZ \<noteq> 0; rm = XLOG_BLCKSZ - unat (lsn mod of_nat XLOG_BLCKSZ);
        want = min (n - length out) rm; \<not> length (sd_buf d) < off + want\<rbrakk>
        \<Longrightarrow> P d n (out @ take want (drop off (sd_buf d))) (off + want) (lsn + of_nat want)
              (case fp of None \<Rightarrow> Some lsn | Some l \<Rightarrow> Some l)\<rbrakk>
    \<Longrightarrow> P d n out off lsn fp"
  shows "P d n out off lsn fp"
proof (induction d n out off lsn fp rule: collect_loop.induct)
  case (1 d n out off lsn fp)
  show ?case
    by (rule assms, rule 1(1), assumption+, rule 1(2), assumption+) (simp add: get_bytes_def)
qed

lemma consume_guarded: "raw \<le> length (sd_buf d) \<Longrightarrow> consume raw d = Ok (consumed raw d)"
  by (simp add: consume_def)

definition skip_pad :: "WalStreamDecoder \<Rightarrow> WalStreamDecoder option" where
  "skip_pad d =
     (let misalign = unat (sd_lsn d mod 8) in
      if misalign \<noteq> 0 then
        (let pad = 8 - misalign in if pad > length (sd_buf d) then None else Some (consumed pad d))
      else Some d)"

lemma skip_padding_eq: "skip_padding d = Ok (skip_pad d)"
  by (simp add: skip_padding_def skip_pad_def consume_guarded Let_def)

section \<open>What the page walk returns\<close>

lemmas phd_sizes = SIZE_OF_XLOG_LONG_PHD_def SIZE_OF_XLOG_SHORT_PHD_def

lemma feed_simps [simp]:
  "sd_lsn (feed_bytes bs d) = sd_lsn d" "wal_seg_size (feed_bytes bs d) = wal_seg_size d"
  "check_magic (feed_bytes bs d) = check_magic d" "sd_buf (feed_bytes bs d) = sd_buf d @ bs"
  by (simp_all add: feed_bytes_def)

lemma consumed_simps [simp]:
  "sd_lsn (consumed raw d) = sd_lsn d + of_nat raw" "wal_seg_size (consumed raw d) = wal_seg_size d"
  "check_magic (consumed raw d) = check_magic d" "sd_buf (consumed raw d) = drop raw (sd_buf d)"
  by (simp_all add: consumed_def)

lemma consumed_0 [simp]: "consumed 0 d = d"
  by (simp add: consumed_def)

lemma page_header_size_feed [simp]: "page_header_size (feed_bytes bs d) lsn = page_header_size d lsn"
  by (simp add: page_header_size_def)

lemma page_header_size_min: "page_header_size d lsn = Ok h \<Longrightarrow> h = 24 \<or> h = 40"
  by (auto simp: page_header_size_def phd_sizes split: if_splits)

lemma check_page_header_feed:
  "off + 4 \<le> length (sd_buf d) \<Longrightarrow> check_page_header (feed_bytes bs d) off lsn = check_page_header d off lsn"
  by (simp add: check_page_header_def get_u8_def nth_append Let_def)

lemma check_page_header_no_panic:
  "off + 4 \<le> length (sd_buf d) \<Longrightarrow> wal_seg_size d \<noteq> 0 \<Longrightarrow> check_page_header d off lsn \<noteq> Panic"
  by (simp add: check_page_header_def get_u8_def Let_def)

text \<open>More bytes never change an answer that has been reached.\<close>

lemma collect_loop_feed:
  "collect_loop d n out off lsn fp \<noteq> Ok None \<Longrightarrow>
   collect_loop (feed_bytes bs d) n out off lsn fp = collect_loop d n out off lsn fp"
proof (induction d n out off lsn fp rule: collect_loop_induct)
  case (1 d n out off lsn fp)
  note unf = collect_loop_unfold [of d n out off lsn fp] collect_loop_unfold [of "feed_bytes bs d" n out off lsn fp]
  show ?case
  proof (cases "length out < n")
    case more: True
    show ?thesis
    proof (cases "lsn mod of_nat XLOG_BLCKSZ = 0")
      case True
      show ?thesis
      proof (cases "page_header_size d lsn")
        case (Ok h)
        have fits: "off + h \<le> length (sd_buf d)" using 1(3) more True Ok by (auto simp: unf split: if_splits)
        then have "off + 4 \<le> length (sd_buf d)" using page_header_size_min [OF Ok] by auto
        note chk = check_page_header_feed [OF this]
        show ?thesis
        proof (cases "check_page_header d off lsn")
          case c: (Ok u)
          have "collect_loop d n out (off + h) (lsn + of_nat h) fp \<noteq> Ok None"
            using 1(3) more True Ok fits c by (simp add: unf)
          then show ?thesis using more True Ok fits c chk 1(1) [OF more True Ok _ c] by (simp add: unf)
        qed (use more True Ok fits chk in \<open>simp_all add: unf\<close>)
      qed (use more True in \<open>simp_all add: unf\<close>)
    next
      case False
      let ?w = "min (n - length out) (XLOG_BLCKSZ - unat (lsn mod of_nat XLOG_BLCKSZ))"
      have fits: "\<not> length (sd_buf d) < off + ?w" using 1(3) more False by (auto simp: unf Let_def)
      have "take ?w (drop off (sd_buf d @ bs)) = take ?w (drop off (sd_buf d))" using fits by simp
      then show ?thesis using 1(3) more False fits 1(2) [OF more False refl refl fits]
        by (simp add: unf Let_def)
    qed
  qed (simp add: unf)
qed

lemma collect_loop_result:
  "collect_loop d n out off lsn fp = Ok (Some (res, raw, start)) \<Longrightarrow> off \<le> length (sd_buf d) \<Longrightarrow>
   off + (n - length out) \<le> raw \<and> raw \<le> length (sd_buf d) \<and>
   (length out \<le> n \<longrightarrow> length res = n) \<and> (\<forall>l. fp = Some l \<longrightarrow> start = l)"
proof (induction d n out off lsn fp rule: collect_loop_induct)
  case (1 d n out off lsn fp)
  note unf = collect_loop_unfold [of d n out off lsn fp]
  show ?case
  proof (cases "length out < n")
    case more: True
    show ?thesis
    proof (cases "lsn mod of_nat XLOG_BLCKSZ = 0")
      case True
      obtain h where h: "page_header_size d lsn = Ok h" "\<not> length (sd_buf d) < off + h"
        "check_page_header d off lsn = Ok ()"
        "collect_loop d n out (off + h) (lsn + of_nat h) fp = Ok (Some (res, raw, start))"
        using 1(3) more True by (auto simp: unf split: result.splits if_splits)
      show ?thesis using 1(1) [OF more True h(1) h(2) h(3) h(4)] h(2) by auto
    next
      case False
      let ?w = "min (n - length out) (XLOG_BLCKSZ - unat (lsn mod of_nat XLOG_BLCKSZ))"
      have fits: "\<not> length (sd_buf d) < off + ?w" using 1(3) more False by (auto simp: unf Let_def split: if_splits)
      then have "length (take ?w (drop off (sd_buf d))) = ?w" by simp
      then show ?thesis using 1(3) more False fits 1(2) [OF more False refl refl fits]
        by (auto simp: unf Let_def split: option.splits)
    qed
  qed (use 1(3,4) in \<open>auto simp: unf split: option.splits\<close>)
qed

lemma page_step:
  assumes "lsn mod 8192 = (0 :: u64)" "h = 24 \<or> h = 40"
  shows "(lsn + of_nat h) mod 8192 \<noteq> 0" "(lsn + of_nat h) div 8192 = lsn div 8192"
    "unat ((lsn + of_nat h) mod 8192) = h"
proof -
  have u: "unat lsn mod 8192 = 0" using assms(1) unat_mod_page [of lsn] by simp
  then obtain q where q: "unat lsn = 8192 * q" by (metis mod_0_imp_dvd dvdE)
  then have "q < 2251799813685248" using unat_bounds(4) [of lsn] by linarith
  with q have "unat lsn + 40 < 18446744073709551616" by linarith
  then have s: "unat (lsn + of_nat h) = unat lsn + h" using assms(2) by (auto simp: unat_word_ariths unat_of_nat)
  then show *: "unat ((lsn + of_nat h) mod 8192) = h" using q assms(2) by (auto simp: unat_mod_page)
  have "h \<noteq> 0" using assms(2) by auto
  with * show "(lsn + of_nat h) mod 8192 \<noteq> 0" by (metis unsigned_0)
  have "(unat lsn + h) div 8192 = unat lsn div 8192" using q assms(2) by auto
  then show "(lsn + of_nat h) div 8192 = lsn div 8192" by (simp add: word_unat_eq_iff unat_div s)
qed

text \<open>Where the first payload byte at or after a position lies: past the page header, if one starts there.\<close>

definition payload_start :: "u64 \<Rightarrow> u64 \<Rightarrow> u64" where
  "payload_start seg lsn =
     (if lsn mod 8192 = 0
      then lsn + of_nat (if lsn mod seg = 0 then SIZE_OF_XLOG_LONG_PHD else SIZE_OF_XLOG_SHORT_PHD) else lsn)"

lemma payload_start_page: "payload_start seg lsn div 8192 = lsn div 8192"
  by (simp add: payload_start_def page_step phd_sizes)

lemma collect_payload_start:
  assumes "collect_payload d n = Ok (Some (r, raw, start))" "0 < n"
  shows "start = payload_start (wal_seg_size d) (sd_lsn d)"
proof -
  have plain: "start = l" if "l mod 8192 \<noteq> 0" "collect_loop d n [] off l None = Ok (Some (r, raw, start))"
    "off \<le> length (sd_buf d)" for off l
    using that assms(2) collect_loop_result [of d n _ _ _ "Some l" r raw start]
    by (subst (asm) collect_loop_unfold) (auto simp: blcksz Let_def split: if_splits)
  show ?thesis
  proof (cases "sd_lsn d mod 8192 = 0")
    case True
    obtain h where h: "page_header_size d (sd_lsn d) = Ok h" "h \<le> length (sd_buf d)"
      "collect_loop d n [] h (sd_lsn d + of_nat h) None = Ok (Some (r, raw, start))"
      using assms True unfolding collect_payload_def
      by (subst (asm) collect_loop_unfold) (auto simp: blcksz split: result.splits if_splits)
    have "start = sd_lsn d + of_nat h"
      using plain [OF _ h(3,2)] page_step(1) [OF True page_header_size_min [OF h(1)]] by simp
    then show ?thesis using h(1) True by (auto simp: payload_start_def page_header_size_def split: if_splits)
  next
    case False
    then show ?thesis using plain [of "sd_lsn d" 0] assms(1) by (simp add: payload_start_def collect_payload_def)
  qed
qed

lemma next_page_skip:
  "unat ((lsn div 8192 + 1) * 8192 - lsn :: u64) = 8192 - unat (lsn mod 8192)"
proof -
  have "(lsn div 8192 + 1) * 8192 - lsn = 8192 - lsn mod (8192 :: u64)"
    using div_mult_mod_eq [of lsn 8192] by (simp add: algebra_simps)
  also have "unat \<dots> = 8192 - unat (lsn mod 8192)"
    using page_offset_less [of lsn] by (subst unat_sub) (auto simp: word_le_nat_alt)
  finally show ?thesis .
qed

lemma skip_padding_length: "skip_pad d = Some d' \<Longrightarrow> length (sd_buf d') \<le> length (sd_buf d)"
  by (auto simp: skip_pad_def Let_def split: if_splits)

section \<open>Polling\<close>

lemma skip_positive:
  assumes "collect_payload d 4 = Ok (Some (r, raw, start))"
  shows "0 < unat ((start div 8192 + 1) * 8192 - sd_lsn d)"
proof -
  have "start div 8192 = sd_lsn d div 8192"
    using collect_payload_start [OF assms] by (simp add: payload_start_page)
  then show ?thesis using next_page_skip [of "sd_lsn d"] page_offset_less [of "sd_lsn d"] by simp
qed

lemma skip_shortens:
  assumes "skip_pad d0 = Some d" "collect_payload d 4 = Ok (Some (r, raw, start))"
    "\<not> length (sd_buf d) < unat ((start div of_nat XLOG_BLCKSZ + 1) * of_nat XLOG_BLCKSZ - sd_lsn d)"
  shows "length (sd_buf (consumed (unat ((start div of_nat XLOG_BLCKSZ + 1) * of_nat XLOG_BLCKSZ - sd_lsn d)) d))
    < length (sd_buf d0)"
  using skip_positive [OF assms(2)] skip_padding_length [OF assms(1)] assms(3) by (simp add: blcksz)

text \<open>
  A zero or sub-header length marks the end of the valid records on a page; the loop then goes on at the
  next page.  It ends because the rest of a page is never empty.
\<close>

function poll_decode ::
  "WalStreamDecoder \<Rightarrow> (WalDecodeError, (Lsn \<times> bytes) option) result \<times> WalStreamDecoder" where
  "poll_decode d0 =
     (case skip_padding d0 of
        Ok None \<Rightarrow> (Ok None, d0)
      | Ok (Some d) \<Rightarrow>
          (case collect_payload d 4 of
             Ok (Some (len_bytes, _, rec_lsn)) \<Rightarrow>
               (case get_bytes len_bytes 0 4 of
                  Ok lb \<Rightarrow>
                    (let xl_tot_len = u32_of_le lb in
                     if unat xl_tot_len < SIZE_OF_XLOG_RECORD then
                       (let next_page = (rec_lsn div of_nat XLOG_BLCKSZ + 1) * of_nat XLOG_BLCKSZ;
                            skip = unat (next_page - sd_lsn d)
                        in if skip > length (sd_buf d) then (Ok None, d)
                           else case consume skip d of
                                  Ok d1 \<Rightarrow> poll_decode d1
                                | Err e \<Rightarrow> (Err e, d)
                                | Panic \<Rightarrow> (Panic, d))
                     else
                       (case collect_payload d (unat xl_tot_len) of
                          Ok (Some (r, raw, rec_lsn)) \<Rightarrow>
                            (case consume raw d of
                               Ok d1 \<Rightarrow> (Ok (Some (rec_lsn, r)), d1)
                             | Err e \<Rightarrow> (Err e, d)
                             | Panic \<Rightarrow> (Panic, d))
                        | Ok None \<Rightarrow> (Ok None, d)
                        | Err e \<Rightarrow> (Err e, d)
                        | Panic \<Rightarrow> (Panic, d)))
                | Err e \<Rightarrow> (Err e, d)
                | Panic \<Rightarrow> (Panic, d))
           | Ok None \<Rightarrow> (Ok None, d)
           | Err e \<Rightarrow> (Err e, d)
           | Panic \<Rightarrow> (Panic, d))
      | Err e \<Rightarrow> (Err e, d0)
      | Panic \<Rightarrow> (Panic, d0))"
  by pat_completeness auto
termination
  by (relation "measure (\<lambda>d. length (sd_buf d))")
     (auto simp: skip_padding_eq consume_guarded simp del: consumed_simps intro!: skip_shortens)

declare poll_decode.simps [simp del]

lemma collect_payload_length:
  "collect_payload d n = Ok (Some (r, raw, start)) \<Longrightarrow> length r = n \<and> raw \<le> length (sd_buf d)"
  using collect_loop_result [of d n "[]" 0] by (auto simp: collect_payload_def)

lemma poll_decode_unfold:
  "poll_decode d0 =
     (case skip_pad d0 of
        None \<Rightarrow> (Ok None, d0)
      | Some d \<Rightarrow>
          (case collect_payload d 4 of
             Ok (Some (len_bytes, _, rec_lsn)) \<Rightarrow>
               (let xl_tot_len = u32_of_le len_bytes in
                if unat xl_tot_len < SIZE_OF_XLOG_RECORD then
                  (let next_page = (rec_lsn div of_nat XLOG_BLCKSZ + 1) * of_nat XLOG_BLCKSZ;
                       skip = unat (next_page - sd_lsn d)
                   in if skip > length (sd_buf d) then (Ok None, d)
                      else poll_decode (consumed skip d))
                else
                  (case collect_payload d (unat xl_tot_len) of
                     Ok (Some (r, raw, rec_lsn)) \<Rightarrow> (Ok (Some (rec_lsn, r)), consumed raw d)
                   | Ok None \<Rightarrow> (Ok None, d)
                   | Err e \<Rightarrow> (Err e, d)
                   | Panic \<Rightarrow> (Panic, d)))
           | Ok None \<Rightarrow> (Ok None, d)
           | Err e \<Rightarrow> (Err e, d)
           | Panic \<Rightarrow> (Panic, d)))"
proof (cases "skip_pad d0")
  case None
  then show ?thesis by (subst poll_decode.simps) (simp add: skip_padding_eq)
next
  case (Some d)
  note unf = poll_decode.simps [of d0] skip_padding_eq Some
  show ?thesis
  proof (cases "collect_payload d 4")
    case (Ok m)
    show ?thesis
    proof (cases m)
      case None
      then show ?thesis using Ok by (simp add: unf)
    next
      case m: (Some t)
      obtain r raw l where t: "t = (r, raw, l)" by (cases t)
      have c: "collect_payload d 4 = Ok (Some (r, raw, l))" using Ok m t by simp
      have lb: "get_bytes r 0 4 = Ok r" using collect_payload_length [OF c] by (simp add: get_bytes_def)
      have skip: "(if length (sd_buf d) < k then (Ok None, d)
            else case consume k d of Ok d1 \<Rightarrow> poll_decode d1 | Err e \<Rightarrow> (Err e, d) | Panic \<Rightarrow> (Panic, d)) =
          (if length (sd_buf d) < k then (Ok None, d) else poll_decode (consumed k d))" for k
        by (simp add: consume_guarded)
      have whole: "(case collect_payload d n of
            Ok None \<Rightarrow> (Ok None, d)
          | Ok (Some (r, raw, rec_lsn)) \<Rightarrow>
              (case consume raw d of Ok d1 \<Rightarrow> (Ok (Some (rec_lsn, r)), d1) | Err e \<Rightarrow> (Err e, d) | Panic \<Rightarrow> (Panic, d))
          | Err e \<Rightarrow> (Err e, d) | Panic \<Rightarrow> (Panic, d)) =
          (case collect_payload d n of
            Ok None \<Rightarrow> (Ok None, d) | Ok (Some (r, raw, rec_lsn)) \<Rightarrow> (Ok (Some (rec_lsn, r)), consumed raw d)
          | Err e \<Rightarrow> (Err e, d) | Panic \<Rightarrow> (Panic, d))" for n
        using collect_payload_length [of d n] by (auto simp: consume_guarded split: result.split option.split)
      show ?thesis by (simp only: unf c lb result.case option.case prod.case Let_def skip whole)
    qed
  qed (simp_all add: unf)
qed

lemma poll_decode_induct [case_names 1]:
  assumes "\<And>d0. \<lbrakk>\<And>d lb raw rec_lsn xl_tot_len next_page skip.
      \<lbrakk>skip_pad d0 = Some d; collect_payload d 4 = Ok (Some (lb, raw, rec_lsn)); xl_tot_len = u32_of_le lb;
       unat xl_tot_len < SIZE_OF_XLOG_RECORD; next_page = (rec_lsn div of_nat XLOG_BLCKSZ + 1) * of_nat XLOG_BLCKSZ;
       skip = unat (next_page - sd_lsn d); \<not> length (sd_buf d) < skip\<rbrakk> \<Longrightarrow> P (consumed skip d)\<rbrakk> \<Longrightarrow> P d0"
  shows "P d"
proof (induction d rule: poll_decode.induct)
  case (1 d0)
  show ?case
  proof (rule assms)
    fix d lb raw rec_lsn xl_tot_len next_page skip
    assume a: "skip_pad d0 = Some d" "collect_payload d 4 = Ok (Some (lb, raw, rec_lsn))" "xl_tot_len = u32_of_le lb"
      "unat xl_tot_len < SIZE_OF_XLOG_RECORD" "next_page = (rec_lsn div of_nat XLOG_BLCKSZ + 1) * of_nat XLOG_BLCKSZ"
      "skip = unat (next_page - sd_lsn d)" "\<not> length (sd_buf d) < skip"
    have "get_bytes lb 0 4 = Ok lb" using collect_payload_length [OF a(2)] by (simp add: get_bytes_def)
    moreover have "consume skip d = Ok (consumed skip d)" using a(7) by (simp add: consume_guarded)
    ultimately show "P (consumed skip d)"
      using a skip_padding_eq [of d0] by (metis 1)
  qed
qed

text \<open>\<open>poll_all\<close> is the caller's loop: poll until the decoder wants more bytes or fails.\<close>

lemma poll_decode_shortens:
  "poll_decode d = (Ok (Some x), d') \<Longrightarrow> length (sd_buf d') < length (sd_buf d)"
proof (induction d rule: poll_decode_induct)
  case (1 d0)
  then obtain d where d: "skip_pad d0 = Some d" by (cases "skip_pad d0") (auto simp: poll_decode_unfold)
  have le: "length (sd_buf d) \<le> length (sd_buf d0)" using skip_padding_length [OF d] .
  obtain a b c where c: "collect_payload d 4 = Ok (Some (a, b, c))"
    using "1.prems" d by (auto simp: poll_decode_unfold [of d0] split: result.splits option.splits)
  show ?case
  proof (cases "unat (u32_of_le a) < SIZE_OF_XLOG_RECORD")
    case True
    then show ?thesis
      using "1.prems" d c "1.IH" [OF d c refl True refl refl] skip_shortens [OF d c]
      by (auto simp: poll_decode_unfold [of d0] Let_def split: if_splits)
  next
    case False
    then obtain r raw l where r: "collect_payload d (unat (u32_of_le a)) = Ok (Some (r, raw, l))" "d' = consumed raw d"
      using "1.prems" d c by (auto simp: poll_decode_unfold [of d0] Let_def split: result.splits option.splits)
    then have "unat (u32_of_le a) \<le> raw" "raw \<le> length (sd_buf d)"
      using collect_loop_result [of d "unat (u32_of_le a)" "[]" 0 _ None r raw l] by (simp_all add: collect_payload_def)
    then show ?thesis using False r(2) le by (simp add: SIZE_OF_XLOG_RECORD_def)
  qed
qed

function poll_all ::
  "WalStreamDecoder \<Rightarrow> (Lsn \<times> bytes) list \<times> (WalDecodeError, unit) result \<times> WalStreamDecoder" where
  "poll_all d =
     (case poll_decode d of
        (Ok (Some x), d') \<Rightarrow> (case poll_all d' of (xs, r, d'') \<Rightarrow> (x # xs, r, d''))
      | (Ok None, d') \<Rightarrow> ([], Ok (), d')
      | (Err e, d') \<Rightarrow> ([], Err e, d')
      | (Panic, d') \<Rightarrow> ([], Panic, d'))"
  by pat_completeness auto
termination
  by (relation "measure (\<lambda>d. length (sd_buf d))") (auto intro: poll_decode_shortens [OF sym])

declare poll_all.simps [simp del]

function ingest_wal_loop ::
  "codecs \<Rightarrow> WalStreamDecoder \<Rightarrow> nat \<Rightarrow> Inner \<Rightarrow> (WalDecodeError, nat) result \<times> Inner" where
  "ingest_wal_loop cs decoder n repo =
     (case poll_decode decoder of
        (Ok (Some (lsn, r)), decoder') \<Rightarrow>
          (case ingest_record cs lsn r repo of
             Ok repo' \<Rightarrow> ingest_wal_loop cs decoder' (n + 1) repo'
           | Err e \<Rightarrow> (Err e, repo)
           | Panic \<Rightarrow> (Panic, repo))
      | (Ok None, _) \<Rightarrow> (Ok n, repo)
      | (Err e, _) \<Rightarrow> (Err e, repo)
      | (Panic, _) \<Rightarrow> (Panic, repo))"
  by pat_completeness auto
termination
  by (relation "measure (\<lambda>(_, d, _, _). length (sd_buf d))") (auto intro: poll_decode_shortens [OF sym])

declare ingest_wal_loop.simps [simp del]

definition ingest_wal :: "codecs \<Rightarrow> Lsn \<Rightarrow> bytes \<Rightarrow> Inner \<Rightarrow> (WalDecodeError, nat) result \<times> Inner" where
  "ingest_wal cs start_lsn wal repo = ingest_wal_loop cs (feed_bytes wal (decoder_new start_lsn)) 0 repo"

section \<open>Chunks\<close>

lemma feed_feed [simp]: "feed_bytes b (feed_bytes a d) = feed_bytes (a @ b) d"
  by (simp add: feed_bytes_def)

lemma consumed_feed: "raw \<le> length (sd_buf d) \<Longrightarrow> consumed raw (feed_bytes b d) = feed_bytes b (consumed raw d)"
  by (simp add: consumed_def feed_bytes_def)

lemma skip_padding_feed: "skip_pad d = Some d' \<Longrightarrow> skip_pad (feed_bytes b d) = Some (feed_bytes b d')"
  by (auto simp: skip_pad_def Let_def consumed_feed split: if_splits)

lemma collect_payload_feed:
  "collect_payload d n \<noteq> Ok None \<Longrightarrow> collect_payload (feed_bytes b d) n = collect_payload d n"
  unfolding collect_payload_def feed_simps(1) by (rule collect_loop_feed)

lemma collect_payload_raw: "collect_payload d n = Ok (Some (r, raw, l)) \<Longrightarrow> n \<le> raw \<and> raw \<le> length (sd_buf d) \<and> length r = n"
  using collect_loop_result [of d n "[]" 0 _ None r raw l] by (simp add: collect_payload_def)

lemma padded_aligned: "unat ((x + of_nat (8 - unat (x mod 8))) mod 8 :: u64) = 0"
proof -
  have "unat (x mod 8) < 8" by (simp add: unat_mod)
  then have "of_nat (8 - unat (x mod 8)) = 8 - x mod 8" by (simp add: of_nat_diff)
  moreover have "x + (8 - x mod 8) = (x div 8 + 1) * 8"
    using div_mult_mod_eq [of x 8] by (simp add: algebra_simps)
  ultimately have "unat (x + of_nat (8 - unat (x mod 8))) mod 8 = 0"
    by (simp only: unat_word_ariths) (simp add: mod_mod_cancel)
  then show ?thesis by (simp add: unat_mod)
qed

lemma skip_padding_idem: "skip_pad d = Some d' \<Longrightarrow> skip_pad d' = Some d'"
  by (auto simp: skip_pad_def Let_def padded_aligned split: if_splits)

text \<open>
  One poll: an answer stays the same when more bytes follow, and after an unsuccessful poll the decoder,
  which may have skipped padding or a page tail, behaves as if it had been left alone.
\<close>

lemma poll_decode_feed:
  "fst (poll_decode d) \<noteq> Ok None \<Longrightarrow>
     poll_decode (feed_bytes b d) = (fst (poll_decode d), feed_bytes b (snd (poll_decode d)))"
  "poll_decode d = (Ok None, d') \<Longrightarrow> poll_decode (feed_bytes b d') = poll_decode (feed_bytes b d)"
proof (induction d rule: poll_decode_induct)
  case (1 d0)
  note unf = poll_decode_unfold [of d0] poll_decode_unfold [of "feed_bytes b d0"]
  { case 1
    then obtain d where d: "skip_pad d0 = Some d" by (cases "skip_pad d0") (auto simp: unf)
    note fd = skip_padding_feed [OF d, of b]
    have c4: "collect_payload d 4 \<noteq> Ok None" using 1 d by (auto simp: unf)
    note f4 = collect_payload_feed [OF c4, of b]
    show ?case
    proof (cases "collect_payload d 4")
      case (Ok m)
      then obtain p q l where m: "collect_payload d 4 = Ok (Some (p, q, l))" using c4 by (cases m) auto
      let ?skip = "unat ((l div of_nat XLOG_BLCKSZ + 1) * of_nat XLOG_BLCKSZ - sd_lsn d)"
      show ?thesis
      proof (cases "unat (u32_of_le p) < SIZE_OF_XLOG_RECORD")
        case True
        have fits: "\<not> length (sd_buf d) < ?skip" using 1 d m True by (auto simp: unf Let_def)
        then show ?thesis
          using 1 d fd m f4 True "1.IH"(1) [OF d m refl True refl refl fits]
          by (simp add: unf Let_def consumed_feed)
      next
        case False
        then have "collect_payload d (unat (u32_of_le p)) \<noteq> Ok None" using 1 d m by (auto simp: unf Let_def)
        note f5 = collect_payload_feed [OF this, of b]
        show ?thesis
          using 1 d fd m f4 f5 False
          by (auto simp: unf Let_def consumed_feed split: result.splits option.splits dest!: collect_payload_raw)
      qed
    qed (use 1 d fd f4 in \<open>simp_all add: unf\<close>)
  }
  { case 2
    show ?case
    proof (cases "skip_pad d0")
      case (Some d)
      have same: "poll_decode (feed_bytes b d) = poll_decode (feed_bytes b d0)"
        using skip_padding_feed [OF Some, of b] skip_padding_feed [OF skip_padding_idem [OF Some], of b]
        by (simp add: poll_decode_unfold [of "feed_bytes b d"] poll_decode_unfold [of "feed_bytes b d0"])
      show ?thesis
      proof (cases "d' = d")
        case False
        then obtain p q l where m: "collect_payload d 4 = Ok (Some (p, q, l))"
            and t: "unat (u32_of_le p) < SIZE_OF_XLOG_RECORD"
          using 2 Some by (auto simp: unf Let_def split: result.splits option.splits if_splits)
        let ?skip = "unat ((l div of_nat XLOG_BLCKSZ + 1) * of_nat XLOG_BLCKSZ - sd_lsn d)"
        have fits: "\<not> length (sd_buf d) < ?skip" using 2 Some m t False by (auto simp: unf Let_def)
        have "poll_decode (feed_bytes b d') = poll_decode (feed_bytes b (consumed ?skip d))"
          using 2 Some m t fits "1.IH"(2) [OF Some m refl t refl refl fits] by (simp add: unf Let_def)
        moreover have "poll_decode (feed_bytes b d0) = poll_decode (feed_bytes b (consumed ?skip d))"
          using skip_padding_feed [OF Some, of b] m t fits collect_payload_feed [of d 4 b] 
          by (simp add: poll_decode_unfold [of "feed_bytes b d0"] Let_def consumed_feed)
        ultimately show ?thesis by simp
      qed (simp add: same)
    qed (use 2 in \<open>simp add: unf\<close>)
  }
qed

lemma poll_all_feed_Ok:
  "poll_all d = (xs, Ok (), d') \<Longrightarrow>
   poll_all (feed_bytes b d) = (case poll_all (feed_bytes b d') of (ys, r, d'') \<Rightarrow> (xs @ ys, r, d''))"
proof (induction d arbitrary: xs rule: poll_all.induct)
  case (1 d)
  obtain m d1 where p: "poll_decode d = (m, d1)" by (cases "poll_decode d")
  show ?case
  proof (cases m)
    case (Ok opt)
    show ?thesis
    proof (cases opt)
      case None
      then have "d' = d1" "xs = []" "poll_decode d = (Ok None, d1)"
        using "1.prems" p Ok by (simp_all add: poll_all.simps [of d])
      then show ?thesis using poll_decode_feed(2) [of d d1 b]
        by (simp add: poll_all.simps [of "feed_bytes b d"] poll_all.simps [of "feed_bytes b d1"] split: prod.splits)
    next
      case (Some x)
      obtain ys where ys: "poll_all d1 = (ys, Ok (), d')" "xs = x # ys"
        using "1.prems" p Ok Some by (auto simp: poll_all.simps [of d] split: prod.splits)
      show ?thesis
        using "1.IH" [of "Ok (Some x)" d1 "Some x" x, OF _ _ _ ys(1)] p Ok Some ys(2) poll_decode_feed(1) [of d b]
        by (simp add: poll_all.simps [of "feed_bytes b d"] split: prod.splits)
    qed
  qed (use "1.prems" p in \<open>simp_all add: poll_all.simps [of d]\<close>)
qed

lemma poll_all_feed_Err:
  "poll_all d = (xs, r, d') \<Longrightarrow> r \<noteq> Ok () \<Longrightarrow> poll_all (feed_bytes b d) = (xs, r, feed_bytes b d')"
proof (induction d arbitrary: xs rule: poll_all.induct)
  case (1 d)
  obtain m d1 where p: "poll_decode d = (m, d1)" by (cases "poll_decode d")
  show ?case
  proof (cases m)
    case (Ok opt)
    with 1(2,3) p obtain x where x: "opt = Some x" by (cases opt) (auto simp: poll_all.simps [of d])
    obtain ys where ys: "poll_all d1 = (ys, r, d')" "xs = x # ys"
      using "1.prems" p Ok x by (auto simp: poll_all.simps [of d] split: prod.splits)
    show ?thesis
      using "1.IH" [of "Ok (Some x)" d1 "Some x" x, OF _ _ _ ys(1)] 1(3) p Ok x ys(2) poll_decode_feed(1) [of d b]
      by (simp add: poll_all.simps [of "feed_bytes b d"])
  qed (use "1.prems" p poll_decode_feed(1) [of d b] in \<open>auto simp: poll_all.simps [of d] poll_all.simps [of "feed_bytes b d"]\<close>)
qed

text \<open>A receiver that is fed chunk by chunk and polls after each, stopping at the first error.\<close>

fun poll_chunks ::
  "WalStreamDecoder \<Rightarrow> bytes list \<Rightarrow> (Lsn \<times> bytes) list \<times> (WalDecodeError, unit) result" where
  "poll_chunks d [] = ([], Ok ())"
| "poll_chunks d (c # cs) =
     (case poll_all (feed_bytes c d) of
        (xs, Ok _, d') \<Rightarrow> (case poll_chunks d' cs of (ys, r) \<Rightarrow> (xs @ ys, r))
      | (xs, r, _) \<Rightarrow> (xs, r))"

lemma poll_chunks_one_shot:
  "poll_chunks d (c # cs) =
     (case poll_all (feed_bytes (concat (c # cs)) d) of (xs, r, _) \<Rightarrow> (xs, r))"
proof (induction cs arbitrary: d c)
  case Nil
  obtain xs r d' where "poll_all (feed_bytes c d) = (xs, r, d')" by (cases "poll_all (feed_bytes c d)")
  then show ?case by (cases r) auto
next
  case (Cons c2 cs)
  obtain xs r d' where p: "poll_all (feed_bytes c d) = (xs, r, d')" by (cases "poll_all (feed_bytes c d)")
  show ?case
  proof (cases r)
    case (Ok u)
    then show ?thesis
      using p Cons.IH [of d' c2] poll_all_feed_Ok [of "feed_bytes c d" xs d' "concat (c2 # cs)"]
      by (simp split: prod.splits)
  qed (use p poll_all_feed_Err [of "feed_bytes c d" xs r d' "concat (c2 # cs)"] in simp_all)
qed

section \<open>The page layout\<close>

text \<open>
  The writer's side of the format: payload bytes one after the other, a page header wherever a byte
  would start a page, records aligned to eight bytes, and possibly pages filled up with zeros.  The
  contents of a header beyond its magic and its size are left open.
\<close>

definition header_ok :: "u64 \<Rightarrow> (u64 \<Rightarrow> bytes) \<Rightarrow> bool" where
  "header_ok seg hdr \<longleftrightarrow>
     (\<forall>lsn. length (hdr lsn) = (if lsn mod seg = 0 then SIZE_OF_XLOG_LONG_PHD else SIZE_OF_XLOG_SHORT_PHD) \<and>
        take 2 (hdr lsn) = u16_to_le XLOG_PAGE_MAGIC_PG16)"

fun lay_out :: "(u64 \<Rightarrow> bytes) \<Rightarrow> u64 \<Rightarrow> bytes \<Rightarrow> bytes" where
  "lay_out hdr lsn [] = []"
| "lay_out hdr lsn (b # bs) =
     (if lsn mod 8192 = 0 then hdr lsn @ b # lay_out hdr (lsn + of_nat (length (hdr lsn)) + 1) bs
      else b # lay_out hdr (lsn + 1) bs)"

datatype WalItem = RecordItem bytes | FillPage

definition align_pad :: "u64 \<Rightarrow> nat" where
  "align_pad lsn = (if unat (lsn mod 8) \<noteq> 0 then 8 - unat (lsn mod 8) else 0)"

definition fill_page :: "(u64 \<Rightarrow> bytes) \<Rightarrow> u64 \<Rightarrow> bytes" where
  "fill_page hdr lsn =
     (if lsn mod 8192 = 0 then hdr lsn @ replicate (8192 - length (hdr lsn)) 0
      else replicate (8192 - unat (lsn mod 8192)) 0)"

fun write_item :: "(u64 \<Rightarrow> bytes) \<Rightarrow> u64 \<Rightarrow> WalItem \<Rightarrow> bytes" where
  "write_item hdr lsn (RecordItem r) = lay_out hdr lsn r"
| "write_item hdr lsn FillPage = fill_page hdr lsn"

fun write_stream :: "(u64 \<Rightarrow> bytes) \<Rightarrow> u64 \<Rightarrow> WalItem list \<Rightarrow> bytes" where
  "write_stream hdr lsn [] = []"
| "write_stream hdr lsn (it # its) =
     (let l = lsn + of_nat (align_pad lsn); w = write_item hdr l it
      in replicate (align_pad lsn) 0 @ w @ write_stream hdr (l + of_nat (length w)) its)"

fun stream_records :: "u64 \<Rightarrow> (u64 \<Rightarrow> bytes) \<Rightarrow> u64 \<Rightarrow> WalItem list \<Rightarrow> (Lsn \<times> bytes) list" where
  "stream_records seg hdr lsn [] = []"
| "stream_records seg hdr lsn (it # its) =
     (let l = lsn + of_nat (align_pad lsn); w = write_item hdr l it
      in (case it of RecordItem r \<Rightarrow> [(payload_start seg l, r)] | FillPage \<Rightarrow> [])
         @ stream_records seg hdr (l + of_nat (length w)) its)"

fun item_ok :: "WalItem \<Rightarrow> bool" where
  "item_ok (RecordItem r) \<longleftrightarrow> SIZE_OF_XLOG_RECORD \<le> length r \<and> unat (u32_of_le (take 4 r)) = length r"
| "item_ok FillPage \<longleftrightarrow> True"

lemma lay_out_plain:
  "lsn mod 8192 \<noteq> 0 \<Longrightarrow> k \<le> length bs \<Longrightarrow> k \<le> 8192 - unat (lsn mod 8192) \<Longrightarrow>
   lay_out hdr lsn bs = take k bs @ lay_out hdr (lsn + of_nat k) (drop k bs)"
proof (induction k arbitrary: lsn bs)
  case (Suc k)
  obtain b bs' where bs: "bs = b # bs'" using Suc.prems by (cases bs) auto
  have u: "unat lsn mod 8192 \<noteq> 0" using Suc.prems(1) by (metis unat_mod_page unsigned_0 word_unat_eq_iff)
  show ?case
  proof (cases "k = 0")
    case False
    have k: "k + 1 \<le> 8192 - unat lsn mod 8192" using Suc.prems(3) by (simp add: unat_mod_page)
    have "unat (lsn + 1) mod 8192 = (unat lsn + 1) mod 8192"
      by (simp only: unat_word_ariths) (simp add: mod_mod_cancel mod_Suc_eq)
    also have "\<dots> = unat lsn mod 8192 + 1" using k False by (simp add: mod_Suc)
    finally have s: "unat ((lsn + 1) mod 8192) = unat lsn mod 8192 + 1" by (simp add: unat_mod_page)
    then have "(lsn + 1) mod 8192 \<noteq> 0" by (metis unsigned_0 add_is_0 one_neq_zero)
    moreover have "k \<le> 8192 - unat ((lsn + 1) mod 8192)" using s k by simp
    ultimately show ?thesis
      using Suc.IH [of "lsn + 1" bs'] Suc.prems(1,2) bs by (simp add: add_ac)
  qed (use Suc.prems(1) bs in simp)
qed simp

lemma header_ok_size:
  "header_ok (wal_seg_size d) hdr \<Longrightarrow> wal_seg_size d \<noteq> 0 \<Longrightarrow> page_header_size d lsn = Ok (length (hdr lsn))"
  by (simp add: header_ok_def page_header_size_def)

lemma header_ok_length: "header_ok seg hdr \<Longrightarrow> length (hdr lsn) = 24 \<or> length (hdr lsn) = 40"
  by (simp add: header_ok_def phd_sizes)

lemma header_ok_check:
  assumes "header_ok (wal_seg_size d) hdr" "wal_seg_size d \<noteq> 0" "drop off (sd_buf d) = hdr lsn @ rest"
  shows "check_page_header d off lsn = Ok ()"
proof -
  have len: "2 \<le> length (hdr lsn)" "4 \<le> length (hdr lsn)" using header_ok_length [OF assms(1), of lsn] by auto
  have "length (drop off (sd_buf d)) = length (hdr lsn) + length rest" using assms(3) by simp
  then have off: "off + 4 \<le> length (sd_buf d)" using len by simp
  have "take 2 (drop off (sd_buf d)) = [sd_buf d ! off, sd_buf d ! (off + 1)]"
    using off by (intro nth_equalityI) (auto simp: less_Suc_eq numeral_2_eq_2)
  moreover have "take 2 (drop off (sd_buf d)) = u16_to_le XLOG_PAGE_MAGIC_PG16"
    using assms(1,3) len by (simp add: header_ok_def)
  ultimately have "u16_of_le [sd_buf d ! off, sd_buf d ! (off + 1)] = XLOG_PAGE_MAGIC_PG16"
    by (metis of_le_to_le(1))
  then show ?thesis using off assms(2) by (simp add: check_page_header_def get_u8_def Let_def)
qed

lemma lay_out_header:
  assumes "lsn mod 8192 = 0" "header_ok seg hdr" "bs \<noteq> []"
  shows "lay_out hdr lsn bs = hdr lsn @ lay_out hdr (lsn + of_nat (length (hdr lsn))) bs"
  using page_step(1) [OF assms(1) header_ok_length [OF assms(2), of lsn]] assms by (cases bs) simp_all

lemma drop_append_off: "drop off xs = ys @ zs \<Longrightarrow> drop (off + length ys) xs = zs"
  by (metis add.commute append_eq_conv_conj drop_drop)

lemma collect_loop_layout:
  "header_ok (wal_seg_size d) hdr \<Longrightarrow> wal_seg_size d \<noteq> 0 \<Longrightarrow> drop off (sd_buf d) = lay_out hdr lsn bs @ rest \<Longrightarrow>
   length out + length bs = n \<Longrightarrow>
   collect_loop d n out off lsn fp =
     Ok (Some (out @ bs, off + length (lay_out hdr lsn bs),
       case fp of None \<Rightarrow> if bs = [] then lsn else payload_start (wal_seg_size d) lsn | Some l \<Rightarrow> l))"
proof (induction d n out off lsn fp arbitrary: bs rule: collect_loop_induct)
  case (1 d n out off lsn fp)
  note unf = collect_loop_unfold [of d n out off lsn fp] and ok = 1(3,4)
  show ?case
  proof (cases "length out < n")
    case more: True
    then have bs: "bs \<noteq> []" using 1(6) by auto
    have len: "length (sd_buf d) - off = length (lay_out hdr lsn bs) + length rest"
      using 1(5) by (metis length_append length_drop)
    show ?thesis
    proof (cases "lsn mod of_nat XLOG_BLCKSZ = 0")
      case True
      then have p: "lsn mod 8192 = 0" by (simp add: blcksz)
      let ?h = "length (hdr lsn)"
      note lay = lay_out_header [OF p ok(1) bs]
      have src: "drop off (sd_buf d) = hdr lsn @ lay_out hdr (lsn + of_nat ?h) bs @ rest" using 1(5) lay by simp
      note nxt = drop_append_off [OF src]
      note chk = header_ok_check [OF ok src]
      have fits: "\<not> length (sd_buf d) < off + ?h"
        using len lay header_ok_length [OF ok(1), of lsn] by (cases "off \<le> length (sd_buf d)") auto
      have "payload_start (wal_seg_size d) lsn = lsn + of_nat ?h"
        using ok(1) p by (simp add: payload_start_def header_ok_def)
      moreover have "payload_start (wal_seg_size d) (lsn + of_nat ?h) = lsn + of_nat ?h"
        using page_step(1) [OF p header_ok_length [OF ok(1), of lsn]] by (simp add: payload_start_def)
      ultimately show ?thesis
        using 1(1) [OF more True header_ok_size [OF ok] fits chk ok nxt 1(6)] bs more True fits chk lay
        by (simp add: unf header_ok_size [OF ok] split: option.splits)
    next
      case False
      then have p: "lsn mod 8192 \<noteq> 0" by (simp add: blcksz)
      define w where "w = min (n - length out) (XLOG_BLCKSZ - unat (lsn mod of_nat XLOG_BLCKSZ))"
      have wn: "n - length out = length bs" using 1(6) by simp
      have w: "w \<le> length bs" "w \<le> 8192 - unat (lsn mod 8192)" unfolding w_def wn by (simp_all add: blcksz)
      note lay = lay_out_plain [OF p w, of hdr]
      have src: "drop off (sd_buf d) = take w bs @ lay_out hdr (lsn + of_nat w) (drop w bs) @ rest" using 1(5) lay by simp
      have out: "take w (drop off (sd_buf d)) = take w bs" using src w by simp
      have nxt: "drop (off + w) (sd_buf d) = lay_out hdr (lsn + of_nat w) (drop w bs) @ rest"
        using drop_append_off [OF src] w by simp
      have "0 < w" using more page_offset_less [of lsn] by (simp add: w_def blcksz)
      then have fits: "\<not> length (sd_buf d) < off + w" using len lay w bs by (cases "off \<le> length (sd_buf d)") auto
      have "payload_start (wal_seg_size d) lsn = lsn" using p by (simp add: payload_start_def)
      moreover have "length (out @ take w (drop off (sd_buf d))) + length (drop w bs) = n" using out w 1(6) by simp
      ultimately show ?thesis
        using 1(2) [OF more False refl w_def fits ok nxt] bs more False fits lay out w
        by (simp add: unf Let_def flip: w_def split: option.splits)
    qed
  qed (use 1(6) in \<open>auto simp: unf split: option.splits\<close>)
qed

lemma lay_out_append:
  "lay_out hdr lsn (xs @ ys) = lay_out hdr lsn xs @ lay_out hdr (lsn + of_nat (length (lay_out hdr lsn xs))) ys"
  by (induction hdr lsn xs rule: lay_out.induct) (simp_all add: add_ac)

lemma collect_payload_layout:
  assumes "header_ok (wal_seg_size d) hdr" "wal_seg_size d \<noteq> 0" "sd_buf d = lay_out hdr (sd_lsn d) bs @ rest" "bs \<noteq> []"
  shows "collect_payload d (length bs) =
    Ok (Some (bs, length (lay_out hdr (sd_lsn d) bs), payload_start (wal_seg_size d) (sd_lsn d)))"
  using collect_loop_layout [OF assms(1,2), of 0 "sd_lsn d" bs rest "[]" "length bs" None] assms(3,4)
  by (simp add: collect_payload_def)

lemma skip_padding_pad:
  "align_pad (sd_lsn d) \<le> length (sd_buf d) \<Longrightarrow> skip_pad d = Some (consumed (align_pad (sd_lsn d)) d)"
  by (auto simp: skip_pad_def align_pad_def consumed_def Let_def split: if_splits)

text \<open>A decoder over the bytes of one item, preceded by its padding.\<close>

lemma poll_decode_record:
  assumes hdr: "header_ok (wal_seg_size d) hdr" "wal_seg_size d \<noteq> 0" and r: "item_ok (RecordItem r)"
    and l: "l = sd_lsn d + of_nat (align_pad (sd_lsn d))"
    and buf: "sd_buf d = replicate (align_pad (sd_lsn d)) 0 @ lay_out hdr l r @ rest"
  shows "poll_decode d = (Ok (Some (payload_start (wal_seg_size d) l, r)),
    d\<lparr>sd_buf := rest, sd_lsn := l + of_nat (length (lay_out hdr l r))\<rparr>)"
proof -
  let ?d = "consumed (align_pad (sd_lsn d)) d"
  have pad: "skip_pad d = Some ?d" using buf by (intro skip_padding_pad) simp
  have d: "sd_lsn ?d = l" "sd_buf ?d = lay_out hdr l r @ rest" "wal_seg_size ?d = wal_seg_size d"
    using l buf by simp_all
  have len: "24 \<le> length r" "unat (u32_of_le (take 4 r)) = length r" using r by (simp_all add: SIZE_OF_XLOG_RECORD_def)
  have "length (take 4 r) = 4" "take 4 r \<noteq> []" "r \<noteq> []" using len by auto
  moreover have "sd_buf ?d = lay_out hdr l (take 4 r) @ lay_out hdr (l + of_nat (length (lay_out hdr l (take 4 r)))) (drop 4 r) @ rest"
    using d(2) lay_out_append [of hdr l "take 4 r" "drop 4 r"] by simp
  ultimately have "collect_payload ?d 4 = Ok (Some (take 4 r, length (lay_out hdr l (take 4 r)), payload_start (wal_seg_size d) l))"
    using collect_payload_layout [of ?d hdr "take 4 r"] hdr d(1,3) by simp
  moreover have "collect_payload ?d (length r) = Ok (Some (r, length (lay_out hdr l r), payload_start (wal_seg_size d) l))"
    using collect_payload_layout [of ?d hdr r rest] hdr d \<open>r \<noteq> []\<close> by simp
  ultimately show ?thesis
    using pad len d by (simp add: poll_decode_unfold [of d] SIZE_OF_XLOG_RECORD_def Let_def)
qed

lemma align_pad_aligned: "unat ((lsn + of_nat (align_pad lsn)) mod 8) = 0"
  using padded_aligned [of lsn] by (simp add: align_pad_def)

lemma fill_page_layout:
  assumes "header_ok seg hdr" "unat (l mod 8) = 0"
  shows "\<exists>k. fill_page hdr l = lay_out hdr l (replicate 4 0) @ replicate k 0"
    and "length (fill_page hdr l) = 8192 - unat (l mod 8192)"
proof -
  have h: "length (hdr l) + 4 \<le> 8192" using header_ok_length [OF assms(1), of l] by auto
  have fill: "replicate n (0 :: u8) = replicate 4 0 @ replicate (n - 4) 0" if "4 \<le> n" for n
    using that by (simp flip: replicate_add)
  show "length (fill_page hdr l) = 8192 - unat (l mod 8192)"
    using h by (cases "l mod 8192 = 0") (simp_all only: fill_page_def if_True if_False length_append length_replicate unsigned_0, simp)
  show "\<exists>k. fill_page hdr l = lay_out hdr l (replicate 4 0) @ replicate k 0"
  proof (cases "l mod 8192 = 0")
    case True
    note n = page_step(1,3) [OF True header_ok_length [OF assms(1), of l]]
    have "lay_out hdr l (replicate 4 0) = hdr l @ replicate 4 0"
      using lay_out_header [OF True assms(1), of "replicate 4 0"] lay_out_plain [OF n(1), of 4 "replicate 4 0" hdr] n(2) h by simp
    then show ?thesis using True fill [of "8192 - length (hdr l)"] h by (auto simp: fill_page_def)
  next
    case False
    have "unat l mod 8192 mod 8 = 0" using assms(2) by (simp add: unat_mod mod_mod_cancel)
    then obtain q where q: "unat l mod 8192 = 8 * q" by (metis mod_0_imp_dvd dvdE)
    then have "q < 1024" using mod_less_divisor [of 8192 "unat l"] by linarith
    with q have "unat l mod 8192 \<le> 8184" by linarith
    then have "4 \<le> 8192 - unat (l mod 8192)" by (simp add: unat_mod_page)
    then have "fill_page hdr l = lay_out hdr l (replicate 4 0) @ replicate (8192 - unat (l mod 8192) - 4) 0"
      using False fill [of "8192 - unat (l mod 8192)"] lay_out_plain [OF False, of 4 "replicate 4 0" hdr]
      by (simp add: fill_page_def)
    then show ?thesis by blast
  qed
qed

lemma poll_decode_fill:
  assumes hdr: "header_ok (wal_seg_size d) hdr" "wal_seg_size d \<noteq> 0"
    and l: "l = sd_lsn d + of_nat (align_pad (sd_lsn d))"
    and buf: "sd_buf d = replicate (align_pad (sd_lsn d)) 0 @ fill_page hdr l @ rest"
  shows "poll_decode d = poll_decode (d\<lparr>sd_buf := rest, sd_lsn := l + of_nat (length (fill_page hdr l))\<rparr>)"
proof -
  let ?d = "consumed (align_pad (sd_lsn d)) d"
  have pad: "skip_pad d = Some ?d" using buf by (intro skip_padding_pad) simp
  have d: "sd_lsn ?d = l" "sd_buf ?d = fill_page hdr l @ rest" "wal_seg_size ?d = wal_seg_size d"
    using l buf by simp_all
  have "unat (l mod 8) = 0" using align_pad_aligned l by simp
  note fill = fill_page_layout [OF hdr(1) this]
  obtain k where k: "fill_page hdr l = lay_out hdr l (replicate 4 0) @ replicate k 0" using fill(1) by blast
  have c: "collect_payload ?d 4 = Ok (Some (replicate 4 0, length (lay_out hdr l (replicate 4 0)), payload_start (wal_seg_size d) l))"
    using collect_payload_layout [of ?d hdr "replicate 4 0" "replicate k 0 @ rest"] hdr d k by simp
  have zero: "unat (u32_of_le (replicate 4 0)) = 0" by code_simp
  have skip: "unat ((payload_start (wal_seg_size d) l div of_nat XLOG_BLCKSZ + 1) * of_nat XLOG_BLCKSZ - sd_lsn ?d)
      = length (fill_page hdr l)"
    using next_page_skip [of l] payload_start_page [of "wal_seg_size d" l] d(1) fill(2) by (simp add: blcksz)
  have "consumed (length (fill_page hdr l)) ?d = d\<lparr>sd_buf := rest, sd_lsn := l + of_nat (length (fill_page hdr l))\<rparr>"
    using d by (simp add: consumed_def)
  then show ?thesis
    using d(2) zero by (simp only: poll_decode_unfold [of d] pad option.case c result.case prod.case Let_def skip)
      (simp add: SIZE_OF_XLOG_RECORD_def)
qed

lemma poll_decode_empty:
  assumes "sd_buf d = []" "wal_seg_size d \<noteq> 0"
  shows "poll_decode d = (Ok None, d)"
proof -
  have "collect_payload d 4 = Ok None"
    using assms page_offset_less [of "sd_lsn d"] page_header_size_min [of d "sd_lsn d"]
    by (auto simp: collect_payload_def collect_loop_unfold [of d 4 "[]" 0] blcksz Let_def page_header_size_def phd_sizes)
  then show ?thesis using assms(1) by (auto simp: poll_decode_unfold [of d] skip_pad_def Let_def)
qed

lemma poll_all_stream:
  assumes "header_ok (wal_seg_size d) hdr" "wal_seg_size d \<noteq> 0" "list_all item_ok its"
    "sd_buf d = write_stream hdr (sd_lsn d) its"
  shows "\<exists>d'. poll_all d = (stream_records (wal_seg_size d) hdr (sd_lsn d) its, Ok (), d') \<and> sd_buf d' = []"
  using assms
proof (induction its arbitrary: d)
  case Nil
  then show ?case using poll_decode_empty [of d] by (simp add: poll_all.simps [of d])
next
  case (Cons it its)
  let ?l = "sd_lsn d + of_nat (align_pad (sd_lsn d))"
  let ?w = "write_item hdr ?l it"
  let ?d = "d\<lparr>sd_buf := write_stream hdr (?l + of_nat (length ?w)) its, sd_lsn := ?l + of_nat (length ?w)\<rparr>"
  have buf: "sd_buf d = replicate (align_pad (sd_lsn d)) 0 @ ?w @ write_stream hdr (?l + of_nat (length ?w)) its"
    using Cons.prems(4) by (simp add: Let_def)
  obtain d' where d': "poll_all ?d = (stream_records (wal_seg_size d) hdr (?l + of_nat (length ?w)) its, Ok (), d')" "sd_buf d' = []"
    using Cons.IH [of ?d] Cons.prems by auto
  show ?case
  proof (cases it)
    case (RecordItem r)
    then have "poll_decode d = (Ok (Some (payload_start (wal_seg_size d) ?l, r)), ?d)"
      using poll_decode_record [OF Cons.prems(1,2) _ refl, of r] Cons.prems(3) buf by simp
    then show ?thesis using d' RecordItem by (simp add: poll_all.simps [of d] Let_def)
  next
    case FillPage
    then have "poll_decode d = poll_decode ?d"
      using poll_decode_fill [OF Cons.prems(1,2) refl] buf by simp
    then have "poll_all d = poll_all ?d" by (simp add: poll_all.simps [of d] poll_all.simps [of ?d])
    then show ?thesis using d' FillPage by (simp add: Let_def)
  qed
qed

text \<open>Ingesting a list of framed records one by one, stopping at the first that does not decode.\<close>

fun ingest_records ::
  "codecs \<Rightarrow> (Lsn \<times> bytes) list \<Rightarrow> nat \<Rightarrow> Inner \<Rightarrow> (WalDecodeError, nat) result \<times> Inner" where
  "ingest_records cs [] n repo = (Ok n, repo)"
| "ingest_records cs ((lsn, r) # xs) n repo =
     (case ingest_record cs lsn r repo of
        Ok repo' \<Rightarrow> ingest_records cs xs (n + 1) repo'
      | Err e \<Rightarrow> (Err e, repo)
      | Panic \<Rightarrow> (Panic, repo))"

lemma ingest_wal_loop_poll_all:
  assumes "poll_all d = (xs, Ok (), d')"
  shows "ingest_wal_loop cs d n repo = ingest_records cs xs n repo"
  using assms
proof (induction d arbitrary: xs n repo rule: poll_all.induct)
  case (1 d)
  obtain m d1 where p: "poll_decode d = (m, d1)" by (cases "poll_decode d")
  show ?case
  proof (cases m)
    case (Ok opt)
    show ?thesis
    proof (cases opt)
      case None
      then show ?thesis using "1.prems" p Ok by (simp add: poll_all.simps [of d] ingest_wal_loop.simps [of cs d])
    next
      case (Some x)
      obtain ys where ys: "poll_all d1 = (ys, Ok (), d')" "xs = x # ys"
        using "1.prems" p Ok Some by (auto simp: poll_all.simps [of d] split: prod.splits)
      have "ingest_wal_loop cs d1 n' repo' = ingest_records cs ys n' repo'" for n' repo'
        using "1.IH" [of "Ok (Some x)" d1 "Some x" x, OF _ _ _ ys(1)] p Ok Some by simp
      then show ?thesis
        using p Ok Some ys(2) by (cases x) (simp add: ingest_wal_loop.simps [of cs d] split: result.splits)
    qed
  qed (use "1.prems" p in \<open>simp_all add: poll_all.simps [of d]\<close>)
qed

lemma poll_all_written:
  assumes "header_ok DEFAULT_WAL_SEG_SIZE hdr" "list_all item_ok its"
  shows "\<exists>d'. poll_all (feed_bytes (write_stream hdr start its) (decoder_new start)) =
      (stream_records DEFAULT_WAL_SEG_SIZE hdr start its, Ok (), d') \<and> sd_buf d' = []"
  using poll_all_stream [of "feed_bytes (write_stream hdr start its) (decoder_new start)" hdr its] assms
  by (auto simp: decoder_new_def DEFAULT_WAL_SEG_SIZE_def)

lemma ingest_wal_written:
  assumes "header_ok DEFAULT_WAL_SEG_SIZE hdr" "list_all item_ok its"
  shows "ingest_wal cs start (write_stream hdr start its) repo =
      ingest_records cs (stream_records DEFAULT_WAL_SEG_SIZE hdr start its) 0 repo"
  using poll_all_written [OF assms, of start] ingest_wal_loop_poll_all by (auto simp: ingest_wal_def)

text \<open>No stream of bytes makes the decoder or the ingestion panic.\<close>

lemma collect_loop_no_panic:
  "wal_seg_size d \<noteq> 0 \<Longrightarrow> collect_loop d n out off lsn fp \<noteq> Panic"
proof (induction d n out off lsn fp rule: collect_loop_induct)
  case (1 d n out off lsn fp)
  note unf = collect_loop_unfold [of d n out off lsn fp]
  show ?case
  proof (cases "length out < n")
    case more: True
    show ?thesis
    proof (cases "lsn mod of_nat XLOG_BLCKSZ = 0")
      case True
      obtain h where h: "page_header_size d lsn = Ok h" using 1(3) by (simp add: page_header_size_def)
      have "h = 24 \<or> h = 40" using page_header_size_min [OF h] .
      then have "\<not> length (sd_buf d) < off + h \<Longrightarrow> check_page_header d off lsn \<noteq> Panic"
        using check_page_header_no_panic [OF _ 1(3), of off lsn] by auto
      then show ?thesis
        using more True h 1(3) 1(1) [OF more True h] by (auto simp: unf split: result.splits)
    next
      case False
      then show ?thesis using more 1(3) 1(2) [OF more False refl refl] by (simp add: unf Let_def)
    qed
  qed (simp add: unf)
qed

lemma poll_decode_no_panic:
  "wal_seg_size d \<noteq> 0 \<Longrightarrow> fst (poll_decode d) \<noteq> Panic \<and> wal_seg_size (snd (poll_decode d)) = wal_seg_size d"
proof (induction d rule: poll_decode_induct)
  case (1 d0)
  note unf = poll_decode_unfold [of d0]
  show ?case
  proof (cases "skip_pad d0")
    case (Some d)
    then have seg: "wal_seg_size d = wal_seg_size d0" by (auto simp: skip_pad_def Let_def split: if_splits)
    have np: "collect_payload d n \<noteq> Panic" for n
      using collect_loop_no_panic 1(2) seg by (simp add: collect_payload_def)
    show ?thesis
    proof (cases "collect_payload d 4")
      case (Ok m)
      show ?thesis
      proof (cases m)
        case m: (Some t)
        obtain p q l where t: "t = (p, q, l)" by (cases t)
        show ?thesis
        proof (cases "unat (u32_of_le p) < SIZE_OF_XLOG_RECORD")
          case True
          then show ?thesis using Some Ok m t seg 1(2) 1(1) [OF Some Ok [unfolded m t] refl True refl refl]
            by (simp add: unf Let_def)
        next
          case False
          then show ?thesis using Some Ok m t seg np [of "unat (u32_of_le p)"]
            by (auto simp: unf Let_def split: result.splits option.splits)
        qed
      qed (use Some Ok seg in \<open>simp add: unf\<close>)
    qed (use Some np seg in \<open>simp_all add: unf\<close>)
  qed (simp add: unf)
qed

lemma ingest_record_no_panic: "ingest_record cs lsn r repo \<noteq> Panic"
  using decode_wal_record_no_panic block_modifications_total
  by (auto simp: ingest_record_def modifications_from_record_def rbind_eq_Panic) (metis result.distinct(3))

lemma ingest_wal_loop_no_panic:
  "wal_seg_size d \<noteq> 0 \<Longrightarrow> fst (ingest_wal_loop cs d n repo) \<noteq> Panic"
proof (induction cs d n repo rule: ingest_wal_loop.induct)
  case (1 cs d n repo)
  note np = poll_decode_no_panic [OF 1(2)]
  obtain m d1 where p: "poll_decode d = (m, d1)" by (cases "poll_decode d")
  show ?case
  proof (cases m)
    case (Ok opt)
    show ?thesis
    proof (cases opt)
      case (Some x)
      obtain lsn r where x: "x = (lsn, r)" by (cases x)
      show ?thesis
      proof (cases "ingest_record cs lsn r repo")
        case repo: (Ok repo')
        have "fst (ingest_wal_loop cs d1 (n + 1) repo') \<noteq> Panic"
          using 1(1) [OF p [symmetric] Ok Some x [symmetric] repo] np p 1(2) by simp
        then show ?thesis using p Ok Some x repo by (simp add: ingest_wal_loop.simps [of cs d])
      qed (use p Ok Some x ingest_record_no_panic [of cs lsn r repo] in \<open>simp_all add: ingest_wal_loop.simps [of cs d]\<close>)
    qed (use p Ok in \<open>simp add: ingest_wal_loop.simps [of cs d]\<close>)
  qed (use p np in \<open>simp_all add: ingest_wal_loop.simps [of cs d]\<close>)
qed

section \<open>Main results\<close>

text \<open>
  C27. How the WAL bytes are cut into network reads does not matter: a receiver that feeds any chunks and
  polls after each obtains the same records with the same LSNs, and the same final outcome, as one that
  feeds everything at once.
\<close>

theorem wal_stream_chunking:
  "poll_chunks d (c # cs) =
     (case poll_all (feed_bytes (concat (c # cs)) d) of (xs, r, _) \<Rightarrow> (xs, r))"
  by (rule poll_chunks_one_shot)

text \<open>
  C26. A stream laid out by the page format, with its page headers, alignment padding, records that cross
  pages and zero-filled page tails, yields exactly the records it holds at their LSNs and leaves nothing
  unread, and ingesting it ingests these records one by one.
\<close>

theorem wal_stream_framing:
  assumes "header_ok DEFAULT_WAL_SEG_SIZE hdr" "list_all item_ok its"
  shows "(\<exists>d'. poll_all (feed_bytes (write_stream hdr start its) (decoder_new start)) =
      (stream_records DEFAULT_WAL_SEG_SIZE hdr start its, Ok (), d') \<and> sd_buf d' = []) \<and>
    ingest_wal cs start (write_stream hdr start its) repo =
      ingest_records cs (stream_records DEFAULT_WAL_SEG_SIZE hdr start its) 0 repo"
  using poll_all_written [OF assms] ingest_wal_written [OF assms] by blast

definition page_header :: "u64 \<Rightarrow> bytes" where
  "page_header lsn =
     (let h = u16_to_le XLOG_PAGE_MAGIC_PG16
            @ u16_to_le (if lsn mod DEFAULT_WAL_SEG_SIZE = 0 then XLP_LONG_HEADER else 0)
            @ u32_to_le 1 @ u64_to_le lsn @ u32_to_le 0
      in h @ replicate ((if lsn mod DEFAULT_WAL_SEG_SIZE = 0 then SIZE_OF_XLOG_LONG_PHD else SIZE_OF_XLOG_SHORT_PHD) - length h) 0)"

lemma page_header_ok: "header_ok DEFAULT_WAL_SEG_SIZE page_header"
  by (simp add: header_ok_def page_header_def phd_sizes Let_def)

definition sample_items :: "WalItem list" where
  "sample_items = [RecordItem (make_record 10 0 1 [255, 0]), RecordItem (make_record 11 0 2 [255, 1, 9]), FillPage]"

lemma sample_items_ok: "list_all item_ok sample_items"
  by code_simp

theorem wal_stream_framing_witness:
  "\<exists>d'. poll_all (feed_bytes (write_stream page_header 0 sample_items) (decoder_new 0)) =
     ([(40, make_record 10 0 1 [255, 0]), (72, make_record 11 0 2 [255, 1, 9])], Ok (), d')"
proof -
  let ?r = "make_record 10 0 1 [255, 0]"
  have len: "length ?r = 26" by (simp add: make_record_def)
  then have ne: "?r \<noteq> []" by auto
  have h: "length (page_header 0) = 40" using page_header_ok by (simp add: header_ok_def phd_sizes)
  have at: "(40 :: u64) mod 8192 \<noteq> 0" "unat ((40 :: u64) mod 8192) = 40" by simp_all
  have "lay_out page_header 0 ?r = page_header 0 @ ?r"
    using lay_out_header [OF _ page_header_ok ne, of 0] lay_out_plain [OF at(1), of 26 ?r page_header] at(2) len h by simp
  then have w: "length (lay_out page_header 0 ?r) = 66" using len h by simp
  have pads: "align_pad 0 = 0" "align_pad 66 = 6" by (simp_all add: align_pad_def)
  have "payload_start DEFAULT_WAL_SEG_SIZE 0 = 40" "payload_start DEFAULT_WAL_SEG_SIZE 72 = 72"
    by (simp_all add: payload_start_def phd_sizes)
  then have "stream_records DEFAULT_WAL_SEG_SIZE page_header 0 sample_items =
      [(40, make_record 10 0 1 [255, 0]), (72, make_record 11 0 2 [255, 1, 9])]"
    by (simp add: sample_items_def Let_def pads w)
  then show ?thesis
    using wal_stream_framing [OF page_header_ok sample_items_ok, of 0] by auto
qed

text \<open>
  C28. Ingesting a raw WAL stream terminates on every byte string, from every start LSN, and never panics:
  it returns the number of ingested records or the first decoding error.
\<close>

theorem ingest_wal_returns:
  "\<exists>n e. fst (ingest_wal cs start wal repo) = Ok n \<or> fst (ingest_wal cs start wal repo) = Err e"
  using ingest_wal_loop_no_panic [of "feed_bytes wal (decoder_new start)" cs 0 repo]
  by (cases "fst (ingest_wal cs start wal repo)")
     (auto simp: ingest_wal_def decoder_new_def DEFAULT_WAL_SEG_SIZE_def)

end
