(* ===== verification/Wal_Service.thy ===== *)
theory Wal_Service
  imports Common_Types
begin

text \<open>
  The WAL protocol of \<open>common/src/wal_service.rs\<close>: appends and replication from compute to
  safekeeper and between safekeepers, read-back to the page server, leadership votes.  One pair of
  encode and decode functions per message, in the order of the source; every decoder is proved
  total (it never indexes out of its buffer) and inverse to its encoder.  The interpretations of
  \<open>codec\<close> and \<open>framed_codec\<close> carry the consequences: injectivity, prefix-freeness and the
  cutting of a connection's byte stream into messages.
\<close>

definition MAGIC :: u32 where "MAGIC = 0x53574C31"
definition VERSION :: u8 where "VERSION = 1"
definition TYPE_APPEND :: u8 where "TYPE_APPEND = 1"
definition TYPE_READ :: u8 where "TYPE_READ = 2"
definition TYPE_REPLICATE :: u8 where "TYPE_REPLICATE = 3"
definition TYPE_VOTE :: u8 where "TYPE_VOTE = 4"
definition STATUS_OK :: u8 where "STATUS_OK = 0"
definition STATUS_STALE_TERM :: u8 where "STATUS_STALE_TERM = 1"
definition STATUS_REJECTED :: u8 where "STATUS_REJECTED = 2"
definition PREFIX_LEN :: nat where "PREFIX_LEN = 8"
definition REQUEST_HEADER_LEN :: nat where "REQUEST_HEADER_LEN = 60"
definition RESPONSE_LEN :: nat where "RESPONSE_LEN = 32"
definition READ_REQUEST_LEN :: nat where "READ_REQUEST_LEN = 52"
definition READ_RESPONSE_HEADER_LEN :: nat where "READ_RESPONSE_HEADER_LEN = 28"
definition VOTE_REQUEST_LEN :: nat where "VOTE_REQUEST_LEN = 56"
definition VOTE_RESPONSE_LEN :: nat where "VOTE_RESPONSE_LEN = 24"

lemmas wal_lens = PREFIX_LEN_def REQUEST_HEADER_LEN_def RESPONSE_LEN_def READ_REQUEST_LEN_def
  READ_RESPONSE_HEADER_LEN_def VOTE_REQUEST_LEN_def VOTE_RESPONSE_LEN_def

lemmas wal_types = TYPE_APPEND_def TYPE_READ_def TYPE_REPLICATE_def TYPE_VOTE_def

definition message_type :: "bytes \<Rightarrow> (Error, u8) result" where
  "message_type pre =
     (if length pre < PREFIX_LEN then Err (Parse ''WAL message prefix too short'')
      else rbind (get_u32 pre 0) (\<lambda>magic.
        if magic \<noteq> MAGIC then Err (Parse ''bad WAL protocol magic'')
        else rbind (get_u8 pre 4) (\<lambda>version.
          if version \<noteq> VERSION then Err (Parse ''unsupported WAL protocol version'')
          else get_u8 pre 5)))"

section \<open>Messages\<close>

record AppendRequest =
  ar_tenant :: TenantId
  ar_timeline :: TimelineId
  ar_term :: u64
  ar_start_lsn :: Lsn
  ar_payload :: bytes

record AppendResponse =
  as_status :: u8
  as_term :: u64
  as_flush_lsn :: Lsn
  as_commit_lsn :: Lsn

record ReadRequest =
  rr_tenant :: TenantId
  rr_timeline :: TimelineId
  rr_start_lsn :: Lsn
  rr_max_bytes :: u32

record ReadResponse =
  rs_status :: u8
  rs_commit_lsn :: Lsn
  rs_start_lsn :: Lsn
  rs_payload :: bytes

record VoteRequest =
  vr_tenant :: TenantId
  vr_timeline :: TimelineId
  vr_term :: u64
  vr_candidate :: u64

record VoteResponse =
  vs_granted :: bool
  vs_term :: u64
  vs_flush_lsn :: Lsn

section \<open>Append requests\<close>

definition encode_as :: "AppendRequest \<Rightarrow> u8 \<Rightarrow> bytes" where
  "encode_as r msg_type =
     u32_to_be MAGIC @ [VERSION, msg_type, 0, 0]
     @ as_bytes (ar_tenant r) @ as_bytes (ar_timeline r)
     @ u64_to_be (ar_term r) @ u64_to_be (ar_start_lsn r)
     @ u32_to_be (of_nat (length (ar_payload r))) @ ar_payload r"

definition append_encode :: "AppendRequest \<Rightarrow> bytes" where
  "append_encode r = encode_as r TYPE_APPEND"

definition encode_replicate :: "AppendRequest \<Rightarrow> bytes" where
  "encode_replicate r = encode_as r TYPE_REPLICATE"

definition append_payload_len :: "bytes \<Rightarrow> (Error, nat) result" where
  "append_payload_len header =
     (if length header < REQUEST_HEADER_LEN then Err (Parse ''append header too short'')
      else rbind (get_u32 header 0) (\<lambda>magic.
        if magic \<noteq> MAGIC then Err (Parse ''bad WAL protocol magic'')
        else rbind (get_u8 header 4) (\<lambda>version.
          if version \<noteq> VERSION then Err (Parse ''unsupported WAL protocol version'')
          else rbind (get_u8 header 5) (\<lambda>ty.
            if ty \<noteq> TYPE_APPEND \<and> ty \<noteq> TYPE_REPLICATE
            then Err (Parse ''unexpected WAL message type'')
            else rbind (get_u32 header 56) (\<lambda>n. Ok (unat n))))))"

definition append_decode :: "bytes \<Rightarrow> (Error, AppendRequest) result" where
  "append_decode buf =
     rbind (append_payload_len buf) (\<lambda>plen.
       if length buf < REQUEST_HEADER_LEN + plen then Err (Parse ''append payload truncated'')
       else rbind (get_bytes buf 8 16) (\<lambda>tn.
            rbind (get_bytes buf 24 16) (\<lambda>tl.
            rbind (get_u64 buf 40) (\<lambda>tm.
            rbind (get_u64 buf 48) (\<lambda>st.
            rbind (get_bytes buf REQUEST_HEADER_LEN plen) (\<lambda>pl.
            Ok \<lparr>ar_tenant = from_bytes tn, ar_timeline = from_bytes tl, ar_term = tm,
                ar_start_lsn = st, ar_payload = pl\<rparr>))))))"

definition end_lsn :: "AppendRequest \<Rightarrow> Lsn" where
  "end_lsn r = ar_start_lsn r + of_nat (length (ar_payload r))"

section \<open>Append responses\<close>

definition append_response_encode :: "AppendResponse \<Rightarrow> bytes" where
  "append_response_encode r =
     u32_to_be MAGIC @ [VERSION, as_status r, 0, 0]
     @ u64_to_be (as_term r) @ u64_to_be (as_flush_lsn r) @ u64_to_be (as_commit_lsn r)"

definition append_response_decode :: "bytes \<Rightarrow> (Error, AppendResponse) result" where
  "append_response_decode buf =
     (if length buf < RESPONSE_LEN then Err (Parse ''append response too short'')
      else rbind (get_u32 buf 0) (\<lambda>magic.
           rbind (get_u8 buf 4) (\<lambda>version.
        if magic \<noteq> MAGIC \<or> version \<noteq> VERSION then Err (Parse ''bad WAL response header'')
        else rbind (get_u8 buf 5) (\<lambda>st.
             rbind (get_u64 buf 8) (\<lambda>tm.
             rbind (get_u64 buf 16) (\<lambda>fl.
             rbind (get_u64 buf 24) (\<lambda>cl.
             Ok \<lparr>as_status = st, as_term = tm, as_flush_lsn = fl, as_commit_lsn = cl\<rparr>)))))))"

section \<open>Read requests and responses\<close>

definition read_request_encode :: "ReadRequest \<Rightarrow> bytes" where
  "read_request_encode r =
     u32_to_be MAGIC @ [VERSION, TYPE_READ, 0, 0]
     @ as_bytes (rr_tenant r) @ as_bytes (rr_timeline r)
     @ u64_to_be (rr_start_lsn r) @ u32_to_be (rr_max_bytes r)"

definition read_request_decode :: "bytes \<Rightarrow> (Error, ReadRequest) result" where
  "read_request_decode buf =
     (if length buf < READ_REQUEST_LEN then Err (Parse ''read request too short'')
      else rbind (message_type buf) (\<lambda>ty.
        if ty \<noteq> TYPE_READ then Err (Parse ''unexpected WAL message type'')
        else rbind (get_bytes buf 8 16) (\<lambda>tn.
             rbind (get_bytes buf 24 16) (\<lambda>tl.
             rbind (get_u64 buf 40) (\<lambda>st.
             rbind (get_u32 buf 48) (\<lambda>mb.
             Ok \<lparr>rr_tenant = from_bytes tn, rr_timeline = from_bytes tl, rr_start_lsn = st,
                 rr_max_bytes = mb\<rparr>))))))"

definition read_response_encode :: "ReadResponse \<Rightarrow> bytes" where
  "read_response_encode r =
     u32_to_be MAGIC @ [VERSION, rs_status r, 0, 0]
     @ u64_to_be (rs_commit_lsn r) @ u64_to_be (rs_start_lsn r)
     @ u32_to_be (of_nat (length (rs_payload r))) @ rs_payload r"

definition read_payload_len :: "bytes \<Rightarrow> (Error, nat) result" where
  "read_payload_len header =
     (if length header < READ_RESPONSE_HEADER_LEN then Err (Parse ''read response header too short'')
      else rbind (get_u32 header 0) (\<lambda>magic.
           rbind (get_u8 header 4) (\<lambda>version.
        if magic \<noteq> MAGIC \<or> version \<noteq> VERSION then Err (Parse ''bad WAL read response header'')
        else rbind (get_u32 header 24) (\<lambda>n. Ok (unat n)))))"

definition read_response_decode :: "bytes \<Rightarrow> (Error, ReadResponse) result" where
  "read_response_decode buf =
     rbind (read_payload_len buf) (\<lambda>plen.
       if length buf < READ_RESPONSE_HEADER_LEN + plen
       then Err (Parse ''read response payload truncated'')
       else rbind (get_u8 buf 5) (\<lambda>st.
            rbind (get_u64 buf 8) (\<lambda>cl.
            rbind (get_u64 buf 16) (\<lambda>sl.
            rbind (get_bytes buf READ_RESPONSE_HEADER_LEN plen) (\<lambda>pl.
            Ok \<lparr>rs_status = st, rs_commit_lsn = cl, rs_start_lsn = sl, rs_payload = pl\<rparr>)))))"

section \<open>Votes\<close>

definition vote_request_encode :: "VoteRequest \<Rightarrow> bytes" where
  "vote_request_encode r =
     u32_to_be MAGIC @ [VERSION, TYPE_VOTE, 0, 0]
     @ as_bytes (vr_tenant r) @ as_bytes (vr_timeline r)
     @ u64_to_be (vr_term r) @ u64_to_be (vr_candidate r)"

definition vote_request_decode :: "bytes \<Rightarrow> (Error, VoteRequest) result" where
  "vote_request_decode buf =
     (if length buf < VOTE_REQUEST_LEN then Err (Parse ''vote request too short'')
      else rbind (message_type buf) (\<lambda>ty.
        if ty \<noteq> TYPE_VOTE then Err (Parse ''unexpected WAL message type'')
        else rbind (get_bytes buf 8 16) (\<lambda>tn.
             rbind (get_bytes buf 24 16) (\<lambda>tl.
             rbind (get_u64 buf 40) (\<lambda>tm.
             rbind (get_u64 buf 48) (\<lambda>ca.
             Ok \<lparr>vr_tenant = from_bytes tn, vr_timeline = from_bytes tl, vr_term = tm,
                 vr_candidate = ca\<rparr>))))))"

definition vote_response_encode :: "VoteResponse \<Rightarrow> bytes" where
  "vote_response_encode r =
     u32_to_be MAGIC @ [VERSION, (if vs_granted r then 1 else 0), 0, 0]
     @ u64_to_be (vs_term r) @ u64_to_be (vs_flush_lsn r)"

definition vote_response_decode :: "bytes \<Rightarrow> (Error, VoteResponse) result" where
  "vote_response_decode buf =
     (if length buf < VOTE_RESPONSE_LEN then Err (Parse ''vote response too short'')
      else rbind (get_u32 buf 0) (\<lambda>magic.
           rbind (get_u8 buf 4) (\<lambda>version.
        if magic \<noteq> MAGIC \<or> version \<noteq> VERSION then Err (Parse ''bad vote response header'')
        else rbind (get_u8 buf 5) (\<lambda>g.
             rbind (get_u64 buf 8) (\<lambda>tm.
             rbind (get_u64 buf 16) (\<lambda>fl.
             Ok \<lparr>vs_granted = (g \<noteq> 0), vs_term = tm, vs_flush_lsn = fl\<rparr>))))))"

section \<open>Round trips\<close>

definition append_wf :: "AppendRequest \<Rightarrow> bool" where
  "append_wf r \<longleftrightarrow> length (ar_payload r) < 2 ^ 32"

definition read_response_wf :: "ReadResponse \<Rightarrow> bool" where
  "read_response_wf r \<longleftrightarrow> length (rs_payload r) < 2 ^ 32"

lemma payload_len_fits [simp]: "n < 4294967296 \<Longrightarrow> unat (of_nat n :: u32) = n"
  by (simp add: unat_of_nat)

lemma message_type_ok [codec]:
  "message_type (u32_to_be MAGIC @ VERSION # ty # a # b # rest) = Ok ty"
  by (simp add: message_type_def PREFIX_LEN_def codec)

lemma append_payload_len_encode:
  assumes "append_wf r" "ty = TYPE_APPEND \<or> ty = TYPE_REPLICATE"
  shows "append_payload_len (take REQUEST_HEADER_LEN (encode_as r ty)) = Ok (length (ar_payload r))"
    and "append_payload_len (encode_as r ty @ rest) = Ok (length (ar_payload r))"
  using assms
  by (auto simp: append_payload_len_def encode_as_def append_wf_def wal_lens codec)

lemma append_decode_encode_as:
  assumes "append_wf r" "ty = TYPE_APPEND \<or> ty = TYPE_REPLICATE"
  shows "append_decode (encode_as r ty @ rest) = Ok r"
  unfolding append_decode_def append_payload_len_encode(2) [OF assms]
  by (simp add: encode_as_def wal_lens codec)

lemma length_encode_as: "length (encode_as r ty) = REQUEST_HEADER_LEN + length (ar_payload r)"
  by (simp add: encode_as_def wal_lens codec)

lemma header_len_pos [simp]: "0 < REQUEST_HEADER_LEN"
  by (simp add: wal_lens)

lemma read_payload_len_encode:
  assumes "read_response_wf r"
  shows "read_payload_len (take READ_RESPONSE_HEADER_LEN (read_response_encode r)) = Ok (length (rs_payload r))"
    and "read_payload_len (read_response_encode r @ rest) = Ok (length (rs_payload r))"
  using assms
  by (auto simp: read_payload_len_def read_response_encode_def read_response_wf_def wal_lens codec)

lemma read_response_decode_encode:
  assumes "read_response_wf r"
  shows "read_response_decode (read_response_encode r @ rest) = Ok r"
  unfolding read_response_decode_def read_payload_len_encode(2) [OF assms]
  by (simp add: read_response_encode_def wal_lens codec)

interpretation append_codec: framed_codec append_encode append_decode append_wf REQUEST_HEADER_LEN
  "\<lambda>h. rbind (append_payload_len h) (\<lambda>n. Ok (REQUEST_HEADER_LEN + n))"
  by unfold_locales
     (simp_all add: append_encode_def append_decode_encode_as append_payload_len_encode
        length_encode_as header_len_pos)

interpretation replicate_codec: framed_codec encode_replicate append_decode append_wf REQUEST_HEADER_LEN
  "\<lambda>h. rbind (append_payload_len h) (\<lambda>n. Ok (REQUEST_HEADER_LEN + n))"
  by unfold_locales
     (simp_all add: encode_replicate_def append_decode_encode_as append_payload_len_encode
        length_encode_as header_len_pos)

interpretation append_response_codec:
  framed_codec append_response_encode append_response_decode "\<lambda>_. True" RESPONSE_LEN "\<lambda>_. Ok RESPONSE_LEN"
  by unfold_locales
     (simp_all add: append_response_encode_def append_response_decode_def wal_lens codec)

interpretation read_request_codec:
  framed_codec read_request_encode read_request_decode "\<lambda>_. True" READ_REQUEST_LEN "\<lambda>_. Ok READ_REQUEST_LEN"
  by unfold_locales
     (simp_all add: read_request_encode_def read_request_decode_def wal_lens codec)

interpretation read_response_codec:
  framed_codec read_response_encode read_response_decode read_response_wf READ_RESPONSE_HEADER_LEN
  "\<lambda>h. rbind (read_payload_len h) (\<lambda>n. Ok (READ_RESPONSE_HEADER_LEN + n))"
proof (unfold_locales, goal_cases)
  case (1 m rest)
  then show ?case by (rule read_response_decode_encode)
next
  case 2
  then show ?case by (simp add: wal_lens)
next
  case (3 m)
  then show ?case by (simp add: read_response_encode_def wal_lens)
next
  case (4 m)
  then show ?case
    by (simp add: read_payload_len_encode) (simp add: read_response_encode_def wal_lens)
qed

interpretation vote_request_codec:
  framed_codec vote_request_encode vote_request_decode "\<lambda>_. True" VOTE_REQUEST_LEN "\<lambda>_. Ok VOTE_REQUEST_LEN"
  by unfold_locales
     (simp_all add: vote_request_encode_def vote_request_decode_def wal_lens codec)

interpretation vote_response_codec:
  framed_codec vote_response_encode vote_response_decode "\<lambda>_. True" VOTE_RESPONSE_LEN "\<lambda>_. Ok VOTE_RESPONSE_LEN"
  by unfold_locales
     (simp_all add: vote_response_encode_def vote_response_decode_def wal_lens codec)

section \<open>Totality\<close>

lemma message_type_total [simp]: "message_type buf \<noteq> Panic"
  by (simp add: message_type_def PREFIX_LEN_def reads_ok)

lemma append_payload_len_total [simp]: "append_payload_len buf \<noteq> Panic"
  by (simp add: append_payload_len_def wal_lens reads_ok)

lemma append_payload_len_bound: "append_payload_len buf = Ok n \<Longrightarrow> 60 \<le> length buf"
  by (auto simp: append_payload_len_def wal_lens split: if_splits)

lemma append_decode_total: "append_decode buf \<noteq> Panic"
  unfolding append_decode_def
  by (rule rbind_no_panic) (auto dest!: append_payload_len_bound simp: wal_lens reads_ok)

lemma read_payload_len_total [simp]: "read_payload_len buf \<noteq> Panic"
  by (simp add: read_payload_len_def wal_lens reads_ok)

lemma read_payload_len_bound: "read_payload_len buf = Ok n \<Longrightarrow> 28 \<le> length buf"
  by (auto simp: read_payload_len_def wal_lens split: if_splits)

lemma read_response_decode_total: "read_response_decode buf \<noteq> Panic"
  unfolding read_response_decode_def
  by (rule rbind_no_panic) (auto dest!: read_payload_len_bound simp: wal_lens reads_ok)

lemma fixed_decoders_total:
  "append_response_decode buf \<noteq> Panic" "vote_response_decode buf \<noteq> Panic"
  by (simp_all add: append_response_decode_def vote_response_decode_def wal_lens reads_ok)

lemma request_decoders_total:
  "read_request_decode buf \<noteq> Panic" "vote_request_decode buf \<noteq> Panic"
  unfolding read_request_decode_def vote_request_decode_def
  by (auto simp: rbind_eq_Panic wal_lens reads_ok split: if_splits)

section \<open>Main results\<close>

text \<open>
  Every WAL message survives the wire: what the encoders of the seven message formats write, the
  matching decoder reads back unchanged, whatever bytes follow in the stream (payloads below 4 GiB,
  the range of the length field).  And no input makes a decoder index outside its buffer: on every byte
  string each of them returns a message or a parse error.
\<close>

theorem wal_messages_round_trip:
  "(append_wf a \<longrightarrow> append_decode (append_encode a @ rest) = Ok a \<and> append_decode (encode_replicate a @ rest) = Ok a) \<and>
   append_response_decode (append_response_encode b @ rest) = Ok b \<and>
   read_request_decode (read_request_encode c @ rest) = Ok c \<and>
   (read_response_wf d \<longrightarrow> read_response_decode (read_response_encode d @ rest) = Ok d) \<and>
   vote_request_decode (vote_request_encode e @ rest) = Ok e \<and>
   vote_response_decode (vote_response_encode f @ rest) = Ok f \<and>
   message_type buf \<noteq> Panic \<and> append_payload_len buf \<noteq> Panic \<and> append_decode buf \<noteq> Panic \<and>
   append_response_decode buf \<noteq> Panic \<and> read_request_decode buf \<noteq> Panic \<and>
   read_payload_len buf \<noteq> Panic \<and> read_response_decode buf \<noteq> Panic \<and>
   vote_request_decode buf \<noteq> Panic \<and> vote_response_decode buf \<noteq> Panic"
  using append_codec.dec_enc_append replicate_codec.dec_enc_append
    append_response_codec.dec_enc_append read_request_codec.dec_enc_append
    read_response_codec.dec_enc_append vote_request_codec.dec_enc_append
    vote_response_codec.dec_enc_append
  by (simp add: append_decode_total read_response_decode_total fixed_decoders_total request_decoders_total)

end
