(* ===== verification/Consensus.thy ===== *)
theory Consensus
  imports Common_Types "HOL-Library.Multiset"
begin

text \<open>
  The consensus state machine of one safekeeper, \<open>safekeeper/src/consensus.rs\<close>, and the group of
  safekeepers it forms.  The first part models the \<open>Consensus\<close> struct and its methods one by one;
  the commit position is characterised as the greatest LSN that a quorum has flushed and is shown to
  move forward only.  The second part composes the members into a cluster whose steps are the calls
  \<open>safekeeper/src/server.rs\<close> makes (an election starts, a vote request reaches a member, a grant
  reaches the candidate, in any order and with any loss or duplication of messages), and shows that a
  term has at most one leader as long as no member forgets its vote.
\<close>

type_synonym NodeId = u64
type_synonym Term = u64

datatype Role = Follower | Candidate | Leader

record Consensus =
  node_id :: NodeId
  members :: "NodeId list"
  quorum :: nat
  cterm :: Term
  role :: Role
  voted_for :: "NodeId option"
  votes :: "NodeId set"
  flush :: "NodeId \<rightharpoonup> Lsn"

section \<open>The methods\<close>

definition consensus_new :: "NodeId \<Rightarrow> NodeId list \<Rightarrow> (Error, Consensus) result" where
  "consensus_new nid ms =
     (if nid \<notin> set ms then Panic
      else Ok \<lparr>node_id = nid, members = ms, quorum = length ms div 2 + 1, cterm = 0,
               role = Follower, voted_for = None, votes = {},
               flush = (\<lambda>m. if m \<in> set ms then Some INVALID else None)\<rparr>)"

definition is_leader :: "Consensus \<Rightarrow> bool" where
  "is_leader c \<longleftrightarrow> role c = Leader"

definition record_flush :: "NodeId \<Rightarrow> Lsn \<Rightarrow> Consensus \<Rightarrow> Consensus" where
  "record_flush node lsn c =
     (let slot = (case flush c node of None \<Rightarrow> INVALID | Some l \<Rightarrow> l) in
      c\<lparr>flush := (flush c)(node \<mapsto> (if lsn > slot then lsn else slot))\<rparr>)"

definition flush_of :: "Consensus \<Rightarrow> NodeId \<Rightarrow> Lsn" where
  "flush_of c m = (case flush c m of None \<Rightarrow> INVALID | Some l \<Rightarrow> l)"

definition commit_lsn :: "Consensus \<Rightarrow> Lsn" where
  "commit_lsn c =
     (let positions = rev (sort (map (flush_of c) (members c))) in
      if quorum c - 1 < length positions then positions ! (quorum c - 1) else INVALID)"

definition observe_term :: "Term \<Rightarrow> Consensus \<Rightarrow> Consensus" where
  "observe_term t c =
     (if t > cterm c then c\<lparr>cterm := t, role := Follower, voted_for := None, votes := {}\<rparr> else c)"

definition maybe_become_leader :: "Consensus \<Rightarrow> Consensus" where
  "maybe_become_leader c =
     (if role c = Candidate \<and> card (votes c) \<ge> quorum c then c\<lparr>role := Leader\<rparr> else c)"

definition start_election :: "Consensus \<Rightarrow> Term \<times> Consensus" where
  "start_election c =
     (let c' = maybe_become_leader
                 (c\<lparr>cterm := cterm c + 1, role := Candidate, voted_for := Some (node_id c),
                    votes := {node_id c}\<rparr>)
      in (cterm c', c'))"

definition handle_vote_request :: "Term \<Rightarrow> NodeId \<Rightarrow> Consensus \<Rightarrow> bool \<times> Consensus" where
  "handle_vote_request t candidate c =
     (let c' = observe_term t c in
      if t = cterm c' \<and> (voted_for c' = None \<or> voted_for c' = Some candidate)
      then (True, c'\<lparr>voted_for := Some candidate\<rparr>)
      else (False, c'))"

definition handle_vote_granted :: "NodeId \<Rightarrow> Term \<Rightarrow> Consensus \<Rightarrow> Consensus" where
  "handle_vote_granted from_node t c =
     (if t = cterm c \<and> role c = Candidate
      then maybe_become_leader (c\<lparr>votes := insert from_node (votes c)\<rparr>)
      else c)"

section \<open>The commit position\<close>

definition consensus_wf :: "Consensus \<Rightarrow> bool" where
  "consensus_wf c \<longleftrightarrow>
     node_id c \<in> set (members c) \<and> distinct (members c) \<and>
     quorum c = length (members c) div 2 + 1"

text \<open>How many members have flushed at least up to \<open>l\<close>.\<close>

definition flushed_count :: "Consensus \<Rightarrow> Lsn \<Rightarrow> nat" where
  "flushed_count c l = length (filter (\<lambda>m. l \<le> flush_of c m) (members c))"

lemma quorum_bounds:
  assumes "consensus_wf c"
  shows "0 < quorum c" "quorum c \<le> length (members c)"
proof -
  from assms have pos: "0 < length (members c)"
    by (cases "members c") (auto simp: consensus_wf_def)
  have "n div 2 + 1 \<le> n" if "0 < n" for n :: nat using that by presburger
  with pos assms show "0 < quorum c" "quorum c \<le> length (members c)"
    by (auto simp: consensus_wf_def simp del: length_greater_0_conv)
qed

lemma sorted_rev_nth_count:
  fixes xs :: "'a::linorder list"
  assumes "k < length xs"
  shows "l \<le> rev (sort xs) ! k \<longleftrightarrow> Suc k \<le> length (filter (\<lambda>x. l \<le> x) xs)"
proof -
  let ?ys = "rev (sort xs)"
  have len: "length ?ys = length xs" by simp
  have srt: "sorted_wrt (\<ge>) ?ys" by (simp add: sorted_wrt_rev)
  have cnt: "length (filter (\<lambda>x. l \<le> x) xs) = length (filter (\<lambda>x. l \<le> x) ?ys)"
    by (metis length_rev mset_filter mset_rev mset_sort size_mset)
  show ?thesis
  proof
    assume le: "l \<le> ?ys ! k"
    have "\<forall>x \<in> set (take (Suc k) ?ys). l \<le> x"
    proof
      fix x assume "x \<in> set (take (Suc k) ?ys)"
      then obtain i where i: "i \<le> k" "x = ?ys ! i"
        by (auto simp: in_set_conv_nth less_Suc_eq_le)
      then have "?ys ! k \<le> x"
        using srt assms by (cases "i = k") (auto simp: sorted_wrt_iff_nth_less)
      with le show "l \<le> x" by simp
    qed
    then have "filter (\<lambda>x. l \<le> x) (take (Suc k) ?ys) = take (Suc k) ?ys"
      by (simp add: filter_id_conv)
    then have "length (filter (\<lambda>x. l \<le> x) (take (Suc k) ?ys)) = Suc k"
      using assms by simp
    moreover have "length (filter (\<lambda>x. l \<le> x) ?ys) \<ge> length (filter (\<lambda>x. l \<le> x) (take (Suc k) ?ys))"
      by (metis append_take_drop_id filter_append le_add1 length_append)
    ultimately show "Suc k \<le> length (filter (\<lambda>x. l \<le> x) xs)" using cnt by simp
  next
    assume big: "Suc k \<le> length (filter (\<lambda>x. l \<le> x) xs)"
    show "l \<le> ?ys ! k"
    proof (rule ccontr)
      assume "\<not> l \<le> ?ys ! k"
      have "\<forall>x \<in> set (drop k ?ys). \<not> l \<le> x"
      proof
        fix x assume "x \<in> set (drop k ?ys)"
        then obtain j where "j < length xs - k" "x = ?ys ! (k + j)"
          by (auto simp: in_set_conv_nth)
        then obtain i where i: "k \<le> i" "i < length xs" "x = ?ys ! i"
          using that [of "k + j"] by simp
        then have "x \<le> ?ys ! k"
          using srt by (cases "i = k") (auto simp: sorted_wrt_iff_nth_less)
        with \<open>\<not> l \<le> ?ys ! k\<close> show "\<not> l \<le> x" by auto
      qed
      then have "filter (\<lambda>x. l \<le> x) (drop k ?ys) = []" by (simp add: filter_empty_conv)
      then have "filter (\<lambda>x. l \<le> x) ?ys = filter (\<lambda>x. l \<le> x) (take k ?ys)"
        by (metis append_Nil2 append_take_drop_id filter_append)
      then have "length (filter (\<lambda>x. l \<le> x) ?ys) \<le> k"
        by (metis length_filter_le length_take min.cobounded2 order_trans)
      with big cnt show False by simp
    qed
  qed
qed

lemma commit_lsn_le_iff:
  assumes "consensus_wf c"
  shows "l \<le> commit_lsn c \<longleftrightarrow> quorum c \<le> flushed_count c l"
proof -
  let ?xs = "map (flush_of c) (members c)"
  have k: "quorum c - 1 < length ?xs" "Suc (quorum c - 1) = quorum c"
    using quorum_bounds [OF assms] by auto
  have "flushed_count c l = length (filter (\<lambda>x. l \<le> x) ?xs)"
    by (simp add: flushed_count_def filter_map o_def)
  then show ?thesis
    using sorted_rev_nth_count [OF k(1), of l] k by (simp add: commit_lsn_def Let_def)
qed

lemma flush_of_record_flush:
  "flush_of (record_flush n l c) m = (if m = n then max l (flush_of c m) else flush_of c m)"
  by (auto simp: flush_of_def record_flush_def Let_def max_def)

lemma record_flush_simps [simp]:
  "node_id (record_flush n l c) = node_id c" "members (record_flush n l c) = members c"
  "quorum (record_flush n l c) = quorum c" "cterm (record_flush n l c) = cterm c"
  "role (record_flush n l c) = role c" "voted_for (record_flush n l c) = voted_for c"
  "votes (record_flush n l c) = votes c"
  by (simp_all add: record_flush_def Let_def)

lemma consensus_wf_record_flush [simp]: "consensus_wf (record_flush n l c) = consensus_wf c"
  by (simp add: consensus_wf_def)

lemma flushed_count_mono: "flushed_count c x \<le> flushed_count (record_flush n l c) x"
proof -
  have mono: "(\<And>y. P y \<Longrightarrow> Q y) \<Longrightarrow> length (filter P xs) \<le> length (filter Q xs)"
    for P Q and xs :: "NodeId list"
    by (induction xs) auto
  show ?thesis
    unfolding flushed_count_def flush_of_record_flush record_flush_simps
    by (rule mono) (auto simp: le_max_iff_disj)
qed

lemma commit_lsn_record_flush: "consensus_wf c \<Longrightarrow> commit_lsn c \<le> commit_lsn (record_flush n l c)"
  using flushed_count_mono [of c "commit_lsn c" n l] commit_lsn_le_iff [of c "commit_lsn c"]
  by (simp add: commit_lsn_le_iff)

section \<open>Quorums\<close>

text \<open>
  What leader election needs of a quorum system: two quorums share a member.  A candidate that holds
  the ballots of a quorum is then the only one, as soon as each member casts one ballot.
\<close>

locale quorum_system =
  fixes is_quorum :: "'n set \<Rightarrow> bool"
  assumes quorums_meet: "is_quorum Q \<Longrightarrow> is_quorum R \<Longrightarrow> Q \<inter> R \<noteq> {}"
begin

lemma one_winner:
  assumes one_ballot: "\<And>v c d. ballot v c \<Longrightarrow> ballot v d \<Longrightarrow> c = d"
    and "is_quorum Q" "\<And>v. v \<in> Q \<Longrightarrow> ballot v c"
    and "is_quorum R" "\<And>v. v \<in> R \<Longrightarrow> ballot v d"
  shows "c = d"
proof -
  obtain v where "v \<in> Q" "v \<in> R" using quorums_meet assms(2,4) by blast
  then show ?thesis using assms by blast
qed

end

definition majority :: "NodeId list \<Rightarrow> NodeId set \<Rightarrow> bool" where
  "majority ms Q \<longleftrightarrow> Q \<subseteq> set ms \<and> length ms div 2 + 1 \<le> card Q"

interpretation majority: quorum_system "majority ms" for ms
proof
  fix Q R assume q: "majority ms Q" "majority ms R"
  show "Q \<inter> R \<noteq> {}"
  proof
    assume "Q \<inter> R = {}"
    have fin: "finite Q" "finite R"
      using q finite_subset [OF _ finite_set] by (auto simp: majority_def)
    then have "card Q + card R = card (Q \<union> R)"
      using \<open>Q \<inter> R = {}\<close> by (simp add: card_Un_disjoint)
    also have "\<dots> \<le> card (set ms)" using q by (auto simp: majority_def intro: card_mono)
    also have "\<dots> \<le> length ms" by (rule card_length)
    finally show False using q by (auto simp: majority_def)
  qed
qed

section \<open>The group\<close>

text \<open>
  \<open>nodes\<close> is the state of each member.  \<open>ballots\<close> and \<open>led\<close> are history: which votes were cast
  (term, voter, candidate), a member's own vote included, and who was ever leader of which term.
\<close>

record Cluster =
  nodes :: "NodeId \<Rightarrow> Consensus"
  ballots :: "(Term \<times> NodeId \<times> NodeId) set"
  led :: "(Term \<times> NodeId) set"

definition set_node :: "NodeId \<Rightarrow> Consensus \<Rightarrow> Cluster \<Rightarrow> Cluster" where
  "set_node n c cl =
     cl\<lparr>nodes := (nodes cl)(n := c), led := (if is_leader c then insert (cterm c, n) (led cl) else led cl)\<rparr>"

definition add_ballot :: "Term \<times> NodeId \<times> NodeId \<Rightarrow> Cluster \<Rightarrow> Cluster" where
  "add_ballot b cl = cl\<lparr>ballots := insert b (ballots cl)\<rparr>"

definition member_init :: "NodeId list \<Rightarrow> NodeId \<Rightarrow> Consensus" where
  "member_init ms n =
     \<lparr>node_id = n, members = ms, quorum = length ms div 2 + 1, cterm = 0, role = Follower,
      voted_for = None, votes = {}, flush = (\<lambda>m. if m \<in> set ms then Some INVALID else None)\<rparr>"

definition cluster_init :: "NodeId list \<Rightarrow> Cluster" where
  "cluster_init ms = \<lparr>nodes = member_init ms, ballots = {}, led = {}\<rparr>"

lemma consensus_new_eq: "n \<in> set ms \<Longrightarrow> consensus_new n ms = Ok (member_init ms n)"
  by (simp add: consensus_new_def member_init_def)

text \<open>
  The steps.  An election is started only below the largest term, where the increment does not wrap.
  A vote request may carry any term and candidate; a grant reaches the candidate only if the voter
  gave it.
\<close>

definition do_elect :: "NodeId \<Rightarrow> Cluster \<Rightarrow> Cluster" where
  "do_elect n cl =
     (let (t, c) = start_election (nodes cl n) in set_node n c (add_ballot (t, n, n) cl))"

definition do_vote :: "NodeId \<Rightarrow> Term \<Rightarrow> NodeId \<Rightarrow> Cluster \<Rightarrow> Cluster" where
  "do_vote n t cand cl =
     (let (granted, c) = handle_vote_request t cand (nodes cl n) in
      set_node n c (if granted then add_ballot (t, n, cand) cl else cl))"

definition do_grant :: "NodeId \<Rightarrow> NodeId \<Rightarrow> Term \<Rightarrow> Cluster \<Rightarrow> Cluster" where
  "do_grant n v t cl = set_node n (handle_vote_granted v t (nodes cl n)) cl"

definition do_flush :: "NodeId \<Rightarrow> NodeId \<Rightarrow> Lsn \<Rightarrow> Cluster \<Rightarrow> Cluster" where
  "do_flush n m l cl = set_node n (record_flush m l (nodes cl n)) cl"

inductive cluster_step :: "NodeId list \<Rightarrow> Cluster \<Rightarrow> Cluster \<Rightarrow> bool" for ms where
  Elect: "n \<in> set ms \<Longrightarrow> cterm (nodes cl n) \<noteq> - 1 \<Longrightarrow> cluster_step ms cl (do_elect n cl)"
| Vote: "n \<in> set ms \<Longrightarrow> cluster_step ms cl (do_vote n t cand cl)"
| Grant: "n \<in> set ms \<Longrightarrow> v \<in> set ms \<Longrightarrow> (t, v, n) \<in> ballots cl \<Longrightarrow>
    cluster_step ms cl (do_grant n v t cl)"
| Flush: "n \<in> set ms \<Longrightarrow> cluster_step ms cl (do_flush n m l cl)"

inductive reachable :: "NodeId list \<Rightarrow> Cluster \<Rightarrow> bool" for ms where
  init: "reachable ms (cluster_init ms)"
| step: "reachable ms cl \<Longrightarrow> cluster_step ms cl cl' \<Longrightarrow> reachable ms cl'"

inductive_cases cluster_stepE: "cluster_step ms cl cl'"

definition cluster_inv :: "NodeId list \<Rightarrow> Cluster \<Rightarrow> bool" where
  "cluster_inv ms cl \<longleftrightarrow>
     (\<forall>n \<in> set ms. members (nodes cl n) = ms \<and> node_id (nodes cl n) = n \<and>
        quorum (nodes cl n) = length ms div 2 + 1) \<and>
     (\<forall>t v c d. (t, v, c) \<in> ballots cl \<and> (t, v, d) \<in> ballots cl \<longrightarrow> c = d) \<and>
     (\<forall>t v c. (t, v, c) \<in> ballots cl \<longrightarrow> v \<in> set ms \<and> t \<le> cterm (nodes cl v) \<and>
        (t = cterm (nodes cl v) \<longrightarrow> voted_for (nodes cl v) = Some c)) \<and>
     (\<forall>n \<in> set ms. role (nodes cl n) \<noteq> Follower \<longrightarrow>
        (\<forall>v \<in> votes (nodes cl n). (cterm (nodes cl n), v, n) \<in> ballots cl)) \<and>
     (\<forall>n \<in> set ms. role (nodes cl n) = Leader \<longrightarrow> quorum (nodes cl n) \<le> card (votes (nodes cl n))) \<and>
     (\<forall>t n. (t, n) \<in> led cl \<longrightarrow> (\<exists>Q. majority ms Q \<and> (\<forall>v \<in> Q. (t, v, n) \<in> ballots cl)))"

lemma cluster_inv_init: "cluster_inv ms (cluster_init ms)"
  by (simp add: cluster_inv_def cluster_init_def member_init_def)

lemma cluster_invD:
  assumes "cluster_inv ms cl"
  shows "n \<in> set ms \<Longrightarrow> members (nodes cl n) = ms" "n \<in> set ms \<Longrightarrow> node_id (nodes cl n) = n"
    "n \<in> set ms \<Longrightarrow> quorum (nodes cl n) = length ms div 2 + 1"
    "(t, v, c) \<in> ballots cl \<Longrightarrow> (t, v, d) \<in> ballots cl \<Longrightarrow> c = d"
    "(t, v, c) \<in> ballots cl \<Longrightarrow> v \<in> set ms"
    "(t, v, c) \<in> ballots cl \<Longrightarrow> t \<le> cterm (nodes cl v)"
    "(t, v, c) \<in> ballots cl \<Longrightarrow> t = cterm (nodes cl v) \<Longrightarrow> voted_for (nodes cl v) = Some c"
    "n \<in> set ms \<Longrightarrow> role (nodes cl n) \<noteq> Follower \<Longrightarrow> v \<in> votes (nodes cl n) \<Longrightarrow>
       (cterm (nodes cl n), v, n) \<in> ballots cl"
    "n \<in> set ms \<Longrightarrow> role (nodes cl n) = Leader \<Longrightarrow> quorum (nodes cl n) \<le> card (votes (nodes cl n))"
    "(t, n) \<in> led cl \<Longrightarrow> \<exists>Q. majority ms Q \<and> (\<forall>v \<in> Q. (t, v, n) \<in> ballots cl)"
proof -
  note C = assms [unfolded cluster_inv_def]
  note c1 = conjunct1 [OF C] and C2 = conjunct2 [OF C]
  note c2 = conjunct1 [OF C2] and C3 = conjunct2 [OF C2]
  note c3 = conjunct1 [OF C3] and C4 = conjunct2 [OF C3]
  note c4 = conjunct1 [OF C4] and C5 = conjunct2 [OF C4]
  note c5 = conjunct1 [OF C5] and c6 = conjunct2 [OF C5]
  show "n \<in> set ms \<Longrightarrow> members (nodes cl n) = ms" "n \<in> set ms \<Longrightarrow> node_id (nodes cl n) = n"
    "n \<in> set ms \<Longrightarrow> quorum (nodes cl n) = length ms div 2 + 1"
    using c1 by blast+
  show "(t, v, c) \<in> ballots cl \<Longrightarrow> (t, v, d) \<in> ballots cl \<Longrightarrow> c = d"
    using c2 by blast
  show "(t, v, c) \<in> ballots cl \<Longrightarrow> v \<in> set ms" "(t, v, c) \<in> ballots cl \<Longrightarrow> t \<le> cterm (nodes cl v)"
    "(t, v, c) \<in> ballots cl \<Longrightarrow> t = cterm (nodes cl v) \<Longrightarrow> voted_for (nodes cl v) = Some c"
    using c3 by blast+
  show "n \<in> set ms \<Longrightarrow> role (nodes cl n) \<noteq> Follower \<Longrightarrow> v \<in> votes (nodes cl n) \<Longrightarrow>
      (cterm (nodes cl n), v, n) \<in> ballots cl"
    using c4 by blast
  show "n \<in> set ms \<Longrightarrow> role (nodes cl n) = Leader \<Longrightarrow> quorum (nodes cl n) \<le> card (votes (nodes cl n))"
    using c5 by blast
  show "(t, n) \<in> led cl \<Longrightarrow> \<exists>Q. majority ms Q \<and> (\<forall>v \<in> Q. (t, v, n) \<in> ballots cl)"
    using c6 by blast
qed

text \<open>
  One lemma covers every step: a member moves to a state \<open>c\<close> while possibly one ballot of that
  member for its new term is recorded.
\<close>

definition node_ok :: "NodeId list \<Rightarrow> Cluster \<Rightarrow> NodeId \<Rightarrow> Consensus \<Rightarrow> bool" where
  "node_ok ms cl n c \<longleftrightarrow>
     members c = ms \<and> node_id c = n \<and> quorum c = length ms div 2 + 1 \<and>
     (\<forall>t d. (t, n, d) \<in> ballots cl \<longrightarrow> t \<le> cterm c \<and> (t = cterm c \<longrightarrow> voted_for c = Some d)) \<and>
     (role c \<noteq> Follower \<longrightarrow> (\<forall>v \<in> votes c. (cterm c, v, n) \<in> ballots cl)) \<and>
     (role c = Leader \<longrightarrow> quorum c \<le> card (votes c))"

lemma cluster_inv_set_node:
  assumes inv: "cluster_inv ms cl" and n: "n \<in> set ms"
    and same: "nodes cl' = nodes cl" "led cl' = led cl"
    and new: "ballots cl \<subseteq> ballots cl'"
      "\<And>b. b \<in> ballots cl' \<Longrightarrow> b \<in> ballots cl \<or> (\<exists>d. b = (cterm c, n, d))"
    and ok: "node_ok ms cl' n c"
  shows "cluster_inv ms (set_node n c cl')"
proof -
  have old: "(t, v, d) \<in> ballots cl" if "(t, v, d) \<in> ballots cl'" "v \<noteq> n \<or> t \<noteq> cterm c" for t v d
    using new(2) that by blast
  have mine: "voted_for c = Some d" if "(cterm c, n, d) \<in> ballots cl'" for d
    using ok that by (simp add: node_ok_def)
  have led: "\<exists>Q. majority ms Q \<and> (\<forall>v \<in> Q. (cterm c, v, n) \<in> ballots cl')" if lead: "is_leader c"
  proof -
    have b: "(cterm c, v, n) \<in> ballots cl'" if "v \<in> votes c" for v
      using ok lead that by (simp add: node_ok_def is_leader_def)
    have "v \<in> set ms" if "v \<in> votes c" for v
      using old [OF b [OF that]] n cluster_invD(5) [OF inv] by blast
    then have "majority ms (votes c)"
      using ok lead by (auto simp: node_ok_def is_leader_def majority_def)
    with b show ?thesis by blast
  qed
  show ?thesis
    unfolding cluster_inv_def
  proof (intro conjI, goal_cases)
    case 1
    then show ?case
      using ok same cluster_invD(1-3) [OF inv] by (simp add: set_node_def node_ok_def)
  next
    case 2
    have "x = y" if "(t, v, x) \<in> ballots cl'" "(t, v, y) \<in> ballots cl'" for t v x y
    proof (cases "v = n \<and> t = cterm c")
      case True
      with that mine have "voted_for c = Some x" "voted_for c = Some y" by blast+
      then show ?thesis by simp
    next
      case False
      with that old cluster_invD(4) [OF inv] show ?thesis by blast
    qed
    then show ?case by (auto simp: set_node_def)
  next
    case 3
    have "v \<in> set ms \<and> (v \<noteq> n \<longrightarrow> t \<le> cterm (nodes cl v) \<and>
        (t = cterm (nodes cl v) \<longrightarrow> voted_for (nodes cl v) = Some d))"
      if "(t, v, d) \<in> ballots cl'" for t v d
      using old [OF that] n cluster_invD(5-7) [OF inv] by blast
    then show ?case using ok same by (auto simp: set_node_def node_ok_def)
  next
    case 4
    then show ?case
      using ok same new(1) cluster_invD(8) [OF inv] by (auto simp: set_node_def node_ok_def)
  next
    case 5
    then show ?case
      using ok same cluster_invD(9) [OF inv] by (auto simp: set_node_def node_ok_def)
  next
    case 6
    have "\<exists>Q. majority ms Q \<and> (\<forall>v \<in> Q. (t, v, m) \<in> ballots cl')" if "(t, m) \<in> led cl" for t m
      using cluster_invD(10) [OF inv that] new(1) by blast
    then show ?case using led same by (auto simp: set_node_def)
  qed
qed

lemma maybe_become_leader_simps [simp]:
  "node_id (maybe_become_leader c) = node_id c" "members (maybe_become_leader c) = members c"
  "quorum (maybe_become_leader c) = quorum c" "cterm (maybe_become_leader c) = cterm c"
  "voted_for (maybe_become_leader c) = voted_for c" "votes (maybe_become_leader c) = votes c"
  "flush (maybe_become_leader c) = flush c"
  "role (maybe_become_leader c) = Follower \<longleftrightarrow> role c = Follower"
  by (auto simp: maybe_become_leader_def)

lemma maybe_become_leader_Leader:
  "role (maybe_become_leader c) = Leader \<longleftrightarrow>
     role c = Leader \<or> (role c = Candidate \<and> quorum c \<le> card (votes c))"
  by (auto simp: maybe_become_leader_def)

lemma term_Suc: "t \<noteq> - 1 \<Longrightarrow> (t :: u64) < t + 1"
proof -
  assume ne: "t \<noteq> - 1"
  have "unat (- 1 :: u64) = 2 ^ 64 - 1" by (simp add: unsigned_minus_1_eq_mask mask_eq_exp_minus_1)
  with ne have "unat t \<noteq> 2 ^ 64 - 1" by (metis word_unat_eq_iff)
  moreover have "unat t < 2 ^ 64" using unsigned_less [of t] by simp
  ultimately have "unat t + 1 < 2 ^ 64" by linarith
  then show ?thesis by (simp add: word_less_nat_alt unat_word_ariths)
qed

lemma cluster_inv_elect:
  assumes inv: "cluster_inv ms cl" and n: "n \<in> set ms" and t: "cterm (nodes cl n) \<noteq> - 1"
  shows "cluster_inv ms (do_elect n cl)"
proof -
  let ?c = "nodes cl n"
  have lt: "cterm ?c < cterm ?c + 1" by (rule term_Suc [OF t])
  have "d \<le> cterm ?c" if "(d, n, x) \<in> ballots cl" for d x
    using cluster_invD(6) [OF inv that] .
  then have ne: "d < cterm ?c + 1" if "(d, n, x) \<in> ballots cl" for d x
    using that lt by (meson le_less_trans)
  show ?thesis
    unfolding do_elect_def start_election_def Let_def case_prod_conv
    by (rule cluster_inv_set_node [OF inv n])
       (use cluster_invD(1-3) [OF inv n] ne in
        \<open>auto simp: add_ballot_def node_ok_def maybe_become_leader_Leader less_imp_le dest: ne\<close>)
qed

lemma cluster_inv_vote:
  assumes inv: "cluster_inv ms cl" and n: "n \<in> set ms"
  shows "cluster_inv ms (do_vote n t cand cl)"
proof -
  let ?c = "nodes cl n"
  note D = cluster_invD [OF inv]
  have b: "(s, n, d) \<in> ballots cl \<Longrightarrow> s \<le> cterm ?c"
    "(cterm ?c, n, d) \<in> ballots cl \<Longrightarrow> voted_for ?c = Some d" for s d
    using D(6,7) by blast+
  have unchanged: "cluster_inv ms (set_node n ?c cl)"
    by (rule cluster_inv_set_node [OF inv n])
       (use D(1-3,8,9) [OF n] b in \<open>auto simp: node_ok_def\<close>)
  consider (newer) "cterm ?c < t" | (same) "t = cterm ?c" | (older) "t < cterm ?c"
    by (metis linorder_cases)
  then show ?thesis
  proof cases
    case newer
    have "s < t" if "(s, n, d) \<in> ballots cl" for s d
      using b(1) [OF that] newer by (rule le_less_trans)
    with newer show ?thesis
      unfolding do_vote_def handle_vote_request_def observe_term_def Let_def
      by (simp, intro cluster_inv_set_node [OF inv n])
         (use D(1-3) [OF n] in \<open>auto simp: add_ballot_def node_ok_def less_imp_le\<close>)
  next
    case same
    show ?thesis
    proof (cases "voted_for ?c = None \<or> voted_for ?c = Some cand")
      case True
      with same show ?thesis
        unfolding do_vote_def handle_vote_request_def observe_term_def Let_def
        by (simp, intro cluster_inv_set_node [OF inv n])
           (use D(1-3,8,9) [OF n] b(1) in \<open>auto simp: add_ballot_def node_ok_def dest: b(2)\<close>)
    next
      case False
      with same have "handle_vote_request t cand ?c = (False, ?c)"
        by (auto simp: handle_vote_request_def observe_term_def Let_def)
      with unchanged show ?thesis by (simp add: do_vote_def)
    qed
  next
    case older
    then have "handle_vote_request t cand ?c = (False, ?c)"
      by (auto simp: handle_vote_request_def observe_term_def Let_def)
    with unchanged show ?thesis by (simp add: do_vote_def)
  qed
qed

lemma cluster_inv_grant:
  assumes inv: "cluster_inv ms cl" and n: "n \<in> set ms" and b: "(t, v, n) \<in> ballots cl"
  shows "cluster_inv ms (do_grant n v t cl)"
  unfolding do_grant_def
  by (rule cluster_inv_set_node [OF inv n])
     (use cluster_invD(1-3,8,9) [OF inv n] cluster_invD(6,7) [OF inv, of _ n] b in
      \<open>auto simp: node_ok_def handle_vote_granted_def maybe_become_leader_Leader\<close>)

lemma cluster_inv_flush:
  assumes inv: "cluster_inv ms cl" and n: "n \<in> set ms"
  shows "cluster_inv ms (do_flush n m l cl)"
  unfolding do_flush_def
  by (rule cluster_inv_set_node [OF inv n])
     (use cluster_invD(1-3,8,9) [OF inv n] cluster_invD(6,7) [OF inv, of _ n] in
      \<open>auto simp: node_ok_def\<close>)

lemma cluster_inv_step: "cluster_step ms cl cl' \<Longrightarrow> cluster_inv ms cl \<Longrightarrow> cluster_inv ms cl'"
  by (erule cluster_stepE)
     (auto intro: cluster_inv_elect cluster_inv_vote cluster_inv_grant cluster_inv_flush)

lemma reachable_inv: "reachable ms cl \<Longrightarrow> cluster_inv ms cl"
  by (induction rule: reachable.induct) (auto intro: cluster_inv_init cluster_inv_step)

lemma led_unique:
  assumes inv: "cluster_inv ms cl" and "(t, n) \<in> led cl" "(t, m) \<in> led cl"
  shows "n = m"
proof -
  obtain Q R where q: "majority ms Q" "\<forall>v \<in> Q. (t, v, n) \<in> ballots cl"
      "majority ms R" "\<forall>v \<in> R. (t, v, m) \<in> ballots cl"
    using cluster_invD(10) [OF inv] assms(2,3) by blast
  show ?thesis
    by (rule majority.one_winner [of "\<lambda>v c. (t, v, c) \<in> ballots cl" ms Q n R m])
       (use q cluster_invD(4) [OF inv] in blast)+
qed

lemma leader_in_led:
  "reachable ms cl \<Longrightarrow> n \<in> set ms \<Longrightarrow> is_leader (nodes cl n) \<Longrightarrow> (cterm (nodes cl n), n) \<in> led cl"
proof (induction rule: reachable.induct)
  case init
  then show ?case by (simp add: cluster_init_def member_init_def is_leader_def)
next
  case (step cl cl')
  have keep: "(cterm (nodes (set_node k c cx) n), n) \<in> led (set_node k c cx)"
    if "nodes cx = nodes cl" "led cx = led cl" "is_leader (nodes (set_node k c cx) n)" for k c cx
    using that step.IH step.prems(1) by (cases "k = n") (auto simp: set_node_def)
  from step.hyps(2) step.prems(2) show ?case
    by (cases rule: cluster_step.cases)
       (auto simp: do_elect_def do_vote_def do_grant_def do_flush_def add_ballot_def
          split: prod.splits intro!: keep)
qed

section \<open>Main results\<close>

text \<open>
  C1.  Election safety: in every state the group can reach, however elections, votes and messages
  interleave, at most one safekeeper was ever leader of a given term, and a member that believes
  itself leader is that one.
\<close>

theorem election_safety:
  assumes "reachable ms cl"
  shows "(\<forall>t n m. (t, n) \<in> led cl \<and> (t, m) \<in> led cl \<longrightarrow> n = m) \<and>
    (\<forall>i \<in> set ms. is_leader (nodes cl i) \<longrightarrow> (cterm (nodes cl i), i) \<in> led cl)"
  using assms reachable_inv [of ms cl] led_unique [of ms cl] leader_in_led [of ms cl] by blast

definition sample_election :: Cluster where
  "sample_election = do_grant 1 2 1 (do_vote 2 1 1 (do_elect 1 (cluster_init [1, 2, 3])))"

lemma sample_election_reachable: "reachable [1, 2, 3] sample_election"
proof -
  have "reachable [1, 2, 3] (do_elect 1 (cluster_init [1, 2, 3]))"
    by (rule reachable.step [OF reachable.init], rule cluster_step.Elect)
       (simp_all add: cluster_init_def member_init_def)
  then have "reachable [1, 2, 3] (do_vote 2 1 1 (do_elect 1 (cluster_init [1, 2, 3])))"
    by (rule reachable.step, intro cluster_step.Vote) simp
  then show ?thesis
    unfolding sample_election_def
    by (rule reachable.step, intro cluster_step.Grant)
       (simp_all add: do_vote_def do_elect_def start_election_def handle_vote_request_def
          observe_term_def maybe_become_leader_def set_node_def add_ballot_def cluster_init_def
          member_init_def Let_def)
qed

theorem election_safety_witness:
  "(1, 1) \<in> led sample_election \<and> is_leader (nodes sample_election 1) \<and>
   {m. (1, m) \<in> led sample_election} = {1}"
proof -
  have "(1, 1) \<in> led sample_election" "is_leader (nodes sample_election 1)"
    by (simp_all add: sample_election_def do_grant_def do_vote_def do_elect_def start_election_def
        handle_vote_request_def handle_vote_granted_def observe_term_def maybe_become_leader_def
        set_node_def add_ballot_def cluster_init_def member_init_def is_leader_def Let_def)
  then show ?thesis
    using election_safety [OF sample_election_reachable] by blast
qed

lemma flushed_count_card:
  "consensus_wf c \<Longrightarrow> flushed_count c l = card {m \<in> set (members c). l \<le> flush_of c m}"
  unfolding flushed_count_def consensus_wf_def
  by (auto simp: distinct_length_filter Int_def conj_commute)

text \<open>
  C20.  The commit position is exactly the greatest LSN that a quorum of the members has durably
  flushed: a quorum has reached it, and no later LSN has been reached by a quorum.
\<close>

theorem commit_lsn_is_quorum_flushed:
  assumes "consensus_wf c"
  shows "quorum c \<le> card {m \<in> set (members c). commit_lsn c \<le> flush_of c m} \<and>
    (\<forall>l. quorum c \<le> card {m \<in> set (members c). l \<le> flush_of c m} \<longrightarrow> l \<le> commit_lsn c)"
  using commit_lsn_le_iff [OF assms] flushed_count_card [OF assms] by auto

definition sample_member :: Consensus where
  "sample_member = record_flush 3 50 (record_flush 2 80 (record_flush 1 100 (member_init [1, 2, 3] 1)))"

lemma sample_member_facts: "consensus_wf sample_member" "commit_lsn sample_member = 80"
proof -
  show "consensus_wf sample_member"
    by (simp add: sample_member_def consensus_wf_def member_init_def)
  have m: "members sample_member = [1, 2, 3]" "quorum sample_member = 2"
    by (simp_all add: sample_member_def member_init_def)
  have "map (flush_of sample_member) [1, 2, 3] = [100, 80, 50]"
    by (simp add: sample_member_def record_flush_def member_init_def flush_of_def)
  then show "commit_lsn sample_member = 80"
    unfolding commit_lsn_def m by simp
qed

theorem commit_lsn_is_quorum_flushed_witness:
  "commit_lsn sample_member = 80 \<and>
   quorum sample_member \<le> card {m \<in> set (members sample_member). 80 \<le> flush_of sample_member m}"
  using sample_member_facts commit_lsn_is_quorum_flushed [of sample_member] by simp

text \<open>
  Flush reports only ever advance the commit position, in whatever order they arrive and even
  when they repeat or go backwards.
\<close>

theorem commit_lsn_monotone:
  assumes "consensus_wf c"
  shows "commit_lsn c \<le> commit_lsn (fold (\<lambda>(n, l). record_flush n l) reports c)"
  using assms
proof (induction reports arbitrary: c)
  case Nil
  then show ?case by simp
next
  case (Cons r reports)
  obtain n l where r: "r = (n, l)" by (cases r)
  have "commit_lsn c \<le> commit_lsn (record_flush n l c)"
    using Cons.prems by (rule commit_lsn_record_flush)
  also have "\<dots> \<le> commit_lsn (fold (\<lambda>(n, l). record_flush n l) reports (record_flush n l c))"
    using Cons.prems by (intro Cons.IH) simp
  finally show ?case by (simp add: r)
qed

definition do_restart :: "NodeId list \<Rightarrow> NodeId \<Rightarrow> Cluster \<Rightarrow> Cluster" where
  "do_restart ms n cl = set_node n (member_init ms n) cl"

text \<open>
  C23.  Election safety does not survive a restart.  The vote and the term of a member live in memory
  only, since \<open>Consensus::new\<close> starts at term 0 with no vote: from a reachable state, a member that
  restarts between two elections votes a second time in the same term, and the term gets two leaders
  at the same time.
\<close>

theorem restart_breaks_election_safety:
  "reachable [1, 2, 3] sample_election \<and>
   (let cl = do_grant 3 2 1 (do_vote 2 1 3 (do_elect 3 (do_restart [1, 2, 3] 2 sample_election)))
    in is_leader (nodes cl 1) \<and> is_leader (nodes cl 3) \<and> cterm (nodes cl 1) = cterm (nodes cl 3))"
  using sample_election_reachable
  by (simp add: sample_election_def do_restart_def do_grant_def do_vote_def do_elect_def
      start_election_def handle_vote_request_def handle_vote_granted_def observe_term_def
      maybe_become_leader_def set_node_def add_ballot_def cluster_init_def member_init_def
      is_leader_def Let_def)

end
