(* ===== verification/Wal_Storage.thy ===== *)
theory Wal_Storage
  imports Common_Types
begin

text \<open>
  The durable WAL store of a safekeeper, \<open>safekeeper/src/storage.rs\<close>: fixed-size segment files, an
  in-memory ring of the most recent bytes, explicit flushes and a metadata file from which a restart
  resumes.  The data directory is modelled as a \<open>Disk\<close>: for each segment, for the metadata file and for
  its temporary the content a reader sees and the content known to have reached stable storage, and the
  directory that last reached stable storage.  A \<open>sync_all\<close> makes the visible content of a file stable; a
  rename moves a file to another name.  A crash keeps of a segment, byte by byte, either the stable or
  the visible content, and of a metadata file that was not synced nothing at all.  The code never syncs
  the directory: \<open>crash_image\<close> is a crash on a file system that keeps the directory entries, \<open>names_lost\<close>
  one after which the directory is the old one.  I/O errors other than a missing file or a short read are
  not modelled.  The store refines an append-only byte log; what was flushed survives every crash of the
  first kind, at any point of a later flush, and is lost by one of the second kind.
\<close>

section \<open>Disk\<close>

datatype IoKind = IoNotFound | UnexpectedEof

datatype StorageError =
    NonContiguous Lsn Lsn
  | OutOfRange Lsn Lsn Lsn Lsn
  | CorruptMeta
  | Io IoKind

text \<open>
  The metadata file and its temporary, each with its visible and its synced content, and what the
  directory on stable storage names: the metadata file and the segments.
\<close>

record MetaFiles =
  meta_data :: "bytes option"
  meta_synced :: "bytes option"
  tmp_data :: "bytes option"
  tmp_synced :: "bytes option"
  dir_meta :: "bytes option"
  dir_segs :: "nat set"

record Disk =
  segs :: "nat \<rightharpoonup> bytes"
  stable :: "nat \<rightharpoonup> bytes"
  meta :: MetaFiles

definition file_write :: "nat \<Rightarrow> bytes \<Rightarrow> bytes \<Rightarrow> bytes" where
  "file_write off bs f =
     take off (f @ replicate (off - length f) 0) @ bs @ drop (off + length bs) f"

definition META_MAGIC :: u32 where "META_MAGIC = 0x534B4D31"

definition read_meta :: "Disk \<Rightarrow> (StorageError, (Lsn \<times> Lsn) option) result" where
  "read_meta d =
     (case meta_data (meta d) of
        None \<Rightarrow> Ok None
      | Some buf \<Rightarrow>
          (if length buf \<noteq> 20 then Err CorruptMeta
           else rbind (get_u32 buf 0) (\<lambda>magic.
             if magic \<noteq> META_MAGIC then Err CorruptMeta
             else rbind (get_u64 buf 4) (\<lambda>start.
                  rbind (get_u64 buf 12) (\<lambda>flush.
                  Ok (Some (start, flush)))))))"

text \<open>\<open>write_meta\<close>: create or truncate the temporary and write it, sync it, rename it over the metadata file.\<close>

definition tmp_write :: "bytes \<Rightarrow> Disk \<Rightarrow> Disk" where
  "tmp_write buf d = d\<lparr>meta := (meta d)\<lparr>tmp_data := Some buf, tmp_synced := None\<rparr>\<rparr>"

definition tmp_sync_all :: "Disk \<Rightarrow> Disk" where
  "tmp_sync_all d = d\<lparr>meta := (meta d)\<lparr>tmp_synced := tmp_data (meta d)\<rparr>\<rparr>"

definition tmp_rename :: "Disk \<Rightarrow> Disk" where
  "tmp_rename d =
     d\<lparr>meta := (meta d)\<lparr>meta_data := tmp_data (meta d), meta_synced := tmp_synced (meta d),
                        tmp_data := None, tmp_synced := None\<rparr>\<rparr>"

definition meta_bytes :: "Lsn \<Rightarrow> Lsn \<Rightarrow> bytes" where
  "meta_bytes start flush = u32_to_be META_MAGIC @ u64_to_be start @ u64_to_be flush"

definition write_meta :: "Lsn \<Rightarrow> Lsn \<Rightarrow> Disk \<Rightarrow> Disk" where
  "write_meta start flush d = tmp_rename (tmp_sync_all (tmp_write (meta_bytes start flush) d))"

section \<open>The store\<close>

record WalStorage =
  segment_size :: u64
  ring_capacity :: nat
  start_lsn :: Lsn
  write_lsn :: Lsn
  flush_lsn :: Lsn
  ring :: bytes
  ring_start :: Lsn
  open_seg :: "nat option"
  dirty_segments :: "nat list"
  disk :: Disk

definition storage_open :: "u64 \<Rightarrow> nat \<Rightarrow> Disk \<Rightarrow> (StorageError, WalStorage) result" where
  "storage_open seg_size cap d =
     rbind (read_meta d) (\<lambda>m.
       let (start, fl) = (case m of Some sf \<Rightarrow> sf | None \<Rightarrow> (INVALID, INVALID)) in
       Ok \<lparr>segment_size = seg_size, ring_capacity = cap, start_lsn = start, write_lsn = fl,
           flush_lsn = fl, ring = [], ring_start = fl, open_seg = None, dirty_segments = [],
           disk = d\<rparr>)"

text \<open>
  \<open>append_segment\<close> makes sure the append handle points at the segment, creating the file at its full
  size when it is absent.  A handle whose file was unlinked keeps accepting writes that no reader sees.
\<close>

definition append_segment :: "nat \<Rightarrow> WalStorage \<Rightarrow> WalStorage" where
  "append_segment index st =
     (if open_seg st = Some index then st
      else
        let d = disk st;
            d' = (if segs d index = None
                  then d\<lparr>segs := (segs d)(index \<mapsto> replicate (unat (segment_size st)) 0)\<rparr> else d)
        in st\<lparr>disk := d', open_seg := Some index\<rparr>)"

definition handle_write :: "nat \<Rightarrow> nat \<Rightarrow> bytes \<Rightarrow> WalStorage \<Rightarrow> WalStorage" where
  "handle_write index off bs st =
     (let d = disk st in
      st\<lparr>disk := d\<lparr>segs := (case segs d index of
                        None \<Rightarrow> segs d
                      | Some f \<Rightarrow> (segs d)(index \<mapsto> file_write off bs f))\<rparr>\<rparr>)"

lemma chunk_space_pos: "S \<noteq> 0 \<Longrightarrow> 0 < unat (S - pos mod S :: u64)"
  by (metis eq_iff_diff_eq_0 neq0_conv unat_eq_0 word_mod_less_divisor
      word_neq_0_conv order_less_irrefl)

definition append_chunk :: "bytes \<Rightarrow> WalStorage \<Rightarrow> WalStorage" where
  "append_chunk bs st =
     (let pos = write_lsn st;
          index = unat (pos div segment_size st);
          offset = unat (pos mod segment_size st);
          st1 = handle_write index offset bs (append_segment index st)
      in st1\<lparr>dirty_segments := (if index \<in> set (dirty_segments st1) then dirty_segments st1
                                 else insort index (dirty_segments st1)),
              write_lsn := pos + of_nat (length bs)\<rparr>)"

function append_chunks :: "bytes \<Rightarrow> WalStorage \<Rightarrow> WalStorage" where
  "append_chunks rest st =
     (if rest = [] \<or> segment_size st = 0 then st
      else
        let offset = write_lsn st mod segment_size st;
            space = unat (segment_size st - offset);
            n = min space (length rest)
        in append_chunks (drop n rest) (append_chunk (take n rest) st))"
  by auto

termination
proof (relation "measure (\<lambda>(rest, st). length rest)", goal_cases)
  case 1
  then show ?case by simp
next
  case (2 rest st)
  then show ?case using chunk_space_pos [of "segment_size st" "write_lsn st"] by (cases rest) auto
qed

declare append_chunks.simps [simp del]

fun evict :: "nat \<Rightarrow> bytes \<Rightarrow> Lsn \<Rightarrow> bytes \<times> Lsn" where
  "evict cap [] start = ([], start)"
| "evict cap (b # bs) start =
     (if length (b # bs) > cap then evict cap bs (start + 1) else (b # bs, start))"

definition seed :: "Lsn \<Rightarrow> WalStorage \<Rightarrow> WalStorage" where
  "seed start st =
     (if \<not> is_valid (write_lsn st) \<and> \<not> is_valid (start_lsn st)
      then st\<lparr>start_lsn := start, write_lsn := start, flush_lsn := start, ring_start := start\<rparr>
      else st)"

definition storage_append :: "Lsn \<Rightarrow> bytes \<Rightarrow> WalStorage \<Rightarrow> WalStorage \<times> (StorageError, unit) result" where
  "storage_append start bs st =
     (let st0 = seed start st in
      if start \<noteq> write_lsn st0 then (st0, Err (NonContiguous (write_lsn st0) start))
      else if bs = [] then (st0, Ok ())
      else if segment_size st0 = 0 then (st0, Panic)
      else
        let st1 = append_chunks bs st0;
            (r, rs) = evict (ring_capacity st1) (ring st1 @ bs) (ring_start st1)
        in (st1\<lparr>ring := r, ring_start := rs\<rparr>, Ok ()))"

fun sync_segments :: "nat list \<Rightarrow> WalStorage \<Rightarrow> WalStorage \<times> (StorageError, unit) result" where
  "sync_segments [] st = (st, Ok ())"
| "sync_segments (i # is) st =
     (let d = disk st in
      case segs d i of
        Some f \<Rightarrow> sync_segments is (st\<lparr>disk := d\<lparr>stable := (stable d)(i \<mapsto> f)\<rparr>\<rparr>)
      | None \<Rightarrow> (if open_seg st = Some i then sync_segments is st else (st, Err (Io IoNotFound))))"

definition storage_flush :: "WalStorage \<Rightarrow> WalStorage \<times> (StorageError, Lsn) result" where
  "storage_flush st =
     (case sync_segments (dirty_segments st) st of
        (st1, Ok _) \<Rightarrow>
          (let st2 = st1\<lparr>dirty_segments := [], flush_lsn := write_lsn st1,
                        disk := write_meta (start_lsn st1) (write_lsn st1) (disk st1)\<rparr>
           in (st2, Ok (flush_lsn st2)))
      | (st1, Err e) \<Rightarrow> (st1, Err e)
      | (st1, Panic) \<Rightarrow> (st1, Panic))"

function read_segments :: "u64 \<Rightarrow> Disk \<Rightarrow> Lsn \<Rightarrow> nat \<Rightarrow> nat \<Rightarrow> (StorageError, bytes) result" where
  "read_segments S d lsn len done =
     (if len \<le> done then Ok []
      else if S = 0 then Panic
      else
        let pos = lsn + of_nat done;
            index = unat (pos div S);
            offset = pos mod S;
            space = unat (S - offset);
            n = min space (len - done)
        in case segs d index of
             None \<Rightarrow> Err (Io IoNotFound)
           | Some f \<Rightarrow>
               (if length f < unat offset + n then Err (Io UnexpectedEof)
                else rbind (read_segments S d lsn len (done + n)) (\<lambda>rest.
                       Ok (take n (drop (unat offset) f) @ rest))))"
  by auto

termination
proof (relation "measure (\<lambda>(S, d, lsn, len, done). len - done)", goal_cases)
  case 1
  then show ?case by simp
next
  case (2 S d lsn len "done")
  then show ?case using chunk_space_pos [of S "lsn + of_nat done"] by auto
qed

declare read_segments.simps [simp del]

definition ring_read :: "bytes \<Rightarrow> nat \<Rightarrow> nat \<Rightarrow> (StorageError, bytes) result" where
  "ring_read r off len = (if len = 0 then Ok [] else get_bytes r off len)"

definition read_at :: "Lsn \<Rightarrow> nat \<Rightarrow> WalStorage \<Rightarrow> (StorageError, bytes) result" where
  "read_at lsn len st =
     (let end = lsn + of_nat len in
      if lsn < start_lsn st \<or> end > write_lsn st
      then Err (OutOfRange lsn end (start_lsn st) (write_lsn st))
      else if lsn \<ge> ring_start st \<and> end \<le> write_lsn st \<and> ring st \<noteq> []
      then ring_read (ring st) (unat (lsn - ring_start st)) len
      else read_segments (segment_size st) (disk st) lsn len 0)"

function remove_loop :: "nat \<Rightarrow> nat \<Rightarrow> nat \<Rightarrow> Disk \<Rightarrow> nat \<times> nat \<times> Disk" where
  "remove_loop horizon_seg index removed d =
     (if index < horizon_seg then
        (if segs d index \<noteq> None
         then remove_loop horizon_seg (index + 1) (removed + 1)
                (d\<lparr>segs := (segs d)(index := None), stable := (stable d)(index := None)\<rparr>)
         else remove_loop horizon_seg (index + 1) removed d)
      else (index, removed, d))"
  by auto

termination
  by (relation "measure (\<lambda>(h, i, r, d). h - i)") auto

declare remove_loop.simps [simp del]

definition remove_segments_before :: "Lsn \<Rightarrow> WalStorage \<Rightarrow> WalStorage \<times> (StorageError, nat) result" where
  "remove_segments_before horizon st =
     (if segment_size st = 0 then (st, Panic)
      else
        let S = segment_size st;
            first = unat (start_lsn st div S);
            horizon_seg = unat (horizon div S);
            (index, removed, d) = remove_loop horizon_seg first 0 (disk st);
            floor = (if first < index then of_nat index * S else start_lsn st)
        in (st\<lparr>disk := d, start_lsn := (if floor > start_lsn st then floor else start_lsn st)\<rparr>,
            Ok removed))"

section \<open>Byte positions\<close>

text \<open>
  Positions of the log are natural numbers below; position \<open>p\<close> lives in segment \<open>p div S\<close> at
  offset \<open>p mod S\<close>.
\<close>

abbreviation seg_nat :: "WalStorage \<Rightarrow> nat" where
  "seg_nat st \<equiv> unat (segment_size st)"

definition byte_in :: "(nat \<rightharpoonup> bytes) \<Rightarrow> nat \<Rightarrow> nat \<Rightarrow> u8" where
  "byte_in m S p = (case m (p div S) of None \<Rightarrow> 0 | Some f \<Rightarrow> f ! (p mod S))"

definition files_ok :: "WalStorage \<Rightarrow> bool" where
  "files_ok st \<longleftrightarrow> segment_size st \<noteq> 0 \<and>
     (\<forall>i f. segs (disk st) i = Some f \<longrightarrow> length f = seg_nat st) \<and>
     (\<forall>i f. stable (disk st) i = Some f \<longrightarrow> length f = seg_nat st) \<and>
     (\<forall>i. open_seg st = Some i \<and> unat (write_lsn st) div seg_nat st \<le> i \<longrightarrow> segs (disk st) i \<noteq> None)"

lemma length_file_write: "off + length bs \<le> length f \<Longrightarrow> length (file_write off bs f) = length f"
  by (simp add: file_write_def)

lemma nth_file_write:
  "off + length bs \<le> length f \<Longrightarrow> j < length f \<Longrightarrow>
   file_write off bs f ! j = (if off \<le> j \<and> j < off + length bs then bs ! (j - off) else f ! j)"
  by (auto simp: file_write_def nth_append min_def)

lemma files_okD:
  assumes "files_ok st"
  shows "0 < seg_nat st" "segs (disk st) i = Some f \<Longrightarrow> length f = seg_nat st"
    "stable (disk st) i = Some f \<Longrightarrow> length f = seg_nat st"
    "open_seg st = Some i \<Longrightarrow> unat (write_lsn st) div seg_nat st \<le> i \<Longrightarrow> segs (disk st) i \<noteq> None"
  using assms by (auto simp: files_ok_def unat_gt_0)

lemma index_offset:
  "unat (pos div S) = unat pos div unat S" "unat (pos mod S) = unat pos mod unat (S :: u64)"
  by (simp_all add: unat_div_distrib unat_mod_distrib)

lemma chunk_space: "S \<noteq> 0 \<Longrightarrow> unat (S - pos mod S) = unat S - unat pos mod unat (S :: u64)"
proof -
  assume "S \<noteq> 0"
  then have "pos mod S \<le> S" by (meson less_imp_le word_mod_less_divisor word_neq_0_conv)
  then show ?thesis by (simp add: unat_sub index_offset)
qed

lemma unat_add_nat:
  "unat (l :: u64) + n < 2 ^ 64 \<Longrightarrow> unat (l + of_nat n) = unat l + n"
  by (simp add: unat_word_ariths unat_of_nat)

text \<open>One chunk: the segment file after it, position by position.\<close>

lemma append_chunk_simps [simp]:
  "segment_size (append_chunk bs st) = segment_size st" "ring_capacity (append_chunk bs st) = ring_capacity st"
  "start_lsn (append_chunk bs st) = start_lsn st" "flush_lsn (append_chunk bs st) = flush_lsn st"
  "ring (append_chunk bs st) = ring st" "ring_start (append_chunk bs st) = ring_start st"
  "stable (disk (append_chunk bs st)) = stable (disk st)" "meta (disk (append_chunk bs st)) = meta (disk st)"
  "write_lsn (append_chunk bs st) = write_lsn st + of_nat (length bs)"
  "open_seg (append_chunk bs st) = Some (unat (write_lsn st) div seg_nat st)"
  "set (dirty_segments (append_chunk bs st)) = insert (unat (write_lsn st) div seg_nat st) (set (dirty_segments st))"
  by (auto simp: append_chunk_def handle_write_def append_segment_def Let_def index_offset set_insort_key)

lemma append_chunk_segs:
  assumes ok: "files_ok st"
  defines "i \<equiv> unat (write_lsn st) div seg_nat st"
  shows "segs (disk (append_chunk bs st)) =
    (segs (disk st))(i \<mapsto> file_write (unat (write_lsn st) mod seg_nat st) bs
       (case segs (disk st) i of None \<Rightarrow> replicate (seg_nat st) 0 | Some f \<Rightarrow> f))"
proof -
  have "open_seg st = Some i \<Longrightarrow> segs (disk st) i \<noteq> None"
    using files_okD(4) [OF ok] by (simp add: i_def)
  then show ?thesis
    by (auto simp: append_chunk_def handle_write_def append_segment_def Let_def index_offset i_def
        split: option.splits)
qed

lemma append_chunk_ok:
  assumes ok: "files_ok st" and bs: "bs \<noteq> []"
    and fit: "unat (write_lsn st) mod seg_nat st + length bs \<le> seg_nat st"
    and no_wrap: "unat (write_lsn st) + length bs < 2 ^ 64"
  shows "files_ok (append_chunk bs st)"
proof -
  let ?S = "seg_nat st" and ?w = "unat (write_lsn st)"
  have pos: "0 < ?S" by (rule files_okD(1) [OF ok])
  have len: "length (case segs (disk st) j of None \<Rightarrow> replicate ?S 0 | Some f \<Rightarrow> f) = ?S" for j
    using files_okD(2) [OF ok] by (auto split: option.splits)
  have le: "?w div ?S \<le> unat (write_lsn st + of_nat (length bs)) div ?S"
    using unat_add_nat [OF no_wrap] by (simp add: div_le_mono)
  show ?thesis
    unfolding files_ok_def append_chunk_segs [OF ok]
    using files_okD [OF ok] pos fit len by (auto simp: length_file_write unat_gt_0)
qed

lemma append_chunk_byte:
  assumes ok: "files_ok st"
    and fit: "unat (write_lsn st) mod seg_nat st + length bs \<le> seg_nat st"
  shows "byte_in (segs (disk (append_chunk bs st))) (seg_nat st) p =
     (if unat (write_lsn st) \<le> p \<and> p < unat (write_lsn st) + length bs
      then bs ! (p - unat (write_lsn st)) else byte_in (segs (disk st)) (seg_nat st) p)"
proof -
  let ?S = "seg_nat st" and ?w = "unat (write_lsn st)"
  let ?f = "case segs (disk st) (?w div ?S) of None \<Rightarrow> replicate ?S 0 | Some f \<Rightarrow> f"
  have pos: "0 < ?S" by (rule files_okD(1) [OF ok])
  have len: "length ?f = ?S"
    using files_okD(2) [OF ok] by (auto split: option.splits)
  have w: "?w = ?w div ?S * ?S + ?w mod ?S" by simp
  show ?thesis
  proof (cases "p div ?S = ?w div ?S")
    case True
    then have p: "p = ?w div ?S * ?S + p mod ?S" by (metis div_mult_mod_eq)
    have rng: "?w \<le> p \<and> p < ?w + length bs \<longleftrightarrow>
        ?w mod ?S \<le> p mod ?S \<and> p mod ?S < ?w mod ?S + length bs"
      using p w by linarith
    have diff: "p - ?w = p mod ?S - ?w mod ?S" using p w by linarith
    show ?thesis
      unfolding append_chunk_segs [OF ok] byte_in_def
      using True pos len fit
      by (simp add: nth_file_write rng diff split: option.splits)
  next
    case False
    have "\<not> (?w \<le> p \<and> p < ?w + length bs)"
    proof
      assume "?w \<le> p \<and> p < ?w + length bs"
      then have "?w div ?S * ?S \<le> p" "p < ?w div ?S * ?S + ?S" using w fit by linarith+
      then have "p div ?S = ?w div ?S"
        by (simp add: div_nat_eqI mult.commute)
      with False show False ..
    qed
    with False show ?thesis
      by (auto simp: append_chunk_segs [OF ok] byte_in_def)
  qed
qed

text \<open>
  What appending the bytes \<open>bs\<close> does to a store, whatever the number of segments they span; the
  relation composes, so the loop inherits it from its chunks.
\<close>

definition appended :: "bytes \<Rightarrow> WalStorage \<Rightarrow> WalStorage \<Rightarrow> bool" where
  "appended bs st st' \<longleftrightarrow>
     files_ok st' \<and> unat (write_lsn st') = unat (write_lsn st) + length bs \<and>
     segment_size st' = segment_size st \<and> ring_capacity st' = ring_capacity st \<and>
     start_lsn st' = start_lsn st \<and> flush_lsn st' = flush_lsn st \<and> ring st' = ring st \<and>
     ring_start st' = ring_start st \<and> stable (disk st') = stable (disk st) \<and>
     meta (disk st') = meta (disk st) \<and>
     (\<forall>p. byte_in (segs (disk st')) (seg_nat st) p =
        (if unat (write_lsn st) \<le> p \<and> p < unat (write_lsn st) + length bs
         then bs ! (p - unat (write_lsn st)) else byte_in (segs (disk st)) (seg_nat st) p)) \<and>
     (\<forall>i. segs (disk st) i \<noteq> None \<longrightarrow> segs (disk st') i \<noteq> None) \<and>
     (\<forall>p. unat (write_lsn st) \<le> p \<and> p < unat (write_lsn st) + length bs \<longrightarrow>
        segs (disk st') (p div seg_nat st) \<noteq> None) \<and>
     set (dirty_segments st') = set (dirty_segments st) \<union>
        (\<lambda>p. p div seg_nat st) ` {unat (write_lsn st)..<unat (write_lsn st) + length bs}"

lemma appended_chunk:
  assumes ok: "files_ok st" and bs: "bs \<noteq> []"
    and fit: "unat (write_lsn st) mod seg_nat st + length bs \<le> seg_nat st"
    and no_wrap: "unat (write_lsn st) + length bs < 2 ^ 64"
  shows "appended bs st (append_chunk bs st)"
proof -
  let ?S = "seg_nat st" and ?w = "unat (write_lsn st)"
  have div_eq: "p div ?S = ?w div ?S" if "?w \<le> p" "p < ?w + length bs" for p
  proof -
    have w: "?w = ?w div ?S * ?S + ?w mod ?S" by simp
    then have "?w div ?S * ?S \<le> p" "p < ?w div ?S * ?S + ?S" using that fit by linarith+
    then show ?thesis by (simp add: div_nat_eqI mult.commute)
  qed
  have img: "(\<lambda>p. p div ?S) ` {?w..<?w + length bs} = {?w div ?S}"
  proof
    show "(\<lambda>p. p div ?S) ` {?w..<?w + length bs} \<subseteq> {?w div ?S}" using div_eq by auto
    have "?w \<in> {?w..<?w + length bs}" using bs by simp
    then show "{?w div ?S} \<subseteq> (\<lambda>p. p div ?S) ` {?w..<?w + length bs}" by blast
  qed
  have "segs (disk (append_chunk bs st)) i \<noteq> None" if "segs (disk st) i \<noteq> None \<or> i = ?w div ?S" for i
    using that by (auto simp: append_chunk_segs [OF ok])
  then show ?thesis
    unfolding appended_def img
    using append_chunk_ok [OF ok bs fit no_wrap] unat_add_nat [OF no_wrap]
      append_chunk_byte [OF ok fit] div_eq
    by (simp only: append_chunk_simps simp_thms) (simp add: insert_is_Un [symmetric])
qed

lemma appendedD:
  assumes "appended bs st st'"
  shows "files_ok st'" "unat (write_lsn st') = unat (write_lsn st) + length bs"
    "segment_size st' = segment_size st" "ring_capacity st' = ring_capacity st"
    "start_lsn st' = start_lsn st" "flush_lsn st' = flush_lsn st" "ring st' = ring st"
    "ring_start st' = ring_start st" "stable (disk st') = stable (disk st)"
    "meta (disk st') = meta (disk st)"
    "byte_in (segs (disk st')) (seg_nat st) p =
        (if unat (write_lsn st) \<le> p \<and> p < unat (write_lsn st) + length bs
         then bs ! (p - unat (write_lsn st)) else byte_in (segs (disk st)) (seg_nat st) p)"
    "segs (disk st) i \<noteq> None \<Longrightarrow> segs (disk st') i \<noteq> None"
    "unat (write_lsn st) \<le> p \<Longrightarrow> p < unat (write_lsn st) + length bs \<Longrightarrow>
        segs (disk st') (p div seg_nat st) \<noteq> None"
    "set (dirty_segments st') = set (dirty_segments st) \<union>
        (\<lambda>p. p div seg_nat st) ` {unat (write_lsn st)..<unat (write_lsn st) + length bs}"
  using assms unfolding appended_def by (elim conjE; assumption | erule allE; assumption | blast)+

lemma appended_trans:
  assumes a: "appended bs st st1" and b: "appended cs st1 st2"
  shows "appended (bs @ cs) st st2"
proof -
  let ?S = "seg_nat st" and ?w = "unat (write_lsn st)" and ?w1 = "unat (write_lsn st1)"
  note A = appendedD [OF a] and B = appendedD [OF b]
  have byte: "byte_in (segs (disk st2)) ?S p =
      (if ?w \<le> p \<and> p < ?w + length (bs @ cs) then (bs @ cs) ! (p - ?w)
       else byte_in (segs (disk st)) ?S p)" for p
    using A(11) [of p] B(11) [of p] A(2,3) by (simp add: nth_append) linarith
  have present: "segs (disk st2) (p div ?S) \<noteq> None" if "?w \<le> p" "p < ?w + length (bs @ cs)" for p
  proof (cases "p < ?w1")
    case True
    then have "segs (disk st1) (p div ?S) \<noteq> None" using A(2,13) that by simp
    then show ?thesis by (rule B(12))
  next
    case False
    then show ?thesis using B(13) [of p] that A(2,3) by simp
  qed
  have dirty: "set (dirty_segments st2) = set (dirty_segments st) \<union>
      (\<lambda>p. p div ?S) ` {?w..<?w + length (bs @ cs)}"
  proof -
    have "{?w..<?w + length (bs @ cs)} = {?w..<?w + length bs} \<union> {?w1..<?w1 + length cs}"
      using A(2) by auto
    then show ?thesis using A(3,14) B(14) by (simp add: image_Un Un_assoc)
  qed
  have keep: "segs (disk st) i \<noteq> None \<Longrightarrow> segs (disk st2) i \<noteq> None" for i
    by (rule B(12), rule A(12))
  show ?thesis
    unfolding appended_def using byte present dirty keep
    by (simp only: A(2-10) B(1-10) length_append add.assoc simp_thms) blast
qed

lemma appended_append_chunks:
  assumes "files_ok st" "unat (write_lsn st) + length rest < 2 ^ 64"
  shows "appended rest st (append_chunks rest st)"
  using assms
proof (induction rest st rule: append_chunks.induct)
  case (1 rest st)
  show ?case
  proof (cases "rest = []")
    case True
    then show ?thesis using "1.prems" by (auto simp: append_chunks.simps appended_def)
  next
    case False
    have S: "segment_size st \<noteq> 0" using "1.prems" by (simp add: files_ok_def)
    define n where "n = min (unat (segment_size st - write_lsn st mod segment_size st)) (length rest)"
    have n: "0 < n" "n \<le> length rest" "unat (write_lsn st) mod seg_nat st + n \<le> seg_nat st"
      using False chunk_space_pos [OF S, of "write_lsn st"]
        mod_less_divisor [OF files_okD(1) [OF "1.prems"(1)], of "unat (write_lsn st)"]
      by (auto simp: n_def chunk_space [OF S])
    have chunk: "appended (take n rest) st (append_chunk (take n rest) st)"
      by (rule appended_chunk) (use "1.prems" n False in auto)
    then have ok: "files_ok (append_chunk (take n rest) st)"
      and w: "unat (write_lsn (append_chunk (take n rest) st)) = unat (write_lsn st) + n"
      using n by (simp_all add: appended_def)
    have "appended (drop n rest) (append_chunk (take n rest) st)
        (append_chunks (drop n rest) (append_chunk (take n rest) st))"
      using "1.IH" [OF _ refl refl n_def] False S ok w "1.prems"(2) n by simp
    from appended_trans [OF chunk this] show ?thesis
      using False S by (simp add: append_chunks.simps [of rest st] n_def Let_def)
  qed
qed

lemma evict_eq: "evict cap bs l = (drop (length bs - cap) bs, l + of_nat (length bs - cap))"
  by (induction cap bs l rule: evict.induct) (auto simp: Suc_diff_le)

section \<open>The invariant of the store\<close>

definition meta_ok :: "Disk \<Rightarrow> bool" where
  "meta_ok d \<longleftrightarrow> (\<exists>m. read_meta d = Ok m) \<and> meta_synced (meta d) = meta_data (meta d)"

definition storage_inv :: "WalStorage \<Rightarrow> bool" where
  "storage_inv st \<longleftrightarrow>
     files_ok st \<and>
     unat (start_lsn st) \<le> unat (flush_lsn st) \<and> unat (flush_lsn st) \<le> unat (write_lsn st) \<and>
     (\<forall>p. unat (start_lsn st) \<le> p \<and> p < unat (write_lsn st) \<longrightarrow> segs (disk st) (p div seg_nat st) \<noteq> None) \<and>
     (\<forall>p. unat (start_lsn st) \<le> p \<and> p < unat (flush_lsn st) \<longrightarrow>
        stable (disk st) (p div seg_nat st) \<noteq> None \<and>
        byte_in (stable (disk st)) (seg_nat st) p = byte_in (segs (disk st)) (seg_nat st) p) \<and>
     set (dirty_segments st) = (\<lambda>p. p div seg_nat st) ` {unat (flush_lsn st)..<unat (write_lsn st)} \<and>
     unat (ring_start st) + length (ring st) = unat (write_lsn st) \<and>
     (\<forall>k < length (ring st). unat (start_lsn st) \<le> unat (ring_start st) + k \<longrightarrow>
        ring st ! k = byte_in (segs (disk st)) (seg_nat st) (unat (ring_start st) + k)) \<and>
     meta_ok (disk st) \<and>
     (unat (start_lsn st) < unat (flush_lsn st) \<longrightarrow>
        (\<exists>ms. unat ms \<le> unat (start_lsn st) \<and> read_meta (disk st) = Ok (Some (ms, flush_lsn st))))"

lemma storage_invD:
  assumes "storage_inv st"
  shows "files_ok st" "unat (start_lsn st) \<le> unat (flush_lsn st)"
    "unat (flush_lsn st) \<le> unat (write_lsn st)"
    "unat (start_lsn st) \<le> p \<Longrightarrow> p < unat (write_lsn st) \<Longrightarrow> segs (disk st) (p div seg_nat st) \<noteq> None"
    "unat (start_lsn st) \<le> p \<Longrightarrow> p < unat (flush_lsn st) \<Longrightarrow> stable (disk st) (p div seg_nat st) \<noteq> None"
    "unat (start_lsn st) \<le> p \<Longrightarrow> p < unat (flush_lsn st) \<Longrightarrow>
       byte_in (stable (disk st)) (seg_nat st) p = byte_in (segs (disk st)) (seg_nat st) p"
    "set (dirty_segments st) = (\<lambda>p. p div seg_nat st) ` {unat (flush_lsn st)..<unat (write_lsn st)}"
    "unat (ring_start st) + length (ring st) = unat (write_lsn st)"
    "k < length (ring st) \<Longrightarrow> unat (start_lsn st) \<le> unat (ring_start st) + k \<Longrightarrow>
       ring st ! k = byte_in (segs (disk st)) (seg_nat st) (unat (ring_start st) + k)"
    "meta_ok (disk st)"
    "unat (start_lsn st) < unat (flush_lsn st) \<Longrightarrow>
       \<exists>ms. unat ms \<le> unat (start_lsn st) \<and> read_meta (disk st) = Ok (Some (ms, flush_lsn st))"
  using assms unfolding storage_inv_def by blast+

text \<open>The abstract log: where it starts and its bytes.\<close>

definition log_bytes :: "WalStorage \<Rightarrow> bytes" where
  "log_bytes st =
     map (byte_in (segs (disk st)) (seg_nat st)) [unat (start_lsn st)..<unat (write_lsn st)]"

lemmas tmp_defs = tmp_write_def tmp_sync_all_def tmp_rename_def

lemma read_meta_write_meta [simp]: "read_meta (write_meta s f d) = Ok (Some (s, f))"
  by (simp add: read_meta_def write_meta_def meta_bytes_def tmp_defs codec)

lemma write_meta_simps [simp]:
  "segs (write_meta s f d) = segs d" "stable (write_meta s f d) = stable d" "meta_ok (write_meta s f d)"
  "dir_meta (meta (write_meta s f d)) = dir_meta (meta d)" "dir_segs (meta (write_meta s f d)) = dir_segs (meta d)"
  by (simp_all add: meta_ok_def) (simp_all add: write_meta_def tmp_defs)

lemma read_meta_cong: "meta_data (meta d) = meta_data (meta d') \<Longrightarrow> read_meta d = read_meta d'"
  by (simp add: read_meta_def)

lemma meta_ok_cong: "meta d = meta d' \<Longrightarrow> meta_ok d = meta_ok d'"
  using read_meta_cong [of d d'] by (simp add: meta_ok_def)

lemma storage_inv_seed: "storage_inv st \<Longrightarrow> storage_inv (seed l st)"
proof -
  assume inv: "storage_inv st"
  note D = storage_invD [OF inv]
  show ?thesis
  proof (cases "write_lsn st = 0 \<and> start_lsn st = 0")
    case True
    then have r: "ring st = []" "dirty_segments st = []" using D(7,8) D(2,3) by auto
    have "files_ok (st\<lparr>start_lsn := l, write_lsn := l, flush_lsn := l, ring_start := l\<rparr>)"
      using D(1) True by (auto simp: files_ok_def)
    then show ?thesis
      using True r D(10) by (auto simp: seed_def is_valid_def storage_inv_def)
  next
    case False
    with inv show ?thesis by (auto simp: seed_def is_valid_def)
  qed
qed

section \<open>Appending\<close>

lemma storage_inv_appended:
  assumes inv: "storage_inv st" and app: "appended bs st st1"
    and r: "r = drop k (ring st @ bs)" and k: "k \<le> length (ring st @ bs)"
    and rs: "unat rs = unat (ring_start st) + k"
  shows "storage_inv (st1\<lparr>ring := r, ring_start := rs\<rparr>)"
proof -
  let ?S = "seg_nat st" and ?w = "unat (write_lsn st)"
  note A = appendedD [OF app] and D = storage_invD [OF inv]
  have S: "seg_nat st1 = ?S" using A(3) by simp
  have present: "segs (disk st1) (p div ?S) \<noteq> None"
    if "unat (start_lsn st) \<le> p" "p < ?w + length bs" for p
    using that D(4) [of p] A(12) [of "p div ?S"] A(13) [of p] by (cases "p < ?w") auto
  have old: "byte_in (segs (disk st1)) ?S p = byte_in (segs (disk st)) ?S p" if "p < ?w" for p
    using that A(11) [of p] by simp
  have dirty: "set (dirty_segments st1) = (\<lambda>p. p div ?S) ` {unat (flush_lsn st)..<?w + length bs}"
  proof -
    have "{unat (flush_lsn st)..<?w + length bs} = {unat (flush_lsn st)..<?w} \<union> {?w..<?w + length bs}"
      using D(3) by auto
    then show ?thesis using A(14) D(7) by (simp add: image_Un)
  qed
  have ringb: "r ! j = byte_in (segs (disk st1)) ?S (unat rs + j)"
    if j: "j < length r" "unat (start_lsn st) \<le> unat rs + j" for j
  proof -
    have rj: "r ! j = (ring st @ bs) ! (k + j)" unfolding r using k by (rule nth_drop)
    show ?thesis
    proof (cases "k + j < length (ring st)")
      case True
      then have "unat rs + j < ?w" using D(8) rs by simp
      then show ?thesis
        using True rj j rs D(9) [of "k + j"] old by (simp add: nth_append add.assoc)
    next
      case False
      have ge: "?w \<le> unat rs + j" using False D(8) rs by simp
      have lt: "unat rs + j < ?w + length bs" using j r k rs D(8) by simp
      have "unat rs + j - ?w = k + j - length (ring st)" using False D(8) rs by simp
      then show ?thesis using False rj ge lt A(11) [of "unat rs + j"] by (simp add: nth_append)
    qed
  qed
  have len: "unat rs + length r = ?w + length bs" using r k rs D(8) by simp
  have fok: "files_ok (st1\<lparr>ring := r, ring_start := rs\<rparr>)" using A(1) by (simp add: files_ok_def)
  have meta: "read_meta (disk st1) = read_meta (disk st)" "meta_ok (disk st1) = meta_ok (disk st)"
    using read_meta_cong [of "disk st1" "disk st"] meta_ok_cong [OF A(10)] A(10) by simp_all
  have old_f: "byte_in (segs (disk st1)) ?S p = byte_in (segs (disk st)) ?S p"
    if "p < unat (flush_lsn st)" for p using that D(3) old by simp
  show ?thesis
    unfolding storage_inv_def
    using fok D(2,3,5,6,10,11) present dirty ringb len old_f
    by (simp add: A(2,3,5,6,9) meta)
qed

definition fresh :: "WalStorage \<Rightarrow> bool" where
  "fresh st \<longleftrightarrow> write_lsn st = 0 \<and> start_lsn st = 0"

lemma seed_simps:
  "fresh st \<Longrightarrow> write_lsn (seed l st) = l" "\<not> fresh st \<Longrightarrow> seed l st = st"
  by (auto simp: seed_def fresh_def is_valid_def)

lemma storage_append_ok:
  assumes inv: "storage_inv st" and at: "fresh st \<or> l = write_lsn st"
    and no_wrap: "unat l + length bs < 2 ^ 64"
  obtains st' where "storage_append l bs st = (st', Ok ())" "storage_inv st'"
    "log_bytes st' = log_bytes (seed l st) @ bs" "start_lsn st' = start_lsn (seed l st)"
    "flush_lsn st' = flush_lsn (seed l st)" "unat (write_lsn st') = unat l + length bs"
proof -
  let ?s0 = "seed l st"
  have inv0: "storage_inv ?s0" by (rule storage_inv_seed [OF inv])
  have w0: "write_lsn ?s0 = l" using at seed_simps [of st l] by (cases "fresh st") auto
  have S: "segment_size ?s0 \<noteq> 0" using storage_invD(1) [OF inv0] by (simp add: files_ok_def)
  show thesis
  proof (cases "bs = []")
    case True
    then show thesis using that [of ?s0] w0 inv0 by (simp add: storage_append_def)
  next
    case False
    let ?s1 = "append_chunks bs ?s0"
    let ?k = "length (ring ?s0 @ bs) - ring_capacity ?s0"
    let ?s2 = "?s1\<lparr>ring := drop ?k (ring ?s0 @ bs), ring_start := ring_start ?s0 + of_nat ?k\<rparr>"
    have app: "appended bs ?s0 ?s1"
      by (rule appended_append_chunks) (use storage_invD(1) [OF inv0] no_wrap w0 in auto)
    note A = appendedD [OF app] and D = storage_invD [OF inv0]
    have eq: "storage_append l bs st = (?s2, Ok ())"
      using False S w0 A(4,7,8) by (simp add: storage_append_def Let_def evict_eq)
    have "unat (ring_start ?s0 + of_nat ?k) = unat (ring_start ?s0) + ?k"
      by (rule unat_add_nat) (use D(8) no_wrap w0 in simp)
    then have "storage_inv ?s2" by (intro storage_inv_appended [OF inv0 app]) auto
    moreover have "log_bytes ?s2 = log_bytes ?s0 @ bs"
    proof -
      have w: "unat (start_lsn ?s0) \<le> unat l" using D(2,3) w0 by simp
      have "map (byte_in (segs (disk ?s1)) (seg_nat ?s0)) [unat (start_lsn ?s0)..<unat l] =
          map (byte_in (segs (disk ?s0)) (seg_nat ?s0)) [unat (start_lsn ?s0)..<unat l]"
        using A(11) w0 by (intro map_cong) auto
      moreover have "map (byte_in (segs (disk ?s1)) (seg_nat ?s0)) [unat l..<unat l + length bs] = bs"
        using A(11) w0 by (intro nth_equalityI) auto
      moreover note upt_add_eq_append [OF w, of "length bs"]
      ultimately show ?thesis
        using w0 A(2,3,5) by (simp add: log_bytes_def)
    qed
    ultimately show thesis using that [of ?s2] eq A(2,5,6) w0 by simp
  qed
qed

lemma storage_append_gap:
  "\<not> fresh st \<Longrightarrow> l \<noteq> write_lsn st \<Longrightarrow> storage_append l bs st = (st, Err (NonContiguous (write_lsn st) l))"
  by (simp add: storage_append_def seed_simps)

section \<open>Reading\<close>

lemma read_segments_correct:
  assumes "S \<noteq> 0" "unat lsn + len < 2 ^ 64"
    and "\<And>p. unat lsn \<le> p \<Longrightarrow> p < unat lsn + len \<Longrightarrow>
      \<exists>f. segs d (p div unat S) = Some f \<and> length f = unat S"
  shows "done \<le> len \<Longrightarrow> read_segments S d lsn len done =
     Ok (map (byte_in (segs d) (unat S)) [unat lsn + done..<unat lsn + len])"
proof (induction "len - done" arbitrary: "done" rule: less_induct)
  case less
  show ?case
  proof (cases "len \<le> done")
    case True
    with less.prems show ?thesis by (simp add: read_segments.simps)
  next
    case False
    let ?pos = "lsn + of_nat done"
    let ?p = "unat lsn + done"
    let ?T = "unat S"
    define n where "n = min (unat (S - ?pos mod S)) (len - done)"
    have pos: "unat ?pos = ?p" by (rule unat_add_nat) (use assms(2) False in simp)
    have T: "0 < ?T" using assms(1) by (simp add: unat_gt_0)
    have md: "?p mod ?T < ?T" using T by simp
    have n: "0 < n" "n \<le> len - done" "?p mod ?T + n \<le> ?T"
      using False chunk_space_pos [OF assms(1), of ?pos] md
      by (auto simp: n_def chunk_space [OF assms(1)] pos)
    obtain f where f: "segs d (?p div ?T) = Some f" and lf: "length f = ?T"
      using assms(3) [of ?p] False by auto
    have rec: "read_segments S d lsn len (done + n) =
        Ok (map (byte_in (segs d) ?T) [?p + n..<unat lsn + len])"
      using less.hyps [of "done + n"] n False by (simp add: add.assoc)
    have piece: "take n (drop (?p mod ?T) f) = map (byte_in (segs d) ?T) [?p..<?p + n]"
    proof (rule nth_equalityI)
      show "length (take n (drop (?p mod ?T) f)) = length (map (byte_in (segs d) ?T) [?p..<?p + n])"
        using lf n by simp
      fix j assume "j < length (take n (drop (?p mod ?T) f))"
      then have j: "j < n" by simp
      have "?p + j = ?p div ?T * ?T + (?p mod ?T + j)" by simp
      moreover have "?p mod ?T + j < ?T" using j n by linarith
      ultimately have "(?p + j) div ?T = ?p div ?T" "(?p + j) mod ?T = ?p mod ?T + j"
        using T by (metis add.commute div_mult_self3 div_less add_cancel_right_right neq0_conv,
            metis mod_less mod_mult_self3)
      then show "take n (drop (?p mod ?T) f) ! j = map (byte_in (segs d) ?T) [?p..<?p + n] ! j"
        using j n lf f by (simp add: byte_in_def)
    qed
    have "unat lsn + len = ?p + n + (len - done - n)" using n False by linarith
    then have split: "[?p..<unat lsn + len] = [?p..<?p + n] @ [?p + n..<unat lsn + len]"
      using upt_add_eq_append [of ?p "?p + n" "len - done - n"] by simp
    have fit: "\<not> length f < ?p mod ?T + n" using lf n by simp
    have "read_segments S d lsn len done =
        rbind (read_segments S d lsn len (done + n)) (\<lambda>rest. Ok (take n (drop (?p mod ?T) f) @ rest))"
      unfolding read_segments.simps [of S d lsn len "done"] Let_def index_offset pos n_def [symmetric]
      using False assms(1) f fit by simp
    then show ?thesis unfolding rec piece split by simp
  qed
qed

lemma read_at_correct:
  assumes inv: "storage_inv st"
    and lo: "unat (start_lsn st) \<le> unat lsn" and hi: "unat lsn + len \<le> unat (write_lsn st)"
  shows "read_at lsn len st =
    Ok (map (byte_in (segs (disk st)) (seg_nat st)) [unat lsn..<unat lsn + len])"
proof -
  note D = storage_invD [OF inv]
  have nw: "unat lsn + len < 2 ^ 64"
    using hi unat_bounds(4) [of "write_lsn st"] by simp
  have e: "unat (lsn + of_nat len) = unat lsn + len" by (rule unat_add_nat [OF nw])
  have rng: "\<not> (lsn < start_lsn st \<or> write_lsn st < lsn + of_nat len)"
    using lo hi e by (simp add: word_less_nat_alt)
  show ?thesis
  proof (cases "ring_start st \<le> lsn \<and> lsn + of_nat len \<le> write_lsn st \<and> ring st \<noteq> []")
    case True
    then have off: "unat (lsn - ring_start st) = unat lsn - unat (ring_start st)"
      and ge: "unat (ring_start st) \<le> unat lsn"
      by (simp_all add: unat_sub word_le_nat_alt)
    let ?off = "unat lsn - unat (ring_start st)"
    have fits: "?off + len \<le> length (ring st)" using hi ge D(8) by linarith
    have "take len (drop ?off (ring st)) =
        map (byte_in (segs (disk st)) (seg_nat st)) [unat lsn..<unat lsn + len]"
    proof (rule nth_equalityI)
      show "length (take len (drop ?off (ring st))) =
          length (map (byte_in (segs (disk st)) (seg_nat st)) [unat lsn..<unat lsn + len])"
        using fits by simp
      fix j assume "j < length (take len (drop ?off (ring st)))"
      then have j: "j < len" by simp
      then show "take len (drop ?off (ring st)) ! j =
          map (byte_in (segs (disk st)) (seg_nat st)) [unat lsn..<unat lsn + len] ! j"
        using D(9) [of "?off + j"] fits ge lo by simp
    qed
    then show ?thesis
      using True rng off fits by (auto simp: read_at_def ring_read_def Let_def get_bytes_ok)
  next
    case False
    have "\<exists>f. segs (disk st) (p div seg_nat st) = Some f \<and> length f = seg_nat st"
      if "unat lsn \<le> p" "p < unat lsn + len" for p
    proof -
      have "segs (disk st) (p div seg_nat st) \<noteq> None" using D(4) [of p] that lo hi by linarith
      then show ?thesis using files_okD(2) [OF D(1)] by auto
    qed
    then have "read_segments (segment_size st) (disk st) lsn len 0 =
        Ok (map (byte_in (segs (disk st)) (seg_nat st)) [unat lsn + 0..<unat lsn + len])"
      using D(1) nw by (intro read_segments_correct) (auto simp: files_ok_def)
    then show ?thesis
      unfolding read_at_def Let_def if_not_P [OF rng] if_not_P [OF False] by simp
  qed
qed

section \<open>Flushing and crashing\<close>

lemma sync_segments_all:
  "(\<And>i. i \<in> set is \<Longrightarrow> segs (disk st) i \<noteq> None) \<Longrightarrow>
   sync_segments is st =
     (st\<lparr>disk := (disk st)\<lparr>stable := (\<lambda>i. if i \<in> set is then segs (disk st) i else stable (disk st) i)\<rparr>\<rparr>,
      Ok ())"
proof (induction "is" arbitrary: st)
  case Nil
  then show ?case by simp
next
  case (Cons j js)
  obtain f where f: "segs (disk st) j = Some f" using Cons.prems by fastforce
  show ?case
    using Cons.IH [of "st\<lparr>disk := (disk st)\<lparr>stable := (stable (disk st))(j \<mapsto> f)\<rparr>\<rparr>"] Cons.prems f
    by (auto simp: fun_eq_iff Let_def)
qed

lemma storage_flush_ok:
  assumes inv: "storage_inv st"
  obtains st' where "storage_flush st = (st', Ok (write_lsn st))" "storage_inv st'"
    "log_bytes st' = log_bytes st" "start_lsn st' = start_lsn st" "write_lsn st' = write_lsn st"
    "flush_lsn st' = write_lsn st" "read_meta (disk st') = Ok (Some (start_lsn st, write_lsn st))"
proof -
  note D = storage_invD [OF inv]
  let ?S = "seg_nat st"
  let ?d = "(disk st)\<lparr>stable := (\<lambda>i. if i \<in> set (dirty_segments st) then segs (disk st) i else stable (disk st) i)\<rparr>"
  let ?st' = "st\<lparr>disk := write_meta (start_lsn st) (write_lsn st) ?d, dirty_segments := [],
      flush_lsn := write_lsn st\<rparr>"
  have present: "segs (disk st) i \<noteq> None" if "i \<in> set (dirty_segments st)" for i
    using that D(4) D(2) unfolding D(7) by force
  have eq: "storage_flush st = (?st', Ok (write_lsn st))"
    using sync_segments_all [OF present] by (simp add: storage_flush_def Let_def)
  have st: "stable ?d (p div ?S) \<noteq> None \<and> byte_in (stable ?d) ?S p = byte_in (segs (disk st)) ?S p"
    if p: "unat (start_lsn st) \<le> p" "p < unat (write_lsn st)" for p
  proof (cases "p div ?S \<in> set (dirty_segments st)")
    case True
    then show ?thesis using present by (simp add: byte_in_def)
  next
    case False
    then have "p < unat (flush_lsn st)" using D(7) p by force
    then show ?thesis using False p D(5,6) by (simp add: byte_in_def)
  qed
  have lens: "length f = ?S" if "stable ?d i = Some f" for i f
    using that files_okD(2,3) [OF D(1)] by (simp split: if_splits)
  have fok: "files_ok ?st'"
    using D(1) lens by (simp add: files_ok_def)
  have "storage_inv ?st'"
    unfolding storage_inv_def
    using fok st D(2,3,4,8,9) by simp
  moreover have "log_bytes ?st' = log_bytes st" by (simp add: log_bytes_def)
  ultimately show thesis using that [of ?st'] eq by simp
qed

text \<open>
  A crash on a file system that keeps directory entries.  A segment that was synced once is still there; each
  of its bytes is the synced or the last written one.  The metadata file has its content if that was
  synced, and any content otherwise.
\<close>

definition crash_image :: "Disk \<Rightarrow> Disk \<Rightarrow> bool" where
  "crash_image d d' \<longleftrightarrow>
     (meta_synced (meta d) = meta_data (meta d) \<longrightarrow> meta_data (meta d') = meta_data (meta d)) \<and>
     meta_synced (meta d') = meta_data (meta d') \<and> stable d' = segs d' \<and>
     (\<forall>i c. stable d i = Some c \<longrightarrow>
        (\<exists>c'. segs d' i = Some c' \<and> length c' = length c \<and>
           (\<forall>j < length c. c' ! j = c ! j \<or>
              (\<exists>v. segs d i = Some v \<and> j < length v \<and> c' ! j = v ! j))))"

text \<open>
  A crash after which the directory is the one that last reached stable storage: a name written since then
  is gone, a name replaced since then refers to the file it referred to before.
\<close>

definition names_lost :: "Disk \<Rightarrow> Disk" where
  "names_lost d =
     d\<lparr>segs := (\<lambda>i. if i \<in> dir_segs (meta d) then stable d i else None),
       stable := (\<lambda>i. if i \<in> dir_segs (meta d) then stable d i else None),
       meta := (meta d)\<lparr>meta_data := dir_meta (meta d), meta_synced := dir_meta (meta d), tmp_data := None, tmp_synced := None\<rparr>\<rparr>"

lemma crash_image_byte:
  assumes inv: "storage_inv st" and crash: "crash_image (disk st) d'"
    and p: "unat (start_lsn st) \<le> p" "p < unat (flush_lsn st)"
  shows "\<exists>c'. segs d' (p div seg_nat st) = Some c' \<and> length c' = seg_nat st"
    and "byte_in (segs d') (seg_nat st) p = byte_in (segs (disk st)) (seg_nat st) p"
proof -
  note D = storage_invD [OF inv]
  let ?S = "seg_nat st" and ?i = "p div seg_nat st"
  obtain c where c: "stable (disk st) ?i = Some c" using D(5) p by auto
  have lc: "length c = ?S" using files_okD(3) [OF D(1) c] .
  have j: "p mod ?S < length c" using lc files_okD(1) [OF D(1)] by simp
  obtain c' where c': "segs d' ?i = Some c'" "length c' = length c"
    "c' ! (p mod ?S) = c ! (p mod ?S) \<or>
      (\<exists>v. segs (disk st) ?i = Some v \<and> p mod ?S < length v \<and> c' ! (p mod ?S) = v ! (p mod ?S))"
    using crash c j unfolding crash_image_def by metis
  show "\<exists>c'. segs d' ?i = Some c' \<and> length c' = ?S" using c' lc by simp
  have same: "c ! (p mod ?S) = byte_in (segs (disk st)) ?S p"
    using D(6) [OF p] c by (simp add: byte_in_def)
  show "byte_in (segs d') ?S p = byte_in (segs (disk st)) ?S p"
    using c' same by (auto simp: byte_in_def)
qed

definition reopened :: "WalStorage \<Rightarrow> WalStorage \<Rightarrow> bool" where
  "reopened st st' \<longleftrightarrow>
     (\<exists>d'. crash_image (disk st) d' \<and> storage_open (segment_size st) (ring_capacity st) d' = Ok st')"

lemma reopened_read:
  assumes inv: "storage_inv st" and re: "reopened st st'"
    and lo: "unat (start_lsn st) \<le> unat lsn" and hi: "unat lsn + len \<le> unat (flush_lsn st)"
    and len: "0 < len"
  shows "flush_lsn st' = flush_lsn st" "read_at lsn len st' = read_at lsn len st"
proof -
  note D = storage_invD [OF inv]
  obtain d' where crash: "crash_image (disk st) d'"
    and op: "storage_open (segment_size st) (ring_capacity st) d' = Ok st'"
    using re by (auto simp: reopened_def)
  have lt: "unat (start_lsn st) < unat (flush_lsn st)" using lo hi len by linarith
  obtain ms where ms: "unat ms \<le> unat (start_lsn st)" "read_meta (disk st) = Ok (Some (ms, flush_lsn st))"
    using D(11) [OF lt] by blast
  have "read_meta d' = Ok (Some (ms, flush_lsn st))"
    using ms(2) crash D(10) read_meta_cong by (metis crash_image_def meta_ok_def)
  then have st': "disk st' = d'" "start_lsn st' = ms" "write_lsn st' = flush_lsn st"
    "flush_lsn st' = flush_lsn st" "ring st' = []" "segment_size st' = segment_size st"
    using op by (auto simp: storage_open_def)
  show "flush_lsn st' = flush_lsn st" by (rule st')
  have nw: "unat lsn + len < 2 ^ 64" using hi unat_bounds(4) [of "flush_lsn st"] by simp
  have e: "unat (lsn + of_nat len) = unat lsn + len" by (rule unat_add_nat [OF nw])
  have rng: "\<not> (lsn < ms \<or> flush_lsn st < lsn + of_nat len)"
    using lo hi e ms(1) by (simp add: word_less_nat_alt)
  have S: "segment_size st \<noteq> 0" using D(1) by (simp add: files_ok_def)
  have lens: "\<exists>c. segs d' (p div seg_nat st) = Some c \<and> length c = seg_nat st"
    and bytes: "byte_in (segs d') (seg_nat st) p = byte_in (segs (disk st)) (seg_nat st) p"
    if "unat lsn \<le> p" "p < unat lsn + len" for p
    using crash_image_byte [OF inv crash, of p] that lo hi by auto
  have "read_at lsn len st' = read_segments (segment_size st) d' lsn len 0"
    using rng st' by (simp add: read_at_def Let_def)
  also have "\<dots> = Ok (map (byte_in (segs d') (seg_nat st)) [unat lsn + 0..<unat lsn + len])"
    by (rule read_segments_correct) (use S lens nw in auto)
  also have "map (byte_in (segs d') (seg_nat st)) [unat lsn + 0..<unat lsn + len] =
      map (byte_in (segs (disk st)) (seg_nat st)) [unat lsn..<unat lsn + len]"
    using bytes by (intro map_cong) auto
  finally show "read_at lsn len st' = read_at lsn len st"
    using read_at_correct [OF inv lo, of len] hi D(3) by simp
qed

section \<open>Recycling segments\<close>

definition purged :: "nat \<Rightarrow> nat \<Rightarrow> Disk \<Rightarrow> Disk \<Rightarrow> bool" where
  "purged h i d d' \<longleftrightarrow> meta d' = meta d \<and>
     (\<forall>j. segs d' j = (if i \<le> j \<and> j < h then None else segs d j)) \<and>
     (\<forall>j. \<not> (i \<le> j \<and> j < h) \<longrightarrow> stable d' j = stable d j) \<and>
     (\<forall>j c. stable d' j = Some c \<longrightarrow> stable d j = Some c)"

lemma purged_step:
  assumes "i < h" "purged h (Suc i) d1 d'" "meta d1 = meta d"
    "segs d1 = (segs d)(i := None)" "stable d1 = stable d \<or> stable d1 = (stable d)(i := None)"
  shows "purged h i d d'"
proof -
  have P: "meta d' = meta d1" "segs d' j = (if Suc i \<le> j \<and> j < h then None else segs d1 j)"
    "\<not> (Suc i \<le> j \<and> j < h) \<Longrightarrow> stable d' j = stable d1 j"
    "stable d' j = Some c \<Longrightarrow> stable d1 j = Some c" for j c
    using assms(2) unfolding purged_def by blast+
  have st: "stable d1 j = (if j = i then stable d1 i else stable d j)"
    "stable d1 j = Some c \<Longrightarrow> stable d j = Some c" for j c
    using assms(5) by (auto split: if_splits)
  show ?thesis
    unfolding purged_def
  proof (intro conjI allI impI)
    show "meta d' = meta d" using P(1) assms(3) by simp
    show "segs d' j = (if i \<le> j \<and> j < h then None else segs d j)" for j
      using P(2) [of j] assms(1,4) by (cases "j = i") auto
    show "stable d' j = stable d j" if "\<not> (i \<le> j \<and> j < h)" for j
      using P(3) [of j] st(1) [of j] that assms(1) by (cases "j = i") auto
    show "stable d j = Some c" if "stable d' j = Some c" for j c
      by (rule st(2), rule P(4), rule that)
  qed
qed

lemma purgedD:
  assumes "purged h i d d'"
  shows "meta d' = meta d" "\<not> (i \<le> j \<and> j < h) \<Longrightarrow> segs d' j = segs d j"
    "\<not> (i \<le> j \<and> j < h) \<Longrightarrow> stable d' j = stable d j"
    "stable d' j = Some c \<Longrightarrow> stable d j = Some c" "segs d' j = Some c \<Longrightarrow> segs d j = Some c"
  using assms unfolding purged_def by (blast, presburger, blast, blast, metis option.simps(3))

lemma remove_loop_facts:
  "fst (remove_loop h i r d) = max h i \<and> purged h i d (snd (snd (remove_loop h i r d)))"
proof (induction "h - i" arbitrary: i r d)
  case 0
  then show ?case by (auto simp: remove_loop.simps [of h i] purged_def)
next
  case (Suc k)
  then have lt: "i < h" and k: "k = h - Suc i" by simp_all
  show ?case
  proof (cases "segs d i = None")
    case True
    then have eq: "remove_loop h i r d = remove_loop h (Suc i) r d"
      using lt by (simp add: remove_loop.simps [of h i])
    show ?thesis
      unfolding eq using Suc.hyps(1) [OF k, of r d] lt True
      by (auto intro!: purged_step [of i h d] simp: fun_upd_idem)
  next
    case False
    let ?d = "d\<lparr>segs := (segs d)(i := None), stable := (stable d)(i := None)\<rparr>"
    have eq: "remove_loop h i r d = remove_loop h (Suc i) (r + 1) ?d"
      using lt False by (simp add: remove_loop.simps [of h i])
    show ?thesis
      unfolding eq using Suc.hyps(1) [OF k, of "r + 1" ?d] lt
      by (auto intro!: purged_step [of i h ?d])
  qed
qed

lemma remove_segments_before_ok:
  assumes inv: "storage_inv st" and hz: "unat horizon \<le> unat (flush_lsn st)"
  obtains st' n where "remove_segments_before horizon st = (st', Ok n)" "storage_inv st'"
    "unat (start_lsn st) \<le> unat (start_lsn st')" "unat (start_lsn st') \<le> max (unat (start_lsn st)) (unat horizon)"
    "write_lsn st' = write_lsn st" "flush_lsn st' = flush_lsn st"
    "\<And>p. unat (start_lsn st') \<le> p \<Longrightarrow>
       byte_in (segs (disk st')) (seg_nat st) p = byte_in (segs (disk st)) (seg_nat st) p"
    "segment_size st' = segment_size st"
proof -
  note D = storage_invD [OF inv]
  let ?S = "seg_nat st" and ?first = "unat (start_lsn st) div seg_nat st"
  let ?h = "unat horizon div seg_nat st"
  obtain j n d where loop: "remove_loop ?h ?first 0 (disk st) = (j, n, d)" by (metis prod_cases3)
  have j: "j = max ?h ?first" and pur: "purged ?h ?first (disk st) d"
    using remove_loop_facts [of ?h ?first 0 "disk st"] loop by auto
  have S: "0 < ?S" "segment_size st \<noteq> 0" using files_okD(1) [OF D(1)] D(1) by (auto simp: files_ok_def)
  define ns where "ns = (if ?first < ?h then of_nat ?h * segment_size st else start_lsn st)"
  have hS: "?h * ?S \<le> unat horizon" by simp
  have uns: "unat ns = (if ?first < ?h then ?h * ?S else unat (start_lsn st))"
  proof -
    have "?h * ?S < 18446744073709551616" by (rule le_less_trans [OF hS unat_bounds(4)])
    moreover have "?h < 18446744073709551616"
      by (rule le_less_trans [OF div_le_dividend unat_bounds(4)])
    ultimately show ?thesis by (simp add: ns_def unat_word_ariths unat_of_nat)
  qed
  have ge: "unat (start_lsn st) \<le> unat ns"
  proof (cases "?first < ?h")
    case True
    then have "unat (start_lsn st) < ?h * ?S" using S(1) by (simp add: div_less_iff_less_mult)
    then show ?thesis using True uns by simp
  next
    case False
    then show ?thesis using uns by simp
  qed
  have le: "unat ns \<le> max (unat (start_lsn st)) (unat horizon)" using uns by (simp add: le_max_iff_disj)
  have kept: "segs d (p div ?S) = segs (disk st) (p div ?S)" "stable d (p div ?S) = stable (disk st) (p div ?S)"
    if "unat ns \<le> p" for p
  proof -
    have "\<not> (?first \<le> p div ?S \<and> p div ?S < ?h)"
    proof
      assume c: "?first \<le> p div ?S \<and> p div ?S < ?h"
      then have "?h * ?S \<le> p" using that uns by simp
      then have "?h \<le> p div ?S" using S(1) by (simp add: less_eq_div_iff_mult_less_eq)
      with c show False by simp
    qed
    then show "segs d (p div ?S) = segs (disk st) (p div ?S)" "stable d (p div ?S) = stable (disk st) (p div ?S)"
      by (rule purgedD(2) [OF pur], rule purgedD(3) [OF pur])
  qed
  let ?st' = "st\<lparr>disk := d, start_lsn := ns\<rparr>"
  have eq: "remove_segments_before horizon st = (?st', Ok n)"
  proof -
    have fl: "(if ?first < j then of_nat j * segment_size st else start_lsn st) = ns"
      using j by (auto simp: ns_def max_def)
    have "start_lsn st \<le> ns" using ge by (simp add: word_le_nat_alt)
    then have "(if start_lsn st < ns then ns else start_lsn st) = ns" by auto
    with fl show ?thesis
      unfolding remove_segments_before_def Let_def index_offset loop case_prod_conv fl
      using S(2) by simp
  qed
  have fok: "files_ok ?st'"
  proof -
    have "segs d i = segs (disk st) i" if "unat (write_lsn st) div ?S \<le> i" for i
    proof -
      have "?h \<le> unat (write_lsn st) div ?S" using hz D(3) by (simp add: div_le_mono)
      then show ?thesis using that by (intro purgedD(2) [OF pur]) linarith
    qed
    then have "segs d i \<noteq> None" if "open_seg st = Some i" "unat (write_lsn st) div ?S \<le> i" for i
      using files_okD(4) [OF D(1)] that by simp
    moreover have "length f = ?S" if "segs d i = Some f \<or> stable d i = Some f" for i f
      using that files_okD(2,3) [OF D(1)] purgedD(4,5) [OF pur] by blast
    ultimately show ?thesis using S(2) by (auto simp: files_ok_def)
  qed
  have bi: "byte_in (segs d) ?S p = byte_in (segs (disk st)) ?S p"
    "byte_in (stable d) ?S p = byte_in (stable (disk st)) ?S p" if "unat ns \<le> p" for p
    using kept [OF that] by (simp_all add: byte_in_def)
  have meta: "read_meta d = read_meta (disk st)" "meta_ok d = meta_ok (disk st)"
    using read_meta_cong [of d "disk st"] meta_ok_cong [OF purgedD(1) [OF pur]] purgedD(1) [OF pur] by simp_all
  have fl: "unat ns \<le> unat (flush_lsn st)" using le D(2) hz by simp
  have "storage_inv ?st'"
    unfolding storage_inv_def
  proof (intro conjI, goal_cases)
    case 1
    then show ?case by (rule fok)
  next
    case (4)
    then show ?case using D(4) ge kept by simp
  next
    case 5
    then show ?case using D(5,6) ge kept bi by simp
  next
    case 8
    then show ?case using D(9) ge bi by simp
  next
    case 10
    then show ?case
    proof
      assume "unat (start_lsn ?st') < unat (flush_lsn ?st')"
      then have "unat (start_lsn st) < unat (flush_lsn st)" using ge by simp
      then obtain ms where "unat ms \<le> unat (start_lsn st)" "read_meta (disk st) = Ok (Some (ms, flush_lsn st))"
        using D(11) by blast
      then show "\<exists>ms. unat ms \<le> unat (start_lsn ?st') \<and> read_meta (disk ?st') = Ok (Some (ms, flush_lsn ?st'))"
        using ge meta by (auto intro: order_trans)
    qed
  qed (use fl D(3,7,8,10) meta in simp_all)
  then show thesis using that [of ?st' n] eq ge le bi by simp
qed

lemma append_chunks_cfg:
  "segment_size (append_chunks bs st) = segment_size st \<and> ring_capacity (append_chunks bs st) = ring_capacity st"
  by (induction bs st rule: append_chunks.induct) (subst (1 2) append_chunks.simps, simp add: Let_def)

lemma storage_append_cfg:
  "storage_append l bs st = (st', r) \<Longrightarrow> segment_size st' = segment_size st"
  "storage_append l bs st = (st', r) \<Longrightarrow> ring_capacity st' = ring_capacity st"
  using append_chunks_cfg [of bs "seed l st"]
  by (auto simp: storage_append_def seed_def Let_def split: if_splits prod.splits)

lemma storage_flush_cfg:
  assumes "storage_flush st = (st', Ok k)"
  shows "segment_size st' = segment_size st" "ring_capacity st' = ring_capacity st"
proof -
  have "segment_size (fst (sync_segments is st)) = segment_size st \<and>
      ring_capacity (fst (sync_segments is st)) = ring_capacity st" for "is"
    by (induction "is" st rule: sync_segments.induct) (auto simp: Let_def split: option.splits)
  from this [of "dirty_segments st"] assms
  show "segment_size st' = segment_size st" "ring_capacity st' = ring_capacity st"
    by (auto simp: storage_flush_def Let_def split: prod.splits result.splits)
qed

section \<open>The contract of a WAL store\<close>

text \<open>
  What the safekeeper relies on: an append at the end extends the log and nothing else, a flush moves
  the durable frontier to the end, reads return the log, and a restart after a crash keeps what lies
  below the durable frontier.
\<close>

locale wal_store =
  fixes inv :: "'s \<Rightarrow> bool"
    and started :: "'s \<Rightarrow> bool"
    and origin :: "'s \<Rightarrow> nat"
    and frontier :: "'s \<Rightarrow> nat"
    and contents :: "'s \<Rightarrow> bytes"
    and app :: "Lsn \<Rightarrow> bytes \<Rightarrow> 's \<Rightarrow> 's \<times> ('e, unit) result"
    and fl :: "'s \<Rightarrow> 's \<times> ('e, Lsn) result"
    and rd :: "Lsn \<Rightarrow> nat \<Rightarrow> 's \<Rightarrow> ('e, bytes) result"
    and restart :: "'s \<Rightarrow> 's \<Rightarrow> bool"
  assumes app_law: "inv st \<Longrightarrow> started st \<Longrightarrow> unat l = origin st + length (contents st) \<Longrightarrow>
      unat l + length bs < 2 ^ 64 \<Longrightarrow>
      \<exists>st'. app l bs st = (st', Ok ()) \<and> inv st' \<and> (bs \<noteq> [] \<longrightarrow> started st') \<and> origin st' = origin st \<and>
        contents st' = contents st @ bs \<and> frontier st' = frontier st"
    and fl_law: "inv st \<Longrightarrow>
      \<exists>st' l. fl st = (st', Ok l) \<and> inv st' \<and> started st' = started st \<and> origin st' = origin st \<and>
        contents st' = contents st \<and> frontier st' = origin st + length (contents st) \<and> unat l = frontier st'"
    and rd_law: "inv st \<Longrightarrow> origin st \<le> unat l \<Longrightarrow> unat l + n \<le> origin st + length (contents st) \<Longrightarrow>
      rd l n st = Ok (take n (drop (unat l - origin st) (contents st)))"
    and restart_law: "inv st \<Longrightarrow> restart st st' \<Longrightarrow> origin st \<le> unat l \<Longrightarrow>
      unat l + n \<le> frontier st \<Longrightarrow> 0 < n \<Longrightarrow> rd l n st' = rd l n st"
begin

text \<open>
  The acknowledgement a safekeeper gives: once an append and the flush after it returned, the bytes
  can be read back after any crash, whatever was appended in between without a flush.
\<close>

lemma acknowledged_survives:
  assumes st: "inv st" "started st" "unat l = origin st + length (contents st)"
    and bs: "bs \<noteq> []" and room: "unat l + length bs < 2 ^ 64"
    and a: "app l bs st = (st1, Ok ())" and f: "fl st1 = (st2, Ok k)"
    and a': "app k cs st2 = (st3, Ok ())" and room': "unat k + length cs < 2 ^ 64"
    and re: "restart st3 st4"
  shows "unat k = unat l + length bs \<and> rd l (length bs) st4 = Ok bs"
proof -
  have 1: "inv st1" "started st1" "origin st1 = origin st" "contents st1 = contents st @ bs"
    using app_law [OF st room] a bs by auto
  have 2: "inv st2" "started st2" "origin st2 = origin st" "contents st2 = contents st @ bs"
    "frontier st2 = origin st + length (contents st @ bs)" "unat k = frontier st2"
    using fl_law [OF 1(1)] f 1 by auto
  have 3: "inv st3" "origin st3 = origin st" "contents st3 = contents st @ bs @ cs" "frontier st3 = frontier st2"
    using app_law [OF 2(1,2), of k cs] room' a' 2 by auto
  have "rd l (length bs) st4 = rd l (length bs) st3"
    using restart_law [OF 3(1) re, of l "length bs"] 2 3 st(3) bs by simp
  also have "\<dots> = Ok bs"
    using rd_law [OF 3(1), of l "length bs"] 3 st(3) by simp
  finally show ?thesis using 2 st(3) by simp
qed

end

lemma length_log_bytes: "storage_inv st \<Longrightarrow>
    unat (start_lsn st) + length (log_bytes st) = unat (write_lsn st)"
  using storage_invD(2,3) [of st] by (simp add: log_bytes_def)

lemma take_drop_log_bytes:
  assumes "unat (start_lsn st) \<le> unat l" "unat l + n \<le> unat (write_lsn st)"
  shows "take n (drop (unat l - unat (start_lsn st)) (log_bytes st)) =
    map (byte_in (segs (disk st)) (seg_nat st)) [unat l..<unat l + n]"
  using assms by (intro nth_equalityI) (auto simp: log_bytes_def)

interpretation wal: wal_store storage_inv "\<lambda>st. \<not> fresh st" "\<lambda>st. unat (start_lsn st)"
  "\<lambda>st. unat (flush_lsn st)" log_bytes storage_append storage_flush read_at reopened
proof (unfold_locales, goal_cases)
  case (1 st l bs)
  then have l: "l = write_lsn st" using length_log_bytes [of st] by (simp add: word_unat_eq_iff)
  obtain st' where st': "storage_append l bs st = (st', Ok ())" "storage_inv st'"
    "log_bytes st' = log_bytes (seed l st) @ bs" "start_lsn st' = start_lsn (seed l st)"
    "flush_lsn st' = flush_lsn (seed l st)" "unat (write_lsn st') = unat l + length bs"
    using storage_append_ok [OF 1(1) disjI2 [OF l] 1(4)] .
  have "bs \<noteq> [] \<Longrightarrow> \<not> fresh st'" using st'(6) by (auto simp: fresh_def)
  then show ?case using st' seed_simps(2) [OF 1(2)] by auto
next
  case (2 st)
  obtain st' where "storage_flush st = (st', Ok (write_lsn st))" "storage_inv st'"
    "log_bytes st' = log_bytes st" "start_lsn st' = start_lsn st" "write_lsn st' = write_lsn st"
    "flush_lsn st' = write_lsn st"
    using storage_flush_ok [OF 2] by metis
  then show ?case using length_log_bytes [OF 2] by (auto simp: fresh_def)
next
  case (3 st l n)
  then show ?case
    using read_at_correct [OF 3(1,2), of n] take_drop_log_bytes [of st l n] length_log_bytes [of st]
    by simp
next
  case (4 st st' l n)
  then show ?case using reopened_read(2) [of st st' l n] by simp
qed

section \<open>Main results\<close>

text \<open>
  C4.  Appending to the store is appending to the abstract log.  On a fresh store the first append
  fixes the origin; afterwards an append at the write position extends the log by exactly its bytes
  and touches nothing else, however many segments it spans and whatever the ring evicts; an append
  anywhere else is refused with the expected position and leaves the store as it was.
\<close>

theorem storage_append_refines_log:
  assumes inv: "storage_inv st" and room: "unat l + length bs < 2 ^ 64"
  shows "(fresh st \<or> l = write_lsn st \<longrightarrow>
      (\<exists>st'. storage_append l bs st = (st', Ok ()) \<and> storage_inv st' \<and>
         log_bytes st' = (if fresh st then [] else log_bytes st) @ bs \<and>
         start_lsn st' = (if fresh st then l else start_lsn st) \<and>
         flush_lsn st' = (if fresh st then l else flush_lsn st) \<and>
         unat (write_lsn st') = unat l + length bs)) \<and>
    (\<not> fresh st \<and> l \<noteq> write_lsn st \<longrightarrow>
      storage_append l bs st = (st, Err (NonContiguous (write_lsn st) l)))"
proof (intro conjI impI)
  assume "fresh st \<or> l = write_lsn st"
  then obtain st' where st': "storage_append l bs st = (st', Ok ())" "storage_inv st'"
    "log_bytes st' = log_bytes (seed l st) @ bs" "start_lsn st' = start_lsn (seed l st)"
    "flush_lsn st' = flush_lsn (seed l st)" "unat (write_lsn st') = unat l + length bs"
    using storage_append_ok [OF inv _ room] by metis
  have "fresh st \<Longrightarrow> log_bytes (seed l st) = [] \<and> start_lsn (seed l st) = l \<and> flush_lsn (seed l st) = l"
    by (auto simp: seed_def fresh_def is_valid_def log_bytes_def)
  with st' seed_simps(2) [of st l] show "\<exists>st'. storage_append l bs st = (st', Ok ()) \<and> storage_inv st' \<and>
         log_bytes st' = (if fresh st then [] else log_bytes st) @ bs \<and>
         start_lsn st' = (if fresh st then l else start_lsn st) \<and>
         flush_lsn st' = (if fresh st then l else flush_lsn st) \<and>
         unat (write_lsn st') = unat l + length bs"
    by (cases "fresh st") auto
qed (simp add: storage_append_gap)

definition empty_disk :: Disk where
  "empty_disk =
     \<lparr>segs = (\<lambda>_. None), stable = (\<lambda>_. None),
      meta = \<lparr>meta_data = None, meta_synced = None, tmp_data = None, tmp_synced = None, dir_meta = None, dir_segs = {}\<rparr>\<rparr>"

definition sample_store :: WalStorage where
  "sample_store =
     \<lparr>segment_size = 4, ring_capacity = 3, start_lsn = 10, write_lsn = 10, flush_lsn = 10, ring = [],
      ring_start = 10, open_seg = None, dirty_segments = [], disk = empty_disk\<rparr>"

lemma sample_store_inv: "storage_inv sample_store" "\<not> fresh sample_store" "log_bytes sample_store = []"
  by (auto simp: storage_inv_def sample_store_def files_ok_def empty_disk_def read_meta_def meta_ok_def fresh_def
      log_bytes_def)

theorem storage_append_refines_log_witness:
  "\<exists>st'. storage_append 10 [1, 2, 3, 4, 5] sample_store = (st', Ok ()) \<and> log_bytes st' = [1, 2, 3, 4, 5] \<and>
     storage_append 99 [7] sample_store = (sample_store, Err (NonContiguous 10 99))"
  using storage_append_refines_log [OF sample_store_inv(1), of 10 "[1, 2, 3, 4, 5]"]
    storage_append_refines_log [OF sample_store_inv(1), of 99 "[7]"] sample_store_inv(2,3)
  by (auto simp: sample_store_def)

text \<open>
  C19.  A read inside the retained range returns exactly that slice of the log, whether it is served
  from the in-memory ring or from the segment files; a read outside is refused.
\<close>

theorem read_at_returns_log:
  assumes "storage_inv st" "unat l + n < 2 ^ 64"
  shows "read_at l n st =
    (if unat (start_lsn st) \<le> unat l \<and> unat l + n \<le> unat (write_lsn st)
     then Ok (take n (drop (unat l - unat (start_lsn st)) (log_bytes st)))
     else Err (OutOfRange l (l + of_nat n) (start_lsn st) (write_lsn st)))"
proof (cases "unat (start_lsn st) \<le> unat l \<and> unat l + n \<le> unat (write_lsn st)")
  case True
  then show ?thesis
    using read_at_correct [of st l n] take_drop_log_bytes [of st l n] assms by simp
next
  case False
  then have "l < start_lsn st \<or> write_lsn st < l + of_nat n"
    using unat_add_nat [OF assms(2)] by (auto simp: word_less_nat_alt)
  with False show ?thesis by (auto simp: read_at_def Let_def)
qed

theorem read_at_returns_log_witness:
  "read_at 11 3 (fst (storage_append 10 [1, 2, 3, 4, 5] sample_store)) = Ok [2, 3, 4] \<and>
   read_at 9 1 (fst (storage_append 10 [1, 2, 3, 4, 5] sample_store)) = Err (OutOfRange 9 10 10 15)"
proof -
  obtain st' where st': "storage_append 10 [1, 2, 3, 4, 5] sample_store = (st', Ok ())" "storage_inv st'"
    "log_bytes st' = [1, 2, 3, 4, 5]" "start_lsn st' = 10" "unat (write_lsn st') = 15"
    using storage_append_ok [OF sample_store_inv(1), of 10 "[1, 2, 3, 4, 5]"] sample_store_inv(3)
      seed_simps(2) [OF sample_store_inv(2)]
    by (auto simp: sample_store_def)
  have "write_lsn st' = 15" using st'(5) by (simp add: word_unat_eq_iff)
  then show ?thesis
    using read_at_returns_log [OF st'(2), of 11 3] read_at_returns_log [OF st'(2), of 9 1] st'
    by (simp add: word_less_nat_alt)
qed

lemma reopen_succeeds:
  assumes "storage_inv st" "crash_image (disk st) d'"
  shows "\<exists>st'. storage_open (segment_size st) (ring_capacity st) d' = Ok st'"
proof -
  obtain m where "read_meta (disk st) = Ok m" using storage_invD(10) [OF assms(1)] by (auto simp: meta_ok_def)
  then have "read_meta d' = Ok m" using assms(2) storage_invD(10) [OF assms(1)] read_meta_cong by (metis crash_image_def meta_ok_def)
  then show ?thesis by (cases m) (auto simp: storage_open_def)
qed

lemma storage_open_write_lsn: "storage_open S cap d = Ok st \<Longrightarrow> write_lsn st = flush_lsn st"
  by (cases "read_meta d") (auto simp: storage_open_def Let_def split: prod.splits)

section \<open>Crashing during a flush\<close>

text \<open>The disks a flush goes through: after each segment it syncs, then after each step of \<open>write_meta\<close>.\<close>

definition flush_points :: "WalStorage \<Rightarrow> Disk list" where
  "flush_points st =
     (let synced = (\<lambda>n. disk (fst (sync_segments (take n (dirty_segments st)) st)));
          t = tmp_write (meta_bytes (start_lsn st) (write_lsn st)) (synced (length (dirty_segments st)))
      in map synced [0..<Suc (length (dirty_segments st))] @ [t, tmp_sync_all t, tmp_rename (tmp_sync_all t)])"

lemma dirty_present: "storage_inv st \<Longrightarrow> i \<in> set (dirty_segments st) \<Longrightarrow> segs (disk st) i \<noteq> None"
proof -
  assume inv: "storage_inv st" and i: "i \<in> set (dirty_segments st)"
  note D = storage_invD [OF inv]
  show ?thesis using i D(4) D(2) unfolding D(7) by force
qed

lemma storage_inv_partial_sync:
  assumes inv: "storage_inv st" and sub: "set is \<subseteq> set (dirty_segments st)"
    and m: "meta_data m = meta_data (meta (disk st))" "meta_synced m = meta_synced (meta (disk st))"
  shows "storage_inv (st\<lparr>disk := (disk st)\<lparr>stable := (\<lambda>i. if i \<in> set is then segs (disk st) i else stable (disk st) i), meta := m\<rparr>\<rparr>)"
    (is "storage_inv (st\<lparr>disk := ?d\<rparr>)")
proof -
  note D = storage_invD [OF inv]
  let ?S = "seg_nat st"
  have rm: "read_meta ?d = read_meta (disk st)" by (rule read_meta_cong) (simp add: m)
  then have ok: "meta_ok ?d" using D(10) m by (simp add: meta_ok_def)
  have st: "stable ?d (p div ?S) \<noteq> None \<and> byte_in (stable ?d) ?S p = byte_in (segs (disk st)) ?S p"
    if p: "unat (start_lsn st) \<le> p" "p < unat (flush_lsn st)" for p
  proof (cases "p div ?S \<in> set is")
    case True
    then show ?thesis using dirty_present [OF inv] sub by (auto simp: byte_in_def)
  qed (use p D(5,6) in \<open>simp add: byte_in_def\<close>)
  have "length f = ?S" if "stable ?d i = Some f" for i f
    using that files_okD(2,3) [OF D(1)] by (simp split: if_splits)
  then have "files_ok (st\<lparr>disk := ?d\<rparr>)" using D(1) by (simp add: files_ok_def)
  then show ?thesis unfolding storage_inv_def using st ok D(2,3,4,7,8,9,11) rm by simp
qed

lemma flush_points_inv:
  assumes inv: "storage_inv st" and d: "d \<in> set (flush_points st)"
  shows "storage_inv (st\<lparr>disk := d\<rparr>) \<and> segs d = segs (disk st) \<or> (\<exists>st'. storage_flush st = (st', Ok (write_lsn st)) \<and> d = disk st')"
proof -
  let ?dirty = "dirty_segments st"
  have sy: "sync_segments (take n ?dirty) st =
      (st\<lparr>disk := (disk st)\<lparr>stable := (\<lambda>i. if i \<in> set (take n ?dirty) then segs (disk st) i else stable (disk st) i)\<rparr>\<rparr>, Ok ())" for n
    using dirty_present [OF inv] by (intro sync_segments_all) (meson in_set_takeD)
  let ?d = "\<lambda>n. (disk st)\<lparr>stable := (\<lambda>i. if i \<in> set (take n ?dirty) then segs (disk st) i else stable (disk st) i)\<rparr>"
  let ?t = "tmp_write (meta_bytes (start_lsn st) (write_lsn st)) (?d (length ?dirty))"
  have part: "storage_inv (st\<lparr>disk := (?d n)\<lparr>meta := m\<rparr>\<rparr>)"
    if "meta_data m = meta_data (meta (disk st))" "meta_synced m = meta_synced (meta (disk st))" for n m
    using storage_inv_partial_sync [OF inv set_take_subset [of n ?dirty] that] by simp
  have "disk (fst (sync_segments (take n ?dirty) st)) = ?d n" for n by (simp add: sy)
  then have "set (flush_points st) = ?d ` set [0..<Suc (length ?dirty)] \<union> {?t, tmp_sync_all ?t, tmp_rename (tmp_sync_all ?t)}"
    by (simp only: flush_points_def Let_def set_append set_map list.set)
  with d consider n where "d = ?d n" | "d = ?t" | "d = tmp_sync_all ?t" | "d = tmp_rename (tmp_sync_all ?t)"
    by blast
  then show ?thesis
  proof cases
    case 1
    then show ?thesis using part [of "meta (disk st)" n] by simp
  next
    case 2
    then show ?thesis using part [of "meta ?t" "length ?dirty"] by (simp add: tmp_defs)
  next
    case 3
    then show ?thesis using part [of "meta (tmp_sync_all ?t)" "length ?dirty"] by (simp add: tmp_defs)
  next
    case 4
    then have "storage_flush st = (st\<lparr>disk := d, dirty_segments := [], flush_lsn := write_lsn st\<rparr>, Ok (write_lsn st))"
      using sy [of "length ?dirty"] by (simp add: storage_flush_def write_meta_def Let_def)
    then show ?thesis by auto
  qed
qed



lemma storage_append_meta: "storage_append l bs st = (st', r) \<Longrightarrow> meta (disk st') = meta (disk st)"
proof -
  have "meta (disk (append_chunks bs s)) = meta (disk s)" for s
    by (induction bs s rule: append_chunks.induct) (subst append_chunks.simps, simp add: Let_def)
  then show "storage_append l bs st = (st', r) \<Longrightarrow> meta (disk st') = meta (disk st)"
    by (auto simp: storage_append_def seed_def Let_def split: if_splits prod.splits)
qed

lemma storage_flush_dir:
  assumes "storage_flush st = (st', Ok k)"
  shows "dir_meta (meta (disk st')) = dir_meta (meta (disk st))" "dir_segs (meta (disk st')) = dir_segs (meta (disk st))"
proof -
  have "meta (disk (fst (sync_segments is st))) = meta (disk st)" for "is"
    by (induction "is" st rule: sync_segments.induct) (auto simp: Let_def split: option.splits)
  from this [of "dirty_segments st"] assms
  show "dir_meta (meta (disk st')) = dir_meta (meta (disk st))" "dir_segs (meta (disk st')) = dir_segs (meta (disk st))"
    by (auto simp: storage_flush_def Let_def split: prod.splits result.splits)
qed

definition new_store :: WalStorage where
  "new_store =
     \<lparr>segment_size = 4, ring_capacity = 3, start_lsn = 0, write_lsn = 0, flush_lsn = 0, ring = [],
      ring_start = 0, open_seg = None, dirty_segments = [], disk = empty_disk\<rparr>"

lemma new_store_inv: "storage_inv new_store" "fresh new_store"
  by (auto simp: storage_inv_def new_store_def files_ok_def empty_disk_def read_meta_def meta_ok_def fresh_def)

text \<open>
  C0.  Acknowledged WAL is lost by a crash of a file system that does not persist a rename or a new name before
  the directory is synced.  The store never syncs its directory: an append and a flush that returned leave
  the directory on stable storage as it was, and on a store that was just created the reopened store is
  empty and refuses the acknowledged range.
\<close>

theorem unsynced_directory_loses_wal:
  "\<exists>st1 st2 st3. storage_open 4 3 empty_disk = Ok new_store \<and> storage_append 10 [1, 2, 3] new_store = (st1, Ok ()) \<and>
     storage_flush st1 = (st2, Ok 13) \<and> read_at 10 3 st2 = Ok [1, 2, 3] \<and>
     storage_open 4 3 (names_lost (disk st2)) = Ok st3 \<and> flush_lsn st3 = INVALID \<and>
     read_at 10 3 st3 = Err (OutOfRange 10 13 0 0)"
proof -
  have op: "storage_open 4 3 empty_disk = Ok new_store"
    by (simp add: storage_open_def read_meta_def empty_disk_def new_store_def)
  obtain st1 where 1: "storage_append 10 [1, 2, 3] new_store = (st1, Ok ())" "storage_inv st1"
    "unat (write_lsn st1) = 13" "log_bytes st1 = [1, 2, 3]" "start_lsn st1 = 10"
    using storage_append_ok [OF new_store_inv(1), of 10 "[1, 2, 3]"] new_store_inv(2)
    by (auto simp: seed_def fresh_def is_valid_def log_bytes_def)
  obtain st2 where 2: "storage_flush st1 = (st2, Ok (write_lsn st1))" "storage_inv st2" "log_bytes st2 = log_bytes st1"
    "start_lsn st2 = start_lsn st1" using storage_flush_ok [OF 1(2)] by metis
  have w: "write_lsn st1 = 13" using 1(3) by (simp add: word_unat_eq_iff)
  have rd: "read_at 10 3 st2 = Ok [1, 2, 3]" using wal.rd_law [OF 2(2), of 10 3] 1 2 by simp
  have "dir_meta (meta (disk st2)) = None"
    using storage_flush_dir(1) [OF 2(1)] storage_append_meta [OF 1(1)] by (simp add: new_store_def empty_disk_def)
  then have "read_meta (names_lost (disk st2)) = Ok None" by (simp add: read_meta_def names_lost_def)
  then obtain st3 where 3: "storage_open 4 3 (names_lost (disk st2)) = Ok st3" "start_lsn st3 = 0" "write_lsn st3 = 0" "flush_lsn st3 = INVALID"
    by (simp add: storage_open_def)
  then have "read_at 10 3 st3 = Err (OutOfRange 10 13 0 0)" by (simp add: read_at_def Let_def)
  with op 1 2 3 w rd show ?thesis by (intro exI [of _ st1] exI [of _ st2] exI [of _ st3]) simp
qed

text \<open>
  C32.  Recycling segments below a durable horizon keeps the invariant, never advances the origin past
  the horizon, and leaves every byte that is still in range readable and unchanged.
\<close>

theorem remove_segments_keeps_log:
  assumes inv: "storage_inv st" and hz: "unat horizon \<le> unat (flush_lsn st)"
  shows "\<exists>st' n. remove_segments_before horizon st = (st', Ok n) \<and> storage_inv st' \<and>
    unat (start_lsn st) \<le> unat (start_lsn st') \<and>
    unat (start_lsn st') \<le> max (unat (start_lsn st)) (unat horizon) \<and>
    write_lsn st' = write_lsn st \<and> flush_lsn st' = flush_lsn st \<and>
    (\<forall>l k. unat (start_lsn st') \<le> unat l \<and> unat l + k \<le> unat (write_lsn st) \<longrightarrow>
       read_at l k st' = read_at l k st)"
proof -
  obtain st' n where R: "remove_segments_before horizon st = (st', Ok n)" "storage_inv st'"
    "unat (start_lsn st) \<le> unat (start_lsn st')" "unat (start_lsn st') \<le> max (unat (start_lsn st)) (unat horizon)"
    "write_lsn st' = write_lsn st" "flush_lsn st' = flush_lsn st"
    "\<And>p. unat (start_lsn st') \<le> p \<Longrightarrow>
       byte_in (segs (disk st')) (seg_nat st) p = byte_in (segs (disk st)) (seg_nat st) p"
    "segment_size st' = segment_size st"
    using remove_segments_before_ok [OF inv hz] by metis
  have "read_at l k st' = read_at l k st"
    if "unat (start_lsn st') \<le> unat l" "unat l + k \<le> unat (write_lsn st)" for l k
  proof -
    have "read_at l k st' = Ok (map (byte_in (segs (disk st')) (seg_nat st)) [unat l..<unat l + k])"
      using read_at_correct [OF R(2), of l k] that R(5,8) by simp
    also have "\<dots> = Ok (map (byte_in (segs (disk st)) (seg_nat st)) [unat l..<unat l + k])"
      using R(7) that by simp
    also have "\<dots> = read_at l k st"
      using read_at_correct [OF inv, of l k] that R(3) by simp
    finally show ?thesis .
  qed
  with R show ?thesis by blast
qed

theorem remove_segments_keeps_log_witness:
  "\<exists>st1 st2 st3 n. storage_append 10 [1, 2, 3, 4, 5] sample_store = (st1, Ok ()) \<and>
     storage_flush st1 = (st2, Ok 15) \<and> remove_segments_before 14 st2 = (st3, Ok n) \<and>
     unat (start_lsn st3) \<le> 14 \<and> read_at 14 1 st3 = read_at 14 1 st2"
proof -
  obtain st1 where 1: "storage_append 10 [1, 2, 3, 4, 5] sample_store = (st1, Ok ())" "storage_inv st1"
    "unat (write_lsn st1) = 15" "start_lsn st1 = 10"
    using storage_append_ok [OF sample_store_inv(1), of 10 "[1, 2, 3, 4, 5]"]
      seed_simps(2) [OF sample_store_inv(2)] by (auto simp: sample_store_def)
  then have w: "write_lsn st1 = 15" by (simp add: word_unat_eq_iff)
  obtain st2 where 2: "storage_flush st1 = (st2, Ok (write_lsn st1))" "storage_inv st2"
    "write_lsn st2 = write_lsn st1" "flush_lsn st2 = write_lsn st1" "start_lsn st2 = start_lsn st1"
    using storage_flush_ok [OF 1(2)] by metis
  from remove_segments_keeps_log [OF 2(2), of 14] 2 w 1(4)
  obtain st3 n where 3: "remove_segments_before 14 st2 = (st3, Ok n)" "unat (start_lsn st3) \<le> 14"
    "\<forall>l k. unat (start_lsn st3) \<le> unat l \<and> unat l + k \<le> 15 \<longrightarrow> read_at l k st3 = read_at l k st2"
    by auto
  have "read_at 14 1 st3 = read_at 14 1 st2" using 3(2) 3(3) [rule_format, of 14 1] by simp
  with 1 2 3 w show ?thesis by auto
qed

end
