(* ===== verification/Safekeeper.thy ===== *)
theory Safekeeper
  imports Wal_Service Consensus Wal_Storage
begin

text \<open>
  A safekeeper node: the replicators of \<open>safekeeper/src/replicator.rs\<close> and the request handlers and
  connection loop of \<open>safekeeper/src/server.rs\<close> over the consensus state and the WAL store.  The
  network is a parameter: a replicator is given functions that connect to a peer and exchange one
  message with it, over a network state of any type.  A handler returns the new node, and an error
  value where the source returns \<open>Err\<close>; it runs to completion before the next request of the same
  connection.  The group at the end puts real peers behind the network replicator and shows that the
  commit position a leader reports is durable on a majority.
\<close>

section \<open>Replicators\<close>

record PeerAck =
  ack_node :: NodeId
  ack_lsn :: Lsn

type_synonym 'net replicator = "u64 \<Rightarrow> Lsn \<Rightarrow> bytes \<Rightarrow> 'net \<Rightarrow> 'net \<times> PeerAck list"

definition sim_replicate :: "NodeId list \<Rightarrow> 'net replicator" where
  "sim_replicate peers t endl bs net =
     (net, map (\<lambda>n. \<lparr>ack_node = n, ack_lsn = endl\<rparr>) peers)"

datatype PeerError = PeerIo | PeerDecode Error | PeerRejected NodeId u8

definition send_to_peer ::
  "(NodeId \<Rightarrow> 'net \<Rightarrow> 'net \<times> bool) \<Rightarrow> (NodeId \<Rightarrow> bytes \<Rightarrow> 'net \<Rightarrow> 'net \<times> bytes option) \<Rightarrow>
   NodeId set \<Rightarrow> NodeId \<Rightarrow> bytes \<Rightarrow> 'net \<Rightarrow> 'net \<times> NodeId set \<times> (PeerError, Lsn) result" where
  "send_to_peer connect exchange conns node bs net =
     (let (net1, ok) = (if node \<in> conns then (net, True) else connect node net) in
      if \<not> ok then (net1, conns, Err PeerIo)
      else
        let conns1 = insert node conns in
        case exchange node bs net1 of
          (net2, None) \<Rightarrow> (net2, conns1, Err PeerIo)
        | (net2, Some resp) \<Rightarrow>
            (net2, conns1,
             rbind (map_err PeerDecode (append_response_decode resp)) (\<lambda>r.
               if as_status r \<noteq> STATUS_OK then Err (PeerRejected node (as_status r))
               else Ok (as_flush_lsn r))))"

fun replicate_peers ::
  "(NodeId \<Rightarrow> 'net \<Rightarrow> 'net \<times> bool) \<Rightarrow> (NodeId \<Rightarrow> bytes \<Rightarrow> 'net \<Rightarrow> 'net \<times> bytes option) \<Rightarrow>
   bytes \<Rightarrow> NodeId list \<Rightarrow> NodeId set \<Rightarrow> 'net \<Rightarrow> 'net \<times> NodeId set \<times> PeerAck list" where
  "replicate_peers connect exchange bs [] conns net = (net, conns, [])"
| "replicate_peers connect exchange bs (n # ns) conns net =
     (case send_to_peer connect exchange conns n bs net of
        (net1, conns1, Ok fl) \<Rightarrow>
          (let (net2, conns2, acks) = replicate_peers connect exchange bs ns conns1 net1
           in (net2, conns2, \<lparr>ack_node = n, ack_lsn = fl\<rparr> # acks))
      | (net1, conns1, _) \<Rightarrow> replicate_peers connect exchange bs ns (conns1 - {n}) net1)"

definition saturating_sub :: "u64 \<Rightarrow> nat \<Rightarrow> u64" where
  "saturating_sub a n = (if n \<le> unat a then a - of_nat n else 0)"

text \<open>The connection cache is part of the replicator, so it travels with the network state.\<close>

definition network_replicate ::
  "(NodeId \<Rightarrow> 'net \<Rightarrow> 'net \<times> bool) \<Rightarrow> (NodeId \<Rightarrow> bytes \<Rightarrow> 'net \<Rightarrow> 'net \<times> bytes option) \<Rightarrow>
   NodeId list \<Rightarrow> ('net \<times> NodeId set) replicator" where
  "network_replicate connect exchange peers t endl bs netc =
     (let req = \<lparr>ar_tenant = ZERO, ar_timeline = ZERO, ar_term = t,
                 ar_start_lsn = saturating_sub endl (length bs), ar_payload = bs\<rparr>;
          (net', conns', acks) =
            replicate_peers connect exchange (encode_replicate req) peers (snd netc) (fst netc)
      in ((net', conns'), acks))"

section \<open>Handlers\<close>

record Safekeeper =
  storage :: WalStorage
  consensus :: Consensus

datatype SkError =
    SkStorage string StorageError
  | SkParse string Error
  | SkEof string
  | SkUnknownType u8

definition stale_response :: "Safekeeper \<Rightarrow> AppendResponse" where
  "stale_response sk =
     \<lparr>as_status = STATUS_STALE_TERM, as_term = cterm (consensus sk),
      as_flush_lsn = flush_lsn (storage sk), as_commit_lsn = commit_lsn (consensus sk)\<rparr>"

text \<open>Append and flush under the storage lock; an error returns from the handler.\<close>

definition store_and_flush ::
  "string \<Rightarrow> string \<Rightarrow> AppendRequest \<Rightarrow> Safekeeper \<Rightarrow> Safekeeper \<times> (SkError, Lsn) result" where
  "store_and_flush actx fctx req sk =
     (case storage_append (ar_start_lsn req) (ar_payload req) (storage sk) of
        (s1, Err e) \<Rightarrow> (sk\<lparr>storage := s1\<rparr>, Err (SkStorage actx e))
      | (s1, Panic) \<Rightarrow> (sk\<lparr>storage := s1\<rparr>, Panic)
      | (s1, Ok _) \<Rightarrow>
          (case storage_flush s1 of (s2, r) \<Rightarrow> (sk\<lparr>storage := s2\<rparr>, map_err (SkStorage fctx) r)))"

definition record_acks :: "PeerAck list \<Rightarrow> Consensus \<Rightarrow> Consensus" where
  "record_acks acks c = fold (\<lambda>a. record_flush (ack_node a) (ack_lsn a)) acks c"

definition handle_append ::
  "'net replicator \<Rightarrow> AppendRequest \<Rightarrow> Safekeeper \<Rightarrow> 'net \<Rightarrow>
   Safekeeper \<times> 'net \<times> (SkError, AppendResponse) result" where
  "handle_append repl req sk net =
     (if ar_term req < cterm (consensus sk) then (sk, net, Ok (stale_response sk))
      else
        let nid = node_id (consensus sk) in
        case store_and_flush ''append to WAL store'' ''flush WAL store'' req sk of
          (sk1, Err e) \<Rightarrow> (sk1, net, Err e)
        | (sk1, Panic) \<Rightarrow> (sk1, net, Panic)
        | (sk1, Ok fl) \<Rightarrow>
            (let c1 = record_flush nid fl (consensus sk1);
                 (net', acks) = repl (ar_term req) (end_lsn req) (ar_payload req) net;
                 c2 = record_acks acks c1
             in (sk1\<lparr>consensus := c2\<rparr>, net',
                 Ok \<lparr>as_status = STATUS_OK, as_term = cterm c2, as_flush_lsn = fl,
                     as_commit_lsn = commit_lsn c2\<rparr>)))"

definition handle_replicate ::
  "AppendRequest \<Rightarrow> Safekeeper \<Rightarrow> Safekeeper \<times> (SkError, AppendResponse) result" where
  "handle_replicate req sk =
     (if ar_term req < cterm (consensus sk) then (sk, Ok (stale_response sk))
      else
        let nid = node_id (consensus sk); t = cterm (consensus sk) in
        case store_and_flush ''replicate: append to WAL store'' ''replicate: flush WAL store'' req sk of
          (sk1, Err e) \<Rightarrow> (sk1, Err e)
        | (sk1, Panic) \<Rightarrow> (sk1, Panic)
        | (sk1, Ok fl) \<Rightarrow>
            (let c1 = record_flush nid fl (consensus sk1)
             in (sk1\<lparr>consensus := c1\<rparr>,
                 Ok \<lparr>as_status = STATUS_OK, as_term = t, as_flush_lsn = fl,
                     as_commit_lsn = commit_lsn c1\<rparr>)))"

definition handle_read :: "ReadRequest \<Rightarrow> Safekeeper \<Rightarrow> (SkError, ReadResponse) result" where
  "handle_read req sk =
     (let cl = commit_lsn (consensus sk);
          st = storage sk;
          from_lsn = max (rr_start_lsn req) (start_lsn st);
          available = min (unat cl - unat from_lsn) (unat (rr_max_bytes req))
      in rbind (if available > 0
                then map_err (SkStorage ''reading committed WAL'') (read_at from_lsn available st)
                else Ok []) (\<lambda>payload.
         Ok \<lparr>rs_status = STATUS_OK, rs_commit_lsn = cl, rs_start_lsn = from_lsn, rs_payload = payload\<rparr>))"

definition handle_vote :: "VoteRequest \<Rightarrow> Safekeeper \<Rightarrow> Safekeeper \<times> VoteResponse" where
  "handle_vote req sk =
     (let (granted, c) = handle_vote_request (vr_term req) (vr_candidate req) (consensus sk)
      in (sk\<lparr>consensus := c\<rparr>,
          \<lparr>vs_granted = granted, vs_term = cterm c, vs_flush_lsn = flush_lsn (storage sk)\<rparr>))"

text \<open>
  \<open>run_election\<close>: the candidate's own state, and for each peer the outcome of \<open>request_vote\<close>
  (\<open>None\<close> when the connection failed or the reply did not decode).
\<close>

definition request_vote ::
  "(NodeId \<Rightarrow> bytes \<Rightarrow> 'net \<Rightarrow> 'net \<times> bytes option) \<Rightarrow> NodeId \<Rightarrow> bytes \<Rightarrow> 'net \<Rightarrow> 'net \<times> VoteResponse option" where
  "request_vote ask node bs net =
     (case ask node bs net of
        (net1, None) \<Rightarrow> (net1, None)
      | (net1, Some resp) \<Rightarrow>
          (net1, case vote_response_decode resp of Ok v \<Rightarrow> Some v | _ \<Rightarrow> None))"

fun gather_votes ::
  "(NodeId \<Rightarrow> bytes \<Rightarrow> 'net \<Rightarrow> 'net \<times> bytes option) \<Rightarrow> bytes \<Rightarrow> Term \<Rightarrow> NodeId list \<Rightarrow>
   Consensus \<Rightarrow> 'net \<Rightarrow> Consensus \<times> 'net" where
  "gather_votes ask bs t [] c net = (c, net)"
| "gather_votes ask bs t (n # ns) c net =
     (case request_vote ask n bs net of
        (net1, Some v) \<Rightarrow>
          gather_votes ask bs t ns (if vs_granted v then handle_vote_granted n t c else c) net1
      | (net1, None) \<Rightarrow> gather_votes ask bs t ns c net1)"

definition run_election ::
  "(NodeId \<Rightarrow> bytes \<Rightarrow> 'net \<Rightarrow> 'net \<times> bytes option) \<Rightarrow> NodeId list \<Rightarrow> Safekeeper \<Rightarrow> 'net \<Rightarrow>
   Safekeeper \<times> 'net \<times> bool" where
  "run_election ask peers sk net =
     (let (t, c) = start_election (consensus sk);
          req = \<lparr>vr_tenant = ZERO, vr_timeline = ZERO, vr_term = t, vr_candidate = node_id c\<rparr>;
          (c', net') = gather_votes ask (vote_request_encode req) t peers c net
      in (sk\<lparr>consensus := c'\<rparr>, net', is_leader c'))"

section \<open>The connection loop\<close>

definition read_exact :: "string \<Rightarrow> nat \<Rightarrow> bytes \<Rightarrow> (SkError, bytes \<times> bytes) result" where
  "read_exact ctx n s = (if length s < n then Err (SkEof ctx) else Ok (take n s, drop n s))"

definition read_append_message :: "string \<Rightarrow> string \<Rightarrow> bytes \<Rightarrow> bytes \<Rightarrow> (SkError, AppendRequest \<times> bytes) result" where
  "read_append_message kind decode_ctx pre s =
     rbind (read_exact (''reading '' @ kind @ '' header'') (REQUEST_HEADER_LEN - PREFIX_LEN) s) (\<lambda>(hdr, s1).
     rbind (map_err (SkParse (''parsing '' @ kind @ '' header'')) (append_payload_len (pre @ hdr))) (\<lambda>plen.
     rbind (read_exact (''reading '' @ kind @ '' payload'') plen s1) (\<lambda>(payload, s2).
     rbind (map_err (SkParse decode_ctx) (append_decode (pre @ hdr @ payload))) (\<lambda>req.
     Ok (req, s2)))))"

definition serve_append ::
  "'net replicator \<Rightarrow> bytes \<Rightarrow> bytes \<Rightarrow> Safekeeper \<Rightarrow> 'net \<Rightarrow> Safekeeper \<times> 'net \<times> (SkError, bytes \<times> bytes) result" where
  "serve_append repl pre s sk net =
     (case read_append_message ''append'' ''decoding append request'' pre s of
        Err e \<Rightarrow> (sk, net, Err e)
      | Panic \<Rightarrow> (sk, net, Panic)
      | Ok (req, s') \<Rightarrow>
          (case handle_append repl req sk net of
             (sk', net', r) \<Rightarrow> (sk', net', rbind r (\<lambda>resp. Ok (s', append_response_encode resp)))))"

definition serve_replicate ::
  "bytes \<Rightarrow> bytes \<Rightarrow> Safekeeper \<Rightarrow> Safekeeper \<times> (SkError, bytes \<times> bytes) result" where
  "serve_replicate pre s sk =
     (case read_append_message ''replicate'' ''decoding replicate request'' pre s of
        Err e \<Rightarrow> (sk, Err e)
      | Panic \<Rightarrow> (sk, Panic)
      | Ok (req, s') \<Rightarrow>
          (case handle_replicate req sk of
             (sk', r) \<Rightarrow> (sk', rbind r (\<lambda>resp. Ok (s', append_response_encode resp)))))"

definition serve_read :: "bytes \<Rightarrow> bytes \<Rightarrow> Safekeeper \<Rightarrow> (SkError, bytes \<times> bytes) result" where
  "serve_read pre s sk =
     rbind (read_exact ''reading read request'' (READ_REQUEST_LEN - PREFIX_LEN) s) (\<lambda>(tail, s').
     rbind (map_err (SkParse ''decoding read request'') (read_request_decode (pre @ tail))) (\<lambda>req.
     rbind (handle_read req sk) (\<lambda>resp.
     Ok (s', read_response_encode resp))))"

definition serve_vote :: "bytes \<Rightarrow> bytes \<Rightarrow> Safekeeper \<Rightarrow> Safekeeper \<times> (SkError, bytes \<times> bytes) result" where
  "serve_vote pre s sk =
     (case rbind (read_exact ''reading vote request'' (VOTE_REQUEST_LEN - PREFIX_LEN) s) (\<lambda>(tail, s').
           rbind (map_err (SkParse ''decoding vote request'') (vote_request_decode (pre @ tail))) (\<lambda>req.
           Ok (req, s'))) of
        Err e \<Rightarrow> (sk, Err e)
      | Panic \<Rightarrow> (sk, Panic)
      | Ok (req, s') \<Rightarrow>
          (let (sk', resp) = handle_vote req sk in (sk', Ok (s', vote_response_encode resp))))"

text \<open>One message: the rest of the stream and the reply.\<close>

definition serve_message ::
  "'net replicator \<Rightarrow> bytes \<Rightarrow> bytes \<Rightarrow> Safekeeper \<Rightarrow> 'net \<Rightarrow>
   Safekeeper \<times> 'net \<times> (SkError, bytes \<times> bytes) result" where
  "serve_message repl pre s sk net =
     (case message_type pre of
        Err e \<Rightarrow> (sk, net, Err (SkParse ''parsing message prefix'' e))
      | Panic \<Rightarrow> (sk, net, Panic)
      | Ok ty \<Rightarrow>
          (if ty = TYPE_APPEND then serve_append repl pre s sk net
           else if ty = TYPE_REPLICATE then
             (case serve_replicate pre s sk of (sk', r) \<Rightarrow> (sk', net, r))
           else if ty = TYPE_READ then (sk, net, serve_read pre s sk)
           else if ty = TYPE_VOTE then
             (case serve_vote pre s sk of (sk', r) \<Rightarrow> (sk', net, r))
           else (sk, net, Err (SkUnknownType ty))))"

lemma read_exact_Ok: "read_exact ctx n s = Ok (a, b) \<longleftrightarrow> n \<le> length s \<and> a = take n s \<and> b = drop n s"
  by (auto simp: read_exact_def)

lemma map_err_Ok [simp]: "map_err f m = Ok x \<longleftrightarrow> m = Ok x"
  by (cases m) auto

lemma read_append_message_rest: "read_append_message k c pre s = Ok (req, s') \<Longrightarrow> length s' \<le> length s"
  by (auto simp: read_append_message_def rbind_eq_Ok read_exact_Ok)

lemma serve_message_rest:
  "serve_message repl pre s sk net = (sk', net', Ok (s', out)) \<Longrightarrow> length s' \<le> length s"
  by (auto simp: serve_message_def serve_append_def serve_replicate_def serve_read_def serve_vote_def
      rbind_eq_Ok read_exact_Ok Let_def
      dest!: read_append_message_rest split: result.splits if_splits prod.splits)

function serve_connection ::
  "'net replicator \<Rightarrow> bytes \<Rightarrow> Safekeeper \<Rightarrow> 'net \<Rightarrow> Safekeeper \<times> 'net \<times> bytes \<times> (SkError, unit) result" where
  "serve_connection repl s sk net =
     (if length s < PREFIX_LEN then (sk, net, [], Ok ())
      else
        case serve_message repl (take PREFIX_LEN s) (drop PREFIX_LEN s) sk net of
          (sk', net', Ok (s', out)) \<Rightarrow>
            (let (sk2, net2, outs, r) = serve_connection repl s' sk' net'
             in (sk2, net2, out @ outs, r))
        | (sk', net', Err e) \<Rightarrow> (sk', net', [], Err e)
        | (sk', net', Panic) \<Rightarrow> (sk', net', [], Panic))"
  by auto

termination
  by (relation "measure (\<lambda>(repl, s, sk, net). length s)")
     (auto simp: PREFIX_LEN_def dest!: serve_message_rest [OF sym])

declare serve_connection.simps [simp del]

section \<open>Storing and flushing\<close>

definition sk_inv :: "Safekeeper \<Rightarrow> bool" where
  "sk_inv sk \<longleftrightarrow> storage_inv (storage sk) \<and> consensus_wf (consensus sk) \<and>
     flush_of (consensus sk) (node_id (consensus sk)) \<le> flush_lsn (storage sk)"

definition room :: "AppendRequest \<Rightarrow> bool" where
  "room req \<longleftrightarrow> unat (ar_start_lsn req) + length (ar_payload req) < 2 ^ 64"

definition contiguous :: "AppendRequest \<Rightarrow> Safekeeper \<Rightarrow> bool" where
  "contiguous req sk \<longleftrightarrow> fresh (storage sk) \<or> ar_start_lsn req = write_lsn (storage sk)"

lemma store_and_flush_ok:
  assumes inv: "storage_inv (storage sk)" and room: "room req" and at: "contiguous req sk"
  obtains s' where "store_and_flush a f req sk = (sk\<lparr>storage := s'\<rparr>, Ok (end_lsn req))" "storage_inv s'"
    "flush_lsn s' = end_lsn req" "write_lsn s' = end_lsn req" "unat (end_lsn req) = unat (ar_start_lsn req) + length (ar_payload req)"
    "log_bytes s' = (if fresh (storage sk) then [] else log_bytes (storage sk)) @ ar_payload req"
    "start_lsn s' = (if fresh (storage sk) then ar_start_lsn req else start_lsn (storage sk))"
proof -
  let ?l = "ar_start_lsn req" and ?bs = "ar_payload req" and ?st = "storage sk"
  have e: "unat (end_lsn req) = unat ?l + length ?bs"
    using room by (simp add: end_lsn_def room_def unat_add_nat)
  obtain s1 where s1: "storage_append ?l ?bs ?st = (s1, Ok ())" "storage_inv s1"
    "log_bytes s1 = log_bytes (seed ?l ?st) @ ?bs" "start_lsn s1 = start_lsn (seed ?l ?st)"
    "unat (write_lsn s1) = unat ?l + length ?bs"
    using storage_append_ok [OF inv, of ?l ?bs] at room unfolding contiguous_def room_def by metis
  have w: "write_lsn s1 = end_lsn req" using s1(5) e by (simp add: word_unat_eq_iff)
  obtain s2 where s2: "storage_flush s1 = (s2, Ok (write_lsn s1))" "storage_inv s2"
    "log_bytes s2 = log_bytes s1" "start_lsn s2 = start_lsn s1" "write_lsn s2 = write_lsn s1"
    "flush_lsn s2 = write_lsn s1"
    using storage_flush_ok [OF s1(2)] by metis
  have seed: "log_bytes (seed ?l ?st) = (if fresh ?st then [] else log_bytes ?st)"
    "start_lsn (seed ?l ?st) = (if fresh ?st then ?l else start_lsn ?st)"
    by (auto simp: seed_def fresh_def is_valid_def log_bytes_def)
  have "store_and_flush a f req sk = (sk\<lparr>storage := s2\<rparr>, Ok (end_lsn req))"
    using s1(1) s2(1) w by (simp add: store_and_flush_def)
  with that [of s2] s1 s2 w e seed show thesis by simp
qed

lemma store_and_flush_gap:
  "\<not> contiguous req sk \<Longrightarrow> store_and_flush a f req sk =
     (sk, Err (SkStorage a (NonContiguous (write_lsn (storage sk)) (ar_start_lsn req))))"
  by (simp add: store_and_flush_def contiguous_def storage_append_gap)

lemma flush_le_end:
  assumes "storage_inv (storage sk)" "room req" "contiguous req sk"
  shows "flush_lsn (storage sk) \<le> end_lsn req"
proof -
  have e: "unat (end_lsn req) = unat (ar_start_lsn req) + length (ar_payload req)"
    using assms(2) by (simp add: end_lsn_def room_def unat_add_nat)
  have "unat (flush_lsn (storage sk)) \<le> unat (write_lsn (storage sk))"
    using storage_invD(3) [OF assms(1)] .
  with assms(3) e show ?thesis
    by (auto simp: contiguous_def fresh_def word_le_nat_alt)
qed

lemma record_acks_simps [simp]:
  "node_id (record_acks as c) = node_id c" "members (record_acks as c) = members c"
  "quorum (record_acks as c) = quorum c" "cterm (record_acks as c) = cterm c"
  "consensus_wf (record_acks as c) = consensus_wf c"
proof -
  have "node_id (record_acks as c) = node_id c \<and> members (record_acks as c) = members c \<and>
     quorum (record_acks as c) = quorum c \<and> cterm (record_acks as c) = cterm c"
    by (induction as arbitrary: c) (simp_all add: record_acks_def)
  then show "node_id (record_acks as c) = node_id c" "members (record_acks as c) = members c"
    "quorum (record_acks as c) = quorum c" "cterm (record_acks as c) = cterm c"
    "consensus_wf (record_acks as c) = consensus_wf c"
    by (auto simp: consensus_wf_def)
qed

lemma flush_of_record_acks:
  "flush_of (record_acks as c) m = fold max (map ack_lsn (filter (\<lambda>a. ack_node a = m) as)) (flush_of c m)"
  by (induction as arbitrary: c) (auto simp: record_acks_def flush_of_record_flush)

lemma commit_lsn_record_acks: "consensus_wf c \<Longrightarrow> commit_lsn c \<le> commit_lsn (record_acks as c)"
proof (induction as arbitrary: c)
  case Nil
  then show ?case by (simp add: record_acks_def)
next
  case (Cons a as)
  have "commit_lsn c \<le> commit_lsn (record_flush (ack_node a) (ack_lsn a) c)"
    using Cons.prems by (rule commit_lsn_record_flush)
  also have "\<dots> \<le> commit_lsn (record_acks as (record_flush (ack_node a) (ack_lsn a) c))"
    using Cons.prems by (intro Cons.IH) simp
  finally show ?case by (simp add: record_acks_def)
qed

section \<open>Appends\<close>

lemma handle_append_ok:
  assumes inv: "sk_inv sk" and room: "room req" and at: "contiguous req sk"
    and live: "\<not> ar_term req < cterm (consensus sk)"
    and repl: "repl (ar_term req) (end_lsn req) (ar_payload req) net = (net', acks)"
  obtains s' c' where "handle_append repl req sk net = (sk\<lparr>storage := s', consensus := c'\<rparr>, net',
      Ok \<lparr>as_status = STATUS_OK, as_term = cterm (consensus sk), as_flush_lsn = end_lsn req, as_commit_lsn = commit_lsn c'\<rparr>)"
    "c' = record_acks acks (record_flush (node_id (consensus sk)) (end_lsn req) (consensus sk))"
    "storage_inv s'" "flush_lsn s' = end_lsn req" "write_lsn s' = end_lsn req"
    "log_bytes s' = (if fresh (storage sk) then [] else log_bytes (storage sk)) @ ar_payload req"
proof -
  have sinv: "storage_inv (storage sk)" using inv by (simp add: sk_inv_def)
  obtain s' where s': "store_and_flush ''append to WAL store'' ''flush WAL store'' req sk =
      (sk\<lparr>storage := s'\<rparr>, Ok (end_lsn req))" "storage_inv s'"
    "flush_lsn s' = end_lsn req" "write_lsn s' = end_lsn req"
    "log_bytes s' = (if fresh (storage sk) then [] else log_bytes (storage sk)) @ ar_payload req"
    using store_and_flush_ok [OF sinv room at] by metis
  show thesis
    by (rule that [OF _ refl s'(2-5)]) (use s'(1) live repl in \<open>simp_all add: handle_append_def Let_def\<close>)
qed

text \<open>
  What a successful append leaves behind, given the acknowledgements the replication returned: the bytes at
  the end of the flushed log, this node's own position and every acknowledged position in the table, and in
  the reply the greatest position that a quorum of the table has reached.
\<close>

definition append_effect :: "AppendRequest \<Rightarrow> Safekeeper \<Rightarrow> PeerAck list \<Rightarrow> Safekeeper \<Rightarrow> AppendResponse \<Rightarrow> bool" where
  "append_effect req sk acks sk' resp \<longleftrightarrow>
     log_bytes (storage sk') = (if fresh (storage sk) then [] else log_bytes (storage sk)) @ ar_payload req \<and>
     flush_lsn (storage sk') = end_lsn req \<and> write_lsn (storage sk') = end_lsn req \<and>
     (\<forall>m. flush_of (consensus sk') m =
        (if m = node_id (consensus sk) then end_lsn req
         else fold max (map ack_lsn (filter (\<lambda>a. ack_node a = m) acks)) (flush_of (consensus sk) m))) \<and>
     as_status resp = STATUS_OK \<and> as_term resp = cterm (consensus sk) \<and> as_flush_lsn resp = end_lsn req \<and>
     (\<forall>l. l \<le> as_commit_lsn resp \<longleftrightarrow>
        length (members (consensus sk)) div 2 + 1 \<le> card {m \<in> set (members (consensus sk)). l \<le> flush_of (consensus sk') m}) \<and>
     as_commit_lsn resp = commit_lsn (consensus sk') \<and> commit_lsn (consensus sk) \<le> as_commit_lsn resp"

text \<open>
  The contract of a replicator: acknowledgements come from the peers it was given.  A node whose own
  id is not among the peers therefore keeps its own flush entry truthful.
\<close>

locale replicator_backend =
  fixes repl :: "'net replicator" and peers :: "NodeId list"
  assumes acks_from_peers: "repl t e bs net = (net', acks) \<Longrightarrow> a \<in> set acks \<Longrightarrow> ack_node a \<in> set peers"
begin

lemma own_entry:
  assumes "repl t e bs net = (net', acks)" "n \<notin> set peers"
  shows "flush_of (record_acks acks c) n = flush_of c n"
proof -
  have "filter (\<lambda>a. ack_node a = n) acks = []"
    using acks_from_peers [OF assms(1)] assms(2) by (auto simp: filter_empty_conv)
  then show ?thesis by (simp add: flush_of_record_acks)
qed

lemma append_stored:
  assumes inv: "sk_inv sk" and room: "room req" and at: "contiguous req sk"
    and live: "\<not> ar_term req < cterm (consensus sk)" and self: "node_id (consensus sk) \<notin> set peers"
    and repl: "repl (ar_term req) (end_lsn req) (ar_payload req) net = (net', acks)"
  shows "\<exists>sk' resp. handle_append repl req sk net = (sk', net', Ok resp) \<and> sk_inv sk' \<and> append_effect req sk acks sk' resp"
proof -
  let ?n = "node_id (consensus sk)"
  obtain s' c' where A: "handle_append repl req sk net = (sk\<lparr>storage := s', consensus := c'\<rparr>, net',
      Ok \<lparr>as_status = STATUS_OK, as_term = cterm (consensus sk), as_flush_lsn = end_lsn req, as_commit_lsn = commit_lsn c'\<rparr>)"
    "c' = record_acks acks (record_flush ?n (end_lsn req) (consensus sk))"
    "storage_inv s'" "flush_lsn s' = end_lsn req" "write_lsn s' = end_lsn req"
    "log_bytes s' = (if fresh (storage sk) then [] else log_bytes (storage sk)) @ ar_payload req"
    using handle_append_ok [where repl = repl, OF inv room at live repl] by metis
  have sinv: "storage_inv (storage sk)" and wf: "consensus_wf (consensus sk)"
    and own: "flush_of (consensus sk) ?n \<le> flush_lsn (storage sk)"
    using inv by (simp_all add: sk_inv_def)
  have "flush_of c' ?n = max (end_lsn req) (flush_of (consensus sk) ?n)"
    using own_entry [OF repl self] A(2) by (simp add: flush_of_record_flush)
  also have "\<dots> = end_lsn req"
    using own flush_le_end [OF sinv room at] by (intro max_absorb1) (rule order_trans)
  finally have self_flush: "flush_of c' ?n = end_lsn req" .
  have c': "members c' = members (consensus sk)" "quorum c' = quorum (consensus sk)" "consensus_wf c'" "node_id c' = ?n"
    using A(2) wf by simp_all
  have table: "flush_of c' m = (if m = ?n then end_lsn req
      else fold max (map ack_lsn (filter (\<lambda>a. ack_node a = m) acks)) (flush_of (consensus sk) m))" for m
    using self_flush A(2) by (simp add: flush_of_record_acks flush_of_record_flush)
  have q: "l \<le> commit_lsn c' \<longleftrightarrow> length (members (consensus sk)) div 2 + 1 \<le>
      card {m \<in> set (members (consensus sk)). l \<le> flush_of c' m}" for l
    using commit_lsn_le_iff [OF c'(3)] flushed_count_card [OF c'(3)] c'(1,3) by (simp add: consensus_wf_def)
  have mono: "commit_lsn (consensus sk) \<le> commit_lsn c'"
    using commit_lsn_record_flush [OF wf] commit_lsn_record_acks A(2) wf
    by (metis consensus_wf_record_flush order_trans)
  have "sk_inv (sk\<lparr>storage := s', consensus := c'\<rparr>)"
    using A(3,4) c' self_flush by (simp add: sk_inv_def)
  moreover have "append_effect req sk acks (sk\<lparr>storage := s', consensus := c'\<rparr>)
      \<lparr>as_status = STATUS_OK, as_term = cterm (consensus sk), as_flush_lsn = end_lsn req, as_commit_lsn = commit_lsn c'\<rparr>"
    using A(4-6) table q mono by (simp add: append_effect_def)
  ultimately show ?thesis using A(1) by blast
qed

end

lemma replicate_peers_acks:
  "replicate_peers connect exchange bs ns conns net = (net', conns', acks) \<Longrightarrow> a \<in> set acks \<Longrightarrow>
   ack_node a \<in> set ns"
  by (induction ns arbitrary: conns net net' conns' acks)
     (fastforce simp: Let_def split: prod.splits result.splits)+

interpretation sim: replicator_backend "sim_replicate peers" peers for peers
  by unfold_locales (auto simp: sim_replicate_def)

interpretation network: replicator_backend "network_replicate connect exchange peers" peers
  for connect exchange peers
  by unfold_locales
     (auto simp: network_replicate_def Let_def dest: replicate_peers_acks split: prod.splits)

lemma saturating_sub_end: "room req \<Longrightarrow> saturating_sub (end_lsn req) (length (ar_payload req)) = ar_start_lsn req"
  by (simp add: saturating_sub_def end_lsn_def room_def unat_add_nat)

lemma network_replicate_req:
  assumes "room req"
  shows "network_replicate connect exchange peers (ar_term req) (end_lsn req) (ar_payload req) (net, conns) =
    (case replicate_peers connect exchange (encode_replicate (req\<lparr>ar_tenant := ZERO, ar_timeline := ZERO\<rparr>)) peers conns net of
       (net', conns', acks) \<Rightarrow> ((net', conns'), acks))"
proof -
  have "\<lparr>ar_tenant = ZERO, ar_timeline = ZERO, ar_term = ar_term req,
      ar_start_lsn = saturating_sub (end_lsn req) (length (ar_payload req)), ar_payload = ar_payload req\<rparr> =
      req\<lparr>ar_tenant := ZERO, ar_timeline := ZERO\<rparr>"
    using saturating_sub_end [OF assms] by simp
  then show ?thesis by (simp add: network_replicate_def Let_def)
qed


definition sample_sk :: Safekeeper where
  "sample_sk = \<lparr>storage = sample_store, consensus = member_init [1, 2, 3] 1\<rparr>"

definition sample_req :: AppendRequest where
  "sample_req = \<lparr>ar_tenant = 0, ar_timeline = 0, ar_term = 0, ar_start_lsn = 10, ar_payload = [1, 2, 3]\<rparr>"

lemma sample_sk_inv: "sk_inv sample_sk"
  using sample_store_inv
  by (simp add: sk_inv_def sample_sk_def consensus_wf_def member_init_def flush_of_def)

text \<open>Peer 2 acknowledges three bytes and peer 3 is unreachable: the append commits.\<close>

definition sample_exchange :: "NodeId \<Rightarrow> bytes \<Rightarrow> unit \<Rightarrow> unit \<times> bytes option" where
  "sample_exchange n bs net =
     (net, Some (append_response_encode \<lparr>as_status = STATUS_OK, as_term = 0, as_flush_lsn = 13, as_commit_lsn = 0\<rparr>))"


section \<open>Reads\<close>

lemma handle_read_committed:
  assumes inv: "sk_inv sk" and lag: "commit_lsn (consensus sk) \<le> write_lsn (storage sk)"
  shows "handle_read req sk = Ok \<lparr>rs_status = STATUS_OK, rs_commit_lsn = commit_lsn (consensus sk),
    rs_start_lsn = max (rr_start_lsn req) (start_lsn (storage sk)),
    rs_payload = take (min (unat (commit_lsn (consensus sk)) - unat (max (rr_start_lsn req) (start_lsn (storage sk))))
        (unat (rr_max_bytes req)))
      (drop (unat (max (rr_start_lsn req) (start_lsn (storage sk))) - unat (start_lsn (storage sk)))
        (log_bytes (storage sk)))\<rparr>"
proof -
  define start cl where "start = start_lsn (storage sk)" and "cl = commit_lsn (consensus sk)"
  let ?from = "max (rr_start_lsn req) start"
  let ?n = "min (unat cl - unat ?from) (unat (rr_max_bytes req))"
  have sinv: "storage_inv (storage sk)" using inv by (simp add: sk_inv_def)
  have le: "unat cl \<le> unat (write_lsn (storage sk))" using lag by (simp add: cl_def word_le_nat_alt)
  have lo: "unat start \<le> unat ?from" by (simp add: word_le_nat_alt [symmetric])
  show ?thesis
  proof (cases "?n = 0")
    case True
    then show ?thesis by (auto simp: handle_read_def Let_def start_def [symmetric] cl_def [symmetric])
  next
    case False
    then have hi: "unat ?from + ?n \<le> unat (write_lsn (storage sk))" using le by linarith
    have "read_at ?from ?n (storage sk) = Ok (take ?n (drop (unat ?from - unat start) (log_bytes (storage sk))))"
      using wal.rd_law [OF sinv, of ?from ?n] lo hi length_log_bytes [OF sinv] by (simp add: start_def)
    with False show ?thesis
      by (simp add: handle_read_def Let_def start_def [symmetric] cl_def [symmetric])
  qed
qed

text \<open>
  C22.  The page server is served committed WAL only: a read returns the bytes of the log from the
  requested position (raised to the retained origin) up to the commit position, cut at the requested
  maximum, and an empty payload once the reader has caught up.
\<close>

theorem handle_read_serves_committed:
  assumes inv: "sk_inv sk" and lag: "commit_lsn (consensus sk) \<le> write_lsn (storage sk)"
  defines "start \<equiv> start_lsn (storage sk)" and "cl \<equiv> commit_lsn (consensus sk)"
  shows "\<exists>resp. handle_read req sk = Ok resp \<and> rs_status resp = STATUS_OK \<and> rs_commit_lsn resp = cl \<and>
    rs_start_lsn resp = max (rr_start_lsn req) start \<and>
    rs_payload resp = take (min (unat cl - unat (rs_start_lsn resp)) (unat (rr_max_bytes req)))
      (drop (unat (rs_start_lsn resp) - unat start) (log_bytes (storage sk)))"
  using handle_read_committed [OF inv lag, of req] by (simp add: start_def cl_def)

definition sample_sk2 :: Safekeeper where
  "sample_sk2 = \<lparr>storage = fst (storage_append 10 [1, 2, 3, 4, 5] sample_store),
                 consensus = record_flush 2 13 (record_flush 1 10 (member_init [1, 2, 3] 1))\<rparr>"

theorem handle_read_serves_committed_witness:
  "\<exists>resp. handle_read \<lparr>rr_tenant = 0, rr_timeline = 0, rr_start_lsn = 0, rr_max_bytes = 2\<rparr> sample_sk2 = Ok resp \<and>
     rs_status resp = STATUS_OK"
proof -
  obtain st' where st': "storage_append 10 [1, 2, 3, 4, 5] sample_store = (st', Ok ())" "storage_inv st'"
    "flush_lsn st' = 10" "unat (write_lsn st') = 15"
    using storage_append_ok [OF sample_store_inv(1), of 10 "[1, 2, 3, 4, 5]"]
      seed_simps(2) [OF sample_store_inv(2)]
    by (auto simp: sample_store_def)
  have w: "write_lsn st' = 15" using st'(4) by (simp add: word_unat_eq_iff)
  have c: "consensus_wf (consensus sample_sk2)" "flush_of (consensus sample_sk2) 1 = 10"
    by (simp_all add: sample_sk2_def consensus_wf_def flush_of_record_flush)
       (simp_all add: member_init_def flush_of_def)
  have inv: "sk_inv sample_sk2"
    using st' c by (simp add: sk_inv_def sample_sk2_def) (simp add: member_init_def)
  have "map (flush_of (consensus sample_sk2)) [1, 2, 3] = [10, 13, 0]"
    by (simp add: sample_sk2_def record_flush_def member_init_def flush_of_def)
  moreover have "members (consensus sample_sk2) = [1, 2, 3]" "quorum (consensus sample_sk2) = 2"
    by (simp_all add: sample_sk2_def member_init_def)
  ultimately have "commit_lsn (consensus sample_sk2) = 10" unfolding commit_lsn_def by simp
  then have "commit_lsn (consensus sample_sk2) \<le> write_lsn (storage sample_sk2)"
    using st' w by (simp add: sample_sk2_def)
  from handle_read_serves_committed [OF inv this] show ?thesis by blast
qed

section \<open>A connection is a sequence of requests\<close>

datatype SkRequest =
    AppendReq AppendRequest | ReplicateReq AppendRequest | ReadReq ReadRequest | VoteReq VoteRequest

fun sk_encode :: "SkRequest \<Rightarrow> bytes" where
  "sk_encode (AppendReq r) = append_encode r"
| "sk_encode (ReplicateReq r) = encode_replicate r"
| "sk_encode (ReadReq r) = read_request_encode r"
| "sk_encode (VoteReq r) = vote_request_encode r"

fun sk_wf :: "SkRequest \<Rightarrow> bool" where
  "sk_wf (AppendReq r) = append_wf r"
| "sk_wf (ReplicateReq r) = append_wf r"
| "sk_wf (ReadReq r) = True"
| "sk_wf (VoteReq r) = True"

fun sk_handle :: "'net replicator \<Rightarrow> SkRequest \<Rightarrow> Safekeeper \<Rightarrow> 'net \<Rightarrow> Safekeeper \<times> 'net \<times> (SkError, bytes) result" where
  "sk_handle repl (AppendReq r) sk net =
     (case handle_append repl r sk net of (sk', net', x) \<Rightarrow> (sk', net', rbind x (\<lambda>y. Ok (append_response_encode y))))"
| "sk_handle repl (ReplicateReq r) sk net =
     (case handle_replicate r sk of (sk', x) \<Rightarrow> (sk', net, rbind x (\<lambda>y. Ok (append_response_encode y))))"
| "sk_handle repl (ReadReq r) sk net = (sk, net, rbind (handle_read r sk) (\<lambda>y. Ok (read_response_encode y)))"
| "sk_handle repl (VoteReq r) sk net =
     (let (sk', y) = handle_vote r sk in (sk', net, Ok (vote_response_encode y)))"

fun sk_process :: "'net replicator \<Rightarrow> SkRequest list \<Rightarrow> Safekeeper \<Rightarrow> 'net \<Rightarrow> Safekeeper \<times> 'net \<times> bytes \<times> (SkError, unit) result" where
  "sk_process repl [] sk net = (sk, net, [], Ok ())"
| "sk_process repl (r # rs) sk net =
     (case sk_handle repl r sk net of
        (sk', net', Ok out) \<Rightarrow>
          (let (sk2, net2, outs, x) = sk_process repl rs sk' net' in (sk2, net2, out @ outs, x))
      | (sk', net', Err e) \<Rightarrow> (sk', net', [], Err e)
      | (sk', net', Panic) \<Rightarrow> (sk', net', [], Panic))"

lemma take_8_52: "take 8 x @ take 52 (drop 8 x) = take 60 x"
  using take_add [of 8 52 x] by simp

lemma read_append_message_encoded:
  assumes wf: "append_wf r" and ty: "ty = TYPE_APPEND \<or> ty = TYPE_REPLICATE"
  shows "read_append_message k c (take 8 (encode_as r ty @ rest)) (drop 8 (encode_as r ty @ rest)) = Ok (r, rest)"
proof -
  let ?p = "length (ar_payload r)"
  define X where "X = encode_as r ty @ rest"
  have len: "length (encode_as r ty) = 60 + ?p" by (simp add: length_encode_as wal_lens)
  then have lenX: "length X = 60 + ?p + length rest" by (simp add: X_def)
  have hdr: "take 8 X @ take 52 (drop 8 X) = take 60 X" by (rule take_8_52)
  have parts: "take 60 X = take 60 (encode_as r ty)" "take ?p (drop 60 X) = drop 60 (encode_as r ty)"
    "drop (60 + ?p) X = rest"
    using len by (simp_all add: X_def)
  have plen: "append_payload_len (take 60 X) = Ok ?p"
    unfolding parts using append_payload_len_encode(1) [OF wf ty] by (simp add: wal_lens)
  have full: "take 8 X @ take 52 (drop 8 X) @ take ?p (drop 60 X) = encode_as r ty"
    using hdr parts by (metis append.assoc append_take_drop_id)
  have dec: "append_decode (encode_as r ty) = Ok r"
    using append_decode_encode_as [OF wf ty, of "[]"] by simp
  show ?thesis
    unfolding read_append_message_def read_exact_def wal_lens X_def [symmetric]
    using hdr plen full dec parts(3) lenX by (simp add: add.commute)
qed

lemma message_type_encoded:
  "message_type (take 8 (sk_encode r @ rest)) =
     Ok (case r of AppendReq _ \<Rightarrow> TYPE_APPEND | ReplicateReq _ \<Rightarrow> TYPE_REPLICATE | ReadReq _ \<Rightarrow> TYPE_READ | VoteReq _ \<Rightarrow> TYPE_VOTE)"
  by (cases r) (simp_all add: append_encode_def encode_replicate_def encode_as_def read_request_encode_def
      vote_request_encode_def codec)

lemma serve_message_encoded:
  assumes "sk_wf r"
  shows "serve_message repl (take 8 (sk_encode r @ rest)) (drop 8 (sk_encode r @ rest)) sk net =
    (case sk_handle repl r sk net of (sk', net', x) \<Rightarrow> (sk', net', rbind x (\<lambda>out. Ok (rest, out))))"
proof (cases r)
  case (AppendReq a)
  then show ?thesis
    using assms read_append_message_encoded [of a TYPE_APPEND] message_type_encoded [of r rest]
    by (auto simp: serve_message_def serve_append_def append_encode_def rbind_assoc split: prod.splits)
next
  case (ReplicateReq a)
  then show ?thesis
    using assms read_append_message_encoded [of a TYPE_REPLICATE] message_type_encoded [of r rest]
    by (auto simp: serve_message_def serve_replicate_def encode_replicate_def rbind_assoc wal_types split: prod.splits)
next
  case (ReadReq a)
  have len: "length (read_request_encode a) = 52" by (simp add: read_request_encode_def)
  have "take 8 (read_request_encode a @ rest) @ take 44 (drop 8 (read_request_encode a @ rest)) = read_request_encode a"
    using take_add [of 8 44 "read_request_encode a @ rest"] len by simp
  with ReadReq show ?thesis
    using message_type_encoded [of r rest] len read_request_codec.dec_enc [of a]
    by (simp add: serve_message_def serve_read_def read_exact_def wal_lens wal_types rbind_assoc)
next
  case (VoteReq a)
  have len: "length (vote_request_encode a) = 56" by (simp add: vote_request_encode_def)
  have "take 8 (vote_request_encode a @ rest) @ take 48 (drop 8 (vote_request_encode a @ rest)) = vote_request_encode a"
    using take_add [of 8 48 "vote_request_encode a @ rest"] len by simp
  with VoteReq show ?thesis
    using message_type_encoded [of r rest] len vote_request_codec.dec_enc [of a]
    by (simp add: serve_message_def serve_vote_def read_exact_def wal_lens wal_types Let_def split: prod.splits)
qed

lemma serve_connection_refines:
  assumes "\<forall>r \<in> set reqs. sk_wf r"
  shows "serve_connection repl (concat (map sk_encode reqs)) sk net = sk_process repl reqs sk net"
  using assms
proof (induction reqs arbitrary: sk net)
  case Nil
  then show ?case by (simp add: serve_connection.simps PREFIX_LEN_def)
next
  case (Cons r reqs)
  have len: "\<not> length (sk_encode r @ concat (map sk_encode reqs)) < PREFIX_LEN"
    by (cases r) (simp_all add: append_encode_def encode_replicate_def encode_as_def
        read_request_encode_def vote_request_encode_def PREFIX_LEN_def)
  obtain sk' net' x where h: "sk_handle repl r sk net = (sk', net', x)" by (metis prod_cases3)
  have "serve_message repl (take 8 (sk_encode r @ concat (map sk_encode reqs)))
      (drop 8 (sk_encode r @ concat (map sk_encode reqs))) sk net =
      (sk', net', rbind x (\<lambda>out. Ok (concat (map sk_encode reqs), out)))"
    using serve_message_encoded [of r repl] Cons.prems h by simp
  with len h Cons show ?case
    unfolding list.map concat.simps
    by (subst serve_connection.simps) (cases x; simp add: PREFIX_LEN_def)
qed

text \<open>
  C31.  Serving a connection is processing its requests one after the other: the byte stream of any
  sequence of encoded requests of the four kinds is cut at the right places, each request reaches its
  handler with the fields it was sent with, and the reply stream is the sequence of encoded responses,
  up to the first request whose handler fails.
\<close>

theorem serve_connection_processes_requests:
  assumes "\<forall>r \<in> set reqs. sk_wf r"
  shows "serve_connection repl (concat (map sk_encode reqs)) sk net = sk_process repl reqs sk net"
  using assms by (rule serve_connection_refines)

theorem serve_connection_processes_requests_witness:
  "serve_connection (sim_replicate [2, 3])
      (concat (map sk_encode [AppendReq sample_req, VoteReq \<lparr>vr_tenant = 0, vr_timeline = 0, vr_term = 4, vr_candidate = 2\<rparr>]))
      sample_sk () =
   sk_process (sim_replicate [2, 3])
      [AppendReq sample_req, VoteReq \<lparr>vr_tenant = 0, vr_timeline = 0, vr_term = 4, vr_candidate = 2\<rparr>] sample_sk ()"
  by (rule serve_connection_processes_requests) (simp add: append_wf_def sample_req_def)

section \<open>A group of safekeepers\<close>

text \<open>
  The peers behind the network replicator are safekeepers themselves: a message sent to one that is
  up is served by its connection loop and answered with the bytes that loop writes.
\<close>

type_synonym group = "NodeId \<Rightarrow> Safekeeper"

definition group_connect :: "NodeId set \<Rightarrow> NodeId \<Rightarrow> group \<Rightarrow> group \<times> bool" where
  "group_connect up n g = (g, n \<in> up)"

definition group_exchange :: "NodeId set \<Rightarrow> NodeId \<Rightarrow> bytes \<Rightarrow> group \<Rightarrow> group \<times> bytes option" where
  "group_exchange up n bs g =
     (if n \<notin> up then (g, None)
      else case serve_connection (sim_replicate []) bs (g n) () of
        (sk', _, out, _) \<Rightarrow>
          (g(n := sk'), if length out < RESPONSE_LEN then None else Some (take RESPONSE_LEN out)))"

definition leader_append ::
  "NodeId set \<Rightarrow> NodeId list \<Rightarrow> NodeId \<Rightarrow> AppendRequest \<Rightarrow> NodeId set \<Rightarrow> group \<Rightarrow>
   group \<times> NodeId set \<times> (SkError, AppendResponse) result" where
  "leader_append up peers l req conns g =
     (case handle_append (network_replicate (group_connect up) (group_exchange up) peers) req (g l) (g, conns) of
        (sk', (g', conns'), r) \<Rightarrow> (g'(l := sk'), conns', r))"

definition group_inv :: "NodeId list \<Rightarrow> group \<Rightarrow> bool" where
  "group_inv ms g \<longleftrightarrow>
     (\<forall>n \<in> set ms. sk_inv (g n) \<and> node_id (consensus (g n)) = n \<and> members (consensus (g n)) = ms) \<and>
     (\<forall>n \<in> set ms. \<forall>m \<in> set ms. flush_of (consensus (g n)) m \<le> flush_lsn (storage (g m)))"

lemma handle_replicate_facts:
  assumes inv: "sk_inv sk" and room: "room req" and h: "handle_replicate req sk = (sk', r)"
  shows "sk_inv sk'" "node_id (consensus sk') = node_id (consensus sk)"
    "members (consensus sk') = members (consensus sk)"
    "flush_lsn (storage sk) \<le> flush_lsn (storage sk')"
    "r = Ok resp \<Longrightarrow> as_flush_lsn resp = flush_lsn (storage sk')"
    "m \<noteq> node_id (consensus sk) \<Longrightarrow> flush_of (consensus sk') m = flush_of (consensus sk) m"
proof -
  have all: "sk_inv sk' \<and> node_id (consensus sk') = node_id (consensus sk) \<and>
    members (consensus sk') = members (consensus sk) \<and>
    flush_lsn (storage sk) \<le> flush_lsn (storage sk') \<and>
    (r = Ok resp \<longrightarrow> as_flush_lsn resp = flush_lsn (storage sk')) \<and>
    (m \<noteq> node_id (consensus sk) \<longrightarrow> flush_of (consensus sk') m = flush_of (consensus sk) m)"
  proof (cases "ar_term req < cterm (consensus sk) \<or> \<not> contiguous req sk")
    case True
    then have "sk' = sk" "r = Ok resp \<Longrightarrow> as_flush_lsn resp = flush_lsn (storage sk)"
      using h by (auto simp: handle_replicate_def store_and_flush_gap stale_response_def split: if_splits)
    with inv show ?thesis by simp
  next
    case False
    then have at: "contiguous req sk" and live: "\<not> ar_term req < cterm (consensus sk)" by simp_all
    have sinv: "storage_inv (storage sk)" and wf: "consensus_wf (consensus sk)"
      and own: "flush_of (consensus sk) (node_id (consensus sk)) \<le> flush_lsn (storage sk)"
      using inv by (simp_all add: sk_inv_def)
    obtain s' where s': "store_and_flush ''replicate: append to WAL store'' ''replicate: flush WAL store'' req sk =
        (sk\<lparr>storage := s'\<rparr>, Ok (end_lsn req))" "storage_inv s'" "flush_lsn s' = end_lsn req"
      using store_and_flush_ok [OF sinv room at] by metis
    have le: "flush_lsn (storage sk) \<le> end_lsn req" by (rule flush_le_end [OF sinv room at])
    have sk': "sk' = sk\<lparr>storage := s', consensus := record_flush (node_id (consensus sk)) (end_lsn req) (consensus sk)\<rparr>"
      and r: "r = Ok resp \<Longrightarrow> as_flush_lsn resp = end_lsn req"
      using h live s'(1) by (auto simp: handle_replicate_def Let_def)
    have "max (end_lsn req) (flush_of (consensus sk) (node_id (consensus sk))) = end_lsn req"
      using own le by (intro max_absorb1) (rule order_trans)
    then have "sk_inv sk'" using sk' s' wf by (simp add: sk_inv_def flush_of_record_flush)
    then show ?thesis using sk' r s'(3) le by (simp add: flush_of_record_flush)
  qed
  show "sk_inv sk'" "node_id (consensus sk') = node_id (consensus sk)"
    "members (consensus sk') = members (consensus sk)"
    "flush_lsn (storage sk) \<le> flush_lsn (storage sk')"
    "r = Ok resp \<Longrightarrow> as_flush_lsn resp = flush_lsn (storage sk')"
    "m \<noteq> node_id (consensus sk) \<Longrightarrow> flush_of (consensus sk') m = flush_of (consensus sk) m"
    using all by blast+
qed

lemma serve_replicate_encoded:
  assumes "append_wf req"
  shows "serve_connection (sim_replicate []) (encode_replicate req) sk () =
    (case handle_replicate req sk of
       (sk', Ok resp) \<Rightarrow> (sk', (), append_response_encode resp, Ok ())
     | (sk', Err e) \<Rightarrow> (sk', (), [], Err e)
     | (sk', Panic) \<Rightarrow> (sk', (), [], Panic))"
  using serve_connection_refines [of "[ReplicateReq req]" "sim_replicate []" sk "()"] assms
  by (auto split: prod.splits result.splits)

lemma group_invD:
  assumes "group_inv ms g" "n \<in> set ms"
  shows "sk_inv (g n)" "node_id (consensus (g n)) = n" "members (consensus (g n)) = ms"
    "m \<in> set ms \<Longrightarrow> flush_of (consensus (g n)) m \<le> flush_lsn (storage (g m))"
  using assms by (simp_all add: group_inv_def)

lemma group_inv_update:
  assumes inv: "group_inv ms g" and n: "n \<in> set ms"
    and sk: "sk_inv sk" "node_id (consensus sk) = n" "members (consensus sk) = ms"
    and grow: "flush_lsn (storage (g n)) \<le> flush_lsn (storage sk)"
    and entries: "\<And>m. m \<in> set ms \<Longrightarrow> m \<noteq> n \<Longrightarrow> flush_of (consensus sk) m \<le> flush_lsn (storage (g m))"
  shows "group_inv ms (g(n := sk))"
proof -
  have own: "flush_of (consensus sk) n \<le> flush_lsn (storage sk)"
    using sk by (simp add: sk_inv_def)
  have "flush_of (consensus (g m)) n \<le> flush_lsn (storage sk)" if "m \<in> set ms" for m
    using group_invD(4) [OF inv that n] grow by (rule order_trans)
  with own show ?thesis
    using inv sk entries unfolding group_inv_def by auto
qed

definition flush_grows :: "group \<Rightarrow> group \<Rightarrow> bool" where
  "flush_grows g g' \<longleftrightarrow> (\<forall>m. flush_lsn (storage (g m)) \<le> flush_lsn (storage (g' m)))"

lemma flush_grows_trans: "flush_grows g g1 \<Longrightarrow> flush_grows g1 g2 \<Longrightarrow> flush_grows g g2"
  unfolding flush_grows_def by (meson order_trans)

lemma group_exchange_facts:
  assumes inv: "group_inv ms g" and n: "n \<in> set ms" and req: "room req" "append_wf req"
    and ex: "group_exchange up n (encode_replicate req) g = (g', reply)"
  shows "group_inv ms g' \<and> flush_grows g g' \<and> (\<forall>m. m \<noteq> n \<longrightarrow> g' m = g m) \<and>
    (\<forall>bs r. reply = Some bs \<and> append_response_decode bs = Ok r \<longrightarrow> as_flush_lsn r = flush_lsn (storage (g' n)))"
proof (cases "n \<in> up")
  case False
  then show ?thesis using ex inv by (simp add: group_exchange_def flush_grows_def)
next
  case True
  obtain sk' r where h: "handle_replicate req (g n) = (sk', r)" by fastforce
  note F = handle_replicate_facts [OF group_invD(1) [OF inv n] req(1) h]
  have inv': "group_inv ms (g(n := sk'))"
    by (rule group_inv_update [OF inv n F(1)])
       (use F(2-4,6) group_invD(2-4) [OF inv n] in auto)
  have g': "g' = g(n := sk')"
    using ex True serve_replicate_encoded [OF req(2), of "g n"] h
    by (cases r) (auto simp: group_exchange_def)
  have "as_flush_lsn a = flush_lsn (storage sk')"
    if "reply = Some bs" "append_response_decode bs = Ok a" for bs a
  proof (cases r)
    case (Ok resp)
    have len: "length (append_response_encode resp) = RESPONSE_LEN"
      by (simp add: append_response_encode_def RESPONSE_LEN_def)
    have "bs = append_response_encode resp"
      using ex True serve_replicate_encoded [OF req(2), of "g n"] h Ok that(1) len
      by (simp add: group_exchange_def)
    then have "a = resp" using that(2) append_response_codec.dec_enc [of resp] by simp
    then show ?thesis using F(5) Ok by simp
  qed (use ex True serve_replicate_encoded [OF req(2), of "g n"] h that(1) in
        \<open>simp_all add: group_exchange_def RESPONSE_LEN_def\<close>)
  moreover have "flush_grows g g'" using F(4) by (simp add: g' flush_grows_def)
  ultimately show ?thesis using g' inv' by simp
qed

lemma replicate_peers_facts:
  assumes "group_inv ms g" "set ns \<subseteq> set ms" "room req" "append_wf req"
    "replicate_peers (group_connect up) (group_exchange up) (encode_replicate req) ns conns g = (g', conns', acks)"
  shows "group_inv ms g' \<and> flush_grows g g' \<and> (\<forall>m. m \<notin> set ns \<longrightarrow> g' m = g m) \<and>
    (\<forall>a \<in> set acks. ack_lsn a \<le> flush_lsn (storage (g' (ack_node a))))"
  using assms
proof (induction ns arbitrary: g conns g' conns' acks)
  case Nil
  then show ?case by (simp add: flush_grows_def)
next
  case (Cons n ns)
  obtain g1 conns1 r where send:
      "send_to_peer (group_connect up) (group_exchange up) conns n (encode_replicate req) g = (g1, conns1, r)"
    by (metis prod_cases3)
  have step: "group_inv ms g1 \<and> flush_grows g g1 \<and> (\<forall>m. m \<noteq> n \<longrightarrow> g1 m = g m) \<and>
      (\<forall>fl. r = Ok fl \<longrightarrow> fl = flush_lsn (storage (g1 n)))"
  proof (cases "n \<in> conns \<or> n \<in> up")
    case False
    then show ?thesis using send Cons.prems(1) by (auto simp: send_to_peer_def group_connect_def flush_grows_def)
  next
    case True
    obtain g2 reply where ex: "group_exchange up n (encode_replicate req) g = (g2, reply)" by fastforce
    have "g1 = g2" and "r = Ok fl \<Longrightarrow> \<exists>bs a. reply = Some bs \<and> append_response_decode bs = Ok a \<and> fl = as_flush_lsn a" for fl
      using send True ex
      by (auto simp: send_to_peer_def group_connect_def rbind_eq_Ok Let_def split: option.splits if_splits)
    with group_exchange_facts [OF Cons.prems(1) _ Cons.prems(3,4) ex] Cons.prems(2) show ?thesis
      by fastforce
  qed
  obtain c2 as where rec: "replicate_peers (group_connect up) (group_exchange up) (encode_replicate req) ns c2 g1 = (g', conns', as)"
    and acks: "acks = as \<or> (\<exists>fl. r = Ok fl \<and> acks = \<lparr>ack_node = n, ack_lsn = fl\<rparr> # as)"
    using Cons.prems(5) send by (cases r) (auto split: prod.splits)
  have IH: "group_inv ms g' \<and> flush_grows g1 g' \<and> (\<forall>m. m \<notin> set ns \<longrightarrow> g' m = g1 m) \<and>
      (\<forall>a \<in> set as. ack_lsn a \<le> flush_lsn (storage (g' (ack_node a))))"
    using Cons.IH [OF _ _ Cons.prems(3,4) rec] step Cons.prems(2) by simp
  then show ?case
    using step acks flush_grows_trans [of g g1 g'] by (auto simp: flush_grows_def)
qed

lemma fold_max_le: "x \<le> b \<Longrightarrow> (\<And>y. y \<in> set ys \<Longrightarrow> y \<le> b) \<Longrightarrow> fold max ys x \<le> (b :: 'a::linorder)"
  by (induction ys arbitrary: x) auto

lemma leader_append_facts:
  assumes inv: "group_inv ms g" and l: "l \<in> set ms" and peers: "set peers \<subseteq> set ms - {l}"
    and req: "room req" "append_wf req"
    and la: "leader_append up peers l req conns g = (g', conns', r)"
  shows "group_inv ms g'" "r = Ok resp \<Longrightarrow> as_commit_lsn resp = commit_lsn (consensus (g' l))"
proof -
  let ?sk = "g l"
  note D = group_invD [OF inv l]
  have "group_inv ms g' \<and> (r = Ok resp \<longrightarrow> as_commit_lsn resp = commit_lsn (consensus (g' l)))"
  proof (cases "ar_term req < cterm (consensus ?sk) \<or> \<not> contiguous req ?sk")
    case True
    then have "g' = g \<and> (r = Ok resp \<longrightarrow> as_commit_lsn resp = commit_lsn (consensus (g l)))"
      using la by (auto simp: leader_append_def handle_append_def store_and_flush_gap stale_response_def
          split: if_splits)
    with inv show ?thesis by simp
  next
    case False
    then have at: "contiguous req ?sk" and live: "\<not> ar_term req < cterm (consensus ?sk)" by simp_all
    let ?repl = "network_replicate (group_connect up) (group_exchange up) peers"
    obtain g1 conns1 acks where rp: "replicate_peers (group_connect up) (group_exchange up)
        (encode_replicate (req\<lparr>ar_tenant := ZERO, ar_timeline := ZERO\<rparr>)) peers conns g = (g1, conns1, acks)"
      by (metis prod_cases3)
    have repl: "?repl (ar_term req) (end_lsn req) (ar_payload req) (g, conns) = ((g1, conns1), acks)"
      by (simp add: network_replicate_req [OF req(1)] rp)
    have P: "group_inv ms g1 \<and> flush_grows g g1 \<and> (\<forall>m. m \<notin> set peers \<longrightarrow> g1 m = g m) \<and>
        (\<forall>a \<in> set acks. ack_lsn a \<le> flush_lsn (storage (g1 (ack_node a))))"
      by (rule replicate_peers_facts [OF inv _ _ _ rp])
         (use peers req in \<open>auto simp: room_def append_wf_def\<close>)
    have self: "node_id (consensus ?sk) \<notin> set peers" using D(2) peers by auto
    obtain sk' resp' where ap: "handle_append ?repl req ?sk (g, conns) = (sk', (g1, conns1), Ok resp')"
      and sk': "sk_inv sk'" "flush_lsn (storage sk') = end_lsn req" "as_commit_lsn resp' = commit_lsn (consensus sk')"
      using network.append_stored [OF D(1) req(1) at live self repl] by (auto simp: append_effect_def)
    obtain s2 c' where A: "handle_append ?repl req ?sk (g, conns) = (?sk\<lparr>storage := s2, consensus := c'\<rparr>, (g1, conns1),
        Ok \<lparr>as_status = STATUS_OK, as_term = cterm (consensus ?sk), as_flush_lsn = end_lsn req, as_commit_lsn = commit_lsn c'\<rparr>)"
      "c' = record_acks acks (record_flush (node_id (consensus ?sk)) (end_lsn req) (consensus ?sk))"
      using handle_append_ok [where repl = ?repl, OF D(1) req(1) at live repl] by metis
    have skc: "sk' = ?sk\<lparr>storage := s2, consensus := c'\<rparr>" using ap A(1) by simp
    have le: "flush_lsn (storage ?sk) \<le> end_lsn req"
      by (rule flush_le_end [OF _ req(1) at]) (use D(1) in \<open>simp add: sk_inv_def\<close>)
    have g1l: "g1 l = ?sk" using P peers by auto
    have entries: "flush_of c' m \<le> flush_lsn (storage (g1 m))" if m: "m \<in> set ms" "m \<noteq> l" for m
    proof -
      have "flush_of (record_flush (node_id (consensus ?sk)) (end_lsn req) (consensus ?sk)) m \<le> flush_lsn (storage (g1 m))"
        using D(2) D(4) [OF m(1)] m P by (auto simp: flush_of_record_flush flush_grows_def intro: order_trans)
      then show ?thesis
        unfolding A(2) flush_of_record_acks using P by (intro fold_max_le) auto
    qed
    have "group_inv ms (g1(l := sk'))"
      by (rule group_inv_update [OF _ l sk'(1)])
         (use P g1l D(2,3) sk'(2) le entries skc A(2) in auto)
    moreover have "g' = g1(l := sk')" "r = Ok resp'"
      using la ap A(1) by (auto simp: leader_append_def)
    ultimately show ?thesis using sk'(3) by auto
  qed
  then show "group_inv ms g'" "r = Ok resp \<Longrightarrow> as_commit_lsn resp = commit_lsn (consensus (g' l))" by simp_all
qed

text \<open>
  C2.  A commit position a leader reports is durable on a majority.  Whatever peers are reachable and
  however they answer, after the leader's append every member's table of flush positions is still
  truthful, and at least a quorum of the members has flushed up to the commit position in the reply.
\<close>

theorem commit_is_durable_on_majority:
  assumes inv: "group_inv ms g" and l: "l \<in> set ms" and peers: "set peers \<subseteq> set ms - {l}"
    and req: "room req" "append_wf req"
    and la: "leader_append up peers l req conns g = (g', conns', r)"
  shows "group_inv ms g' \<and>
    (\<forall>resp. r = Ok resp \<longrightarrow>
       length ms div 2 + 1 \<le> card {m \<in> set ms. as_commit_lsn resp \<le> flush_lsn (storage (g' m))})"
proof (intro conjI allI impI)
  show inv': "group_inv ms g'" by (rule leader_append_facts(1) [OF assms])
  fix resp assume "r = Ok resp"
  then have cl: "as_commit_lsn resp = commit_lsn (consensus (g' l))" by (rule leader_append_facts(2) [OF assms])
  note D = group_invD [OF inv' l]
  have wf: "consensus_wf (consensus (g' l))" using D(1) by (simp add: sk_inv_def)
  have "quorum (consensus (g' l)) \<le> card {m \<in> set ms. commit_lsn (consensus (g' l)) \<le> flush_of (consensus (g' l)) m}"
    using commit_lsn_le_iff [OF wf, of "commit_lsn (consensus (g' l))"] flushed_count_card [OF wf] D(3) by simp
  also have "\<dots> \<le> card {m \<in> set ms. commit_lsn (consensus (g' l)) \<le> flush_lsn (storage (g' m))}"
    using D(4) by (intro card_mono) (auto intro: order_trans)
  finally show "length ms div 2 + 1 \<le> card {m \<in> set ms. as_commit_lsn resp \<le> flush_lsn (storage (g' m))}"
    using wf D(3) cl by (simp add: consensus_wf_def)
qed

definition sample_group :: group where
  "sample_group n = \<lparr>storage = sample_store, consensus = member_init [1, 2, 3] n\<rparr>"

lemma sample_group_inv: "group_inv [1, 2, 3] sample_group"
  using sample_store_inv
  by (auto simp: group_inv_def sk_inv_def sample_group_def consensus_wf_def member_init_def flush_of_def)

theorem commit_is_durable_on_majority_witness:
  "\<exists>g' conns' resp. leader_append {2} [2, 3] 1 sample_req {} sample_group = (g', conns', Ok resp) \<and>
     2 \<le> card {m \<in> set [1, 2, 3]. as_commit_lsn resp \<le> flush_lsn (storage (g' m))}"
proof -
  have one: "(1 :: NodeId) \<in> set [1, 2, 3]" by simp
  have r: "room sample_req" "append_wf sample_req" by (simp_all add: room_def append_wf_def sample_req_def)
  have at: "contiguous sample_req (sample_group 1)" "\<not> ar_term sample_req < cterm (consensus (sample_group 1))"
    "node_id (consensus (sample_group 1)) \<notin> set [2, 3]"
    by (simp_all add: contiguous_def sample_req_def sample_group_def sample_store_def member_init_def)
  let ?repl = "network_replicate (group_connect {2}) (group_exchange {2}) [2, 3]"
  obtain net' acks where "?repl (ar_term sample_req) (end_lsn sample_req) (ar_payload sample_req) (sample_group, {}) = (net', acks)"
    by (metis surj_pair)
  then obtain sk' resp where "handle_append ?repl sample_req (sample_group 1) (sample_group, {}) = (sk', net', Ok resp)"
    using network.append_stored [OF group_invD(1) [OF sample_group_inv one] r(1) at] by blast
  then obtain g' conns' where la: "leader_append {2} [2, 3] 1 sample_req {} sample_group = (g', conns', Ok resp)"
    by (cases net') (auto simp: leader_append_def)
  from commit_is_durable_on_majority [OF sample_group_inv _ _ r la] la show ?thesis by auto
qed

end
