(* ===== verification/Wal_Receiver.thy ===== *)
theory Wal_Receiver
  imports Wal_Stream Safekeeper
begin

text \<open>
  The WAL receiver of the page server (\<open>pageserver/src/walreceiver.rs\<close>): it asks a safekeeper for
  committed WAL from its cursor, feeds each chunk to a long-lived stream decoder and ingests the complete
  records into its timeline's store.  The TCP connection is a parameter, a \<open>transport\<close> with the two
  operations the code uses.  The final group connects the receiver to the safekeeper's own connection
  handler and shows that it catches up with the commit position and then holds what a one-shot ingestion
  of the committed log would hold.
\<close>

section \<open>The receiver\<close>

text \<open>\<open>write_all\<close> and \<open>read_exact\<close> of the stream; \<open>None\<close> is an I/O error.\<close>

record 'net transport =
  write_all :: "bytes \<Rightarrow> 'net \<Rightarrow> 'net option"
  recv_exact :: "nat \<Rightarrow> 'net \<Rightarrow> (bytes \<times> 'net) option"

datatype ReceiverError = ReceiverIo | ReceiverProto Error | ReceiverDecode WalDecodeError

record WalReceiverConfig =
  cfg_tenant :: TenantId
  cfg_timeline :: TimelineId
  cfg_start_lsn :: Lsn
  max_chunk :: u32

definition receiver_config :: "TenantId \<Rightarrow> TimelineId \<Rightarrow> Lsn \<Rightarrow> WalReceiverConfig" where
  "receiver_config tenant timeline start =
     \<lparr>cfg_tenant = tenant, cfg_timeline = timeline, cfg_start_lsn = start, max_chunk = push_bit 20 1\<rparr>"

record WalReceiver =
  rcv_cfg :: WalReceiverConfig
  rcv_decoder :: "WalStreamDecoder option"
  cursor :: Lsn

definition receiver_connect :: "WalReceiverConfig \<Rightarrow> WalReceiver" where
  "receiver_connect cfg = \<lparr>rcv_cfg = cfg, rcv_decoder = None, cursor = cfg_start_lsn cfg\<rparr>"

definition read_round_trip ::
  "'net transport \<Rightarrow> ReadRequest \<Rightarrow> 'net \<Rightarrow> (ReceiverError, ReadResponse) result \<times> 'net" where
  "read_round_trip tr req net =
     (case write_all tr (read_request_encode req) net of
        None \<Rightarrow> (Err ReceiverIo, net)
      | Some net1 \<Rightarrow>
          (case recv_exact tr READ_RESPONSE_HEADER_LEN net1 of
             None \<Rightarrow> (Err ReceiverIo, net1)
           | Some (hdr, net2) \<Rightarrow>
               (case read_payload_len hdr of
                  Err e \<Rightarrow> (Err (ReceiverProto e), net2)
                | Panic \<Rightarrow> (Panic, net2)
                | Ok plen \<Rightarrow>
                    (case recv_exact tr plen net2 of
                       None \<Rightarrow> (Err ReceiverIo, net2)
                     | Some (payload, net3) \<Rightarrow>
                         (map_err ReceiverProto (read_response_decode (hdr @ payload)), net3)))))"

function receive_loop ::
  "codecs \<Rightarrow> WalStreamDecoder \<Rightarrow> nat \<Rightarrow> Inner \<Rightarrow> (WalDecodeError, nat) result \<times> WalStreamDecoder \<times> Inner" where
  "receive_loop cs decoder ingested repo =
     (case poll_decode decoder of
        (Ok (Some (lsn, r)), decoder') \<Rightarrow>
          (case ingest_record cs lsn r repo of
             Ok repo' \<Rightarrow> receive_loop cs decoder' (ingested + 1) repo'
           | Err e \<Rightarrow> (Err e, decoder', repo)
           | Panic \<Rightarrow> (Panic, decoder', repo))
      | (Ok None, decoder') \<Rightarrow> (Ok ingested, decoder', repo)
      | (Err e, decoder') \<Rightarrow> (Err e, decoder', repo)
      | (Panic, decoder') \<Rightarrow> (Panic, decoder', repo))"
  by pat_completeness auto
termination
  by (relation "measure (\<lambda>(_, d, _, _). length (sd_buf d))") (auto intro: poll_decode_shortens [OF sym])

declare receive_loop.simps [simp del]

definition poll_once ::
  "codecs \<Rightarrow> 'net transport \<Rightarrow> WalReceiver \<Rightarrow> Inner \<Rightarrow> 'net \<Rightarrow>
   (ReceiverError, nat) result \<times> WalReceiver \<times> Inner \<times> 'net" where
  "poll_once cs tr rcv repo net =
     (let req = \<lparr>rr_tenant = cfg_tenant (rcv_cfg rcv), rr_timeline = cfg_timeline (rcv_cfg rcv),
                 rr_start_lsn = cursor rcv, rr_max_bytes = max_chunk (rcv_cfg rcv)\<rparr> in
      case read_round_trip tr req net of
        (Err e, net') \<Rightarrow> (Err e, rcv, repo, net')
      | (Panic, net') \<Rightarrow> (Panic, rcv, repo, net')
      | (Ok resp, net') \<Rightarrow>
          (if rs_payload resp = [] then (Ok 0, rcv, repo, net')
           else
             let decoder = (case rcv_decoder rcv of
                              Some d \<Rightarrow> if rs_start_lsn resp \<noteq> cursor rcv then decoder_new (rs_start_lsn resp) else d
                            | None \<Rightarrow> decoder_new (rs_start_lsn resp));
                 (r, decoder', repo') = receive_loop cs (feed_bytes (rs_payload resp) decoder) 0 repo
             in (map_err ReceiverDecode r,
                 rcv\<lparr>rcv_decoder := Some decoder', cursor := rs_start_lsn resp + of_nat (length (rs_payload resp))\<rparr>,
                 repo', net')))"

text \<open>\<open>run\<close> for a given number of rounds: it adds up the ingested records and stops at an error.\<close>

fun poll_rounds ::
  "nat \<Rightarrow> codecs \<Rightarrow> 'net transport \<Rightarrow> WalReceiver \<Rightarrow> Inner \<Rightarrow> 'net \<Rightarrow>
   (ReceiverError, nat) result \<times> WalReceiver \<times> Inner \<times> 'net" where
  "poll_rounds 0 cs tr rcv repo net = (Ok 0, rcv, repo, net)"
| "poll_rounds (Suc k) cs tr rcv repo net =
     (case poll_once cs tr rcv repo net of
        (Ok n, rcv', repo', net') \<Rightarrow>
          (case poll_rounds k cs tr rcv' repo' net' of
             (Ok m, rest) \<Rightarrow> (Ok (n + m), rest)
           | (Err e, rest) \<Rightarrow> (Err e, rest)
           | (Panic, rest) \<Rightarrow> (Panic, rest))
      | (Err e, rest) \<Rightarrow> (Err e, rest)
      | (Panic, rest) \<Rightarrow> (Panic, rest))"

section \<open>Ingestion chunk by chunk\<close>

lemma receive_loop_poll_all:
  assumes "poll_all d = (xs, Ok (), d')" "ingest_records cs xs n repo = (Ok n', repo')"
  shows "receive_loop cs d n repo = (Ok n', d', repo')"
  using assms
proof (induction d arbitrary: xs n repo rule: poll_all.induct)
  case (1 d)
  obtain m d1 where p: "poll_decode d = (m, d1)" by (cases "poll_decode d")
  show ?case
  proof (cases m)
    case (Ok opt)
    show ?thesis
    proof (cases opt)
      case None
      then show ?thesis using "1.prems" p Ok by (simp add: poll_all.simps [of d] receive_loop.simps [of cs d])
    next
      case (Some x)
      obtain ys where ys: "poll_all d1 = (ys, Ok (), d')" "xs = x # ys"
        using "1.prems" p Ok Some by (auto simp: poll_all.simps [of d] split: prod.splits)
      obtain lsn r where x: "x = (lsn, r)" by (cases x)
      obtain repo1 where r1: "ingest_record cs lsn r repo = Ok repo1" "ingest_records cs ys (n + 1) repo1 = (Ok n', repo')"
        using "1.prems"(2) ys(2) x by (auto split: result.splits)
      have "receive_loop cs d1 (n + 1) repo1 = (Ok n', d', repo')"
        using "1.IH" [of "Ok (Some x)" d1 "Some x" x, OF _ _ _ ys(1) r1(2)] p Ok Some by simp
      then show ?thesis using p Ok Some x r1(1) by (simp add: receive_loop.simps [of cs d])
    qed
  qed (use "1.prems" p in \<open>simp_all add: poll_all.simps [of d]\<close>)
qed

lemma ingest_records_append:
  "ingest_records cs (xs @ ys) n repo =
     (case ingest_records cs xs n repo of (Ok n', repo') \<Rightarrow> ingest_records cs ys n' repo' | other \<Rightarrow> other)"
  by (induction cs xs n repo rule: ingest_records.induct) (auto split: result.splits)

lemma ingest_records_count:
  "ingest_records cs xs n repo = (Ok n', repo') \<Longrightarrow> n' = n + length xs \<and>
   ingest_records cs xs k repo = (Ok (k + length xs), repo')"
  by (induction cs xs n repo arbitrary: k rule: ingest_records.induct) (auto split: result.splits)

text \<open>A receiver that has fed the prefix \<open>p\<close> of the log starting at \<open>start\<close>.\<close>

definition received :: "codecs \<Rightarrow> Lsn \<Rightarrow> Inner \<Rightarrow> bytes \<Rightarrow> WalReceiver \<Rightarrow> Inner \<Rightarrow> nat \<Rightarrow> bool" where
  "received cs start repo0 p rcv repo m \<longleftrightarrow>
     cursor rcv = start + of_nat (length p) \<and>
     (\<exists>xs d. poll_all (feed_bytes p (decoder_new start)) = (xs, Ok (), d) \<and>
        ingest_records cs xs 0 repo0 = (Ok m, repo) \<and>
        (rcv_decoder rcv = Some d \<or> rcv_decoder rcv = None \<and> p = []))"

lemma feed_Nil [simp]: "feed_bytes [] d = d"
  by (simp add: feed_bytes_def)

lemma poll_all_new: "poll_all (feed_bytes [] (decoder_new start)) = ([], Ok (), decoder_new start)"
proof -
  have "poll_decode (decoder_new start) = (Ok None, decoder_new start)"
    by (rule poll_decode_empty) (simp_all add: decoder_new_def DEFAULT_WAL_SEG_SIZE_def)
  then show ?thesis by (simp add: poll_all.simps)
qed

lemma received_connect: "received cs (cfg_start_lsn cfg) repo [] (receiver_connect cfg) repo 0"
  using poll_all_new [of "cfg_start_lsn cfg"] by (auto simp: received_def receiver_connect_def)

lemma ingest_wal_OkD:
  assumes "ingest_wal cs start w repo = (Ok n, repo')"
  shows "\<exists>zs d. poll_all (feed_bytes w (decoder_new start)) = (zs, Ok (), d) \<and> ingest_records cs zs 0 repo = (Ok n, repo')"
proof -
  have bad: "fst (ingest_wal_loop cs d k rp) \<noteq> Ok n" if "poll_all d = (zs, r, d')" "r \<noteq> Ok ()" for d zs r d' k rp
    using that
  proof (induction d arbitrary: zs k rp rule: poll_all.induct)
    case (1 d)
    obtain m d1 where p: "poll_decode d = (m, d1)" by (cases "poll_decode d")
    show ?case
    proof (cases m)
      case (Ok opt)
      with 1(2,3) p obtain x where x: "opt = Some x" by (cases opt) (auto simp: poll_all.simps [of d])
      obtain ys where ys: "poll_all d1 = (ys, r, d')" using "1.prems" p Ok x by (auto simp: poll_all.simps [of d] split: prod.splits)
      have "fst (ingest_wal_loop cs d1 k' rp') \<noteq> Ok n" for k' rp'
        using "1.IH" [of "Ok (Some x)" d1 "Some x" x, OF _ _ _ ys 1(3)] p Ok x by simp
      then show ?thesis using p Ok x by (cases x) (simp add: ingest_wal_loop.simps [of cs d] split: result.splits)
    qed (use p in \<open>simp_all add: ingest_wal_loop.simps [of cs d]\<close>)
  qed
  obtain zs r d where z: "poll_all (feed_bytes w (decoder_new start)) = (zs, r, d)"
    by (cases "poll_all (feed_bytes w (decoder_new start))")
  have "r = Ok ()" using bad [OF z, of 0 repo] assms by (auto simp: ingest_wal_def)
  with z have "poll_all (feed_bytes w (decoder_new start)) = (zs, Ok (), d)" by simp
  with ingest_wal_loop_poll_all [OF this] assms show ?thesis by (auto simp: ingest_wal_def)
qed

lemma receive_chunk:
  assumes rc: "received cs start repo0 p rcv repo m"
    and total: "ingest_wal cs start (p @ c @ q) repo0 = (Ok n, repo')"
    and resp: "read_round_trip tr \<lparr>rr_tenant = cfg_tenant (rcv_cfg rcv), rr_timeline = cfg_timeline (rcv_cfg rcv),
        rr_start_lsn = cursor rcv, rr_max_bytes = max_chunk (rcv_cfg rcv)\<rparr> net = (Ok resp, net')"
      "rs_start_lsn resp = cursor rcv" "rs_payload resp = c" "c \<noteq> []"
  shows "\<exists>k rcv' repo1. poll_once cs tr rcv repo net = (Ok k, rcv', repo1, net') \<and>
    received cs start repo0 (p @ c) rcv' repo1 (m + k) \<and> rcv_cfg rcv' = rcv_cfg rcv"
proof -
  obtain xs d where x: "cursor rcv = start + of_nat (length p)"
    "poll_all (feed_bytes p (decoder_new start)) = (xs, Ok (), d)" "ingest_records cs xs 0 repo0 = (Ok m, repo)"
    "rcv_decoder rcv = Some d \<or> rcv_decoder rcv = None \<and> p = []"
    using rc by (auto simp: received_def)
  obtain zs e where z: "poll_all (feed_bytes (p @ c @ q) (decoder_new start)) = (zs, Ok (), e)"
    "ingest_records cs zs 0 repo0 = (Ok n, repo')" using ingest_wal_OkD [OF total] by blast
  obtain xs2 r2 d2 where y: "poll_all (feed_bytes (p @ c) (decoder_new start)) = (xs2, r2, d2)"
    by (cases "poll_all (feed_bytes (p @ c) (decoder_new start))")
  have r2: "r2 = Ok ()" using poll_all_feed_Err [OF y, of q] z(1) by (cases r2) auto
  have "\<exists>vs. zs = xs2 @ vs"
    using poll_all_feed_Ok [OF y [unfolded r2], of q] z(1) by (auto split: prod.splits)
  then have "\<exists>k1 rp. ingest_records cs xs2 0 repo0 = (Ok k1, rp)"
    using z(2) by (auto simp: ingest_records_append split: prod.splits result.splits)
  then obtain k1 repo1 where k1: "ingest_records cs xs2 0 repo0 = (Ok k1, repo1)" by blast
  obtain ys where ys: "poll_all (feed_bytes c d) = (ys, Ok (), d2)" "xs2 = xs @ ys"
    using poll_all_feed_Ok [OF x(2), of c] y r2 by (auto split: prod.splits)
  have m: "ingest_records cs ys m repo = (Ok k1, repo1)" using k1 ys(2) x(3) by (simp add: ingest_records_append)
  note cnt = ingest_records_count [OF m, of 0]
  have loop: "receive_loop cs (feed_bytes c d) 0 repo = (Ok (length ys), d2, repo1)"
    using receive_loop_poll_all [OF ys(1)] cnt by simp
  have "decoder_new start = d" if "p = []" using that x(2) poll_all_new [of start] by simp
  then have dec: "(case rcv_decoder rcv of
      Some d' \<Rightarrow> if rs_start_lsn resp \<noteq> cursor rcv then decoder_new (rs_start_lsn resp) else d'
    | None \<Rightarrow> decoder_new (rs_start_lsn resp)) = d"
    using x(1,4) resp(2) by auto
  let ?rcv = "rcv\<lparr>rcv_decoder := Some d2, cursor := cursor rcv + of_nat (length c)\<rparr>"
  have "poll_once cs tr rcv repo net = (Ok (length ys), ?rcv, repo1, net')"
    using resp dec loop by (simp add: poll_once_def Let_def)
  moreover have "received cs start repo0 (p @ c) ?rcv repo1 (m + length ys)"
    using x(1) y r2 k1 cnt by (auto simp: received_def)
  moreover have "rcv_cfg ?rcv = rcv_cfg rcv" by simp
  ultimately show ?thesis by blast
qed

section \<open>Against a safekeeper\<close>

text \<open>
  The connection to a safekeeper that answers with its own handler; bytes it has written and the
  receiver has not read yet wait in between.
\<close>

definition safekeeper_transport :: "'n replicator \<Rightarrow> (Safekeeper \<times> 'n \<times> bytes) transport" where
  "safekeeper_transport repl =
     \<lparr>write_all = (\<lambda>bs (sk, n, inbox).
        case serve_connection repl bs sk n of
          (sk', n', out, Ok _) \<Rightarrow> Some (sk', n', inbox @ out)
        | _ \<Rightarrow> None),
      recv_exact = (\<lambda>k (sk, n, inbox).
        if length inbox < k then None else Some (take k inbox, (sk, n, drop k inbox)))\<rparr>"

lemma read_round_trip_safekeeper:
  assumes "handle_read req sk = Ok resp" "read_response_wf resp"
  shows "read_round_trip (safekeeper_transport repl) req (sk, n, []) = (Ok resp, (sk, n, []))"
proof -
  have "serve_connection repl (read_request_encode req) sk n = (sk, n, read_response_encode resp, Ok ())"
    using serve_connection_refines [of "[ReadReq req]" repl sk n] assms(1) by simp
  moreover have "READ_RESPONSE_HEADER_LEN \<le> length (read_response_encode resp)"
    "length (read_response_encode resp) - READ_RESPONSE_HEADER_LEN = length (rs_payload resp)"
    by (simp_all add: read_response_encode_def wal_lens)
  moreover have "read_response_decode (read_response_encode resp) = Ok resp"
    using read_response_decode_encode [OF assms(2), of "[]"] by simp
  ultimately show ?thesis
    using read_payload_len_encode(1) [OF assms(2)]
    by (simp add: read_round_trip_def safekeeper_transport_def)
qed

definition committed_wal :: "Safekeeper \<Rightarrow> Lsn \<Rightarrow> bytes" where
  "committed_wal sk start =
     take (unat (commit_lsn (consensus sk)) - unat start)
       (drop (unat start - unat (start_lsn (storage sk))) (log_bytes (storage sk)))"

lemma poll_rounds_catch_up:
  assumes inv: "sk_inv sk" and lag: "commit_lsn (consensus sk) \<le> write_lsn (storage sk)"
    and start: "start_lsn (storage sk) \<le> start" "start \<le> commit_lsn (consensus sk)"
    and total: "ingest_wal cs start (committed_wal sk start) repo0 = (Ok n, repo')"
    and rc: "received cs start repo0 p rcv repo m" and w: "committed_wal sk start = p @ q"
    and mc: "0 < unat (max_chunk (rcv_cfg rcv))" "length q \<le> k * unat (max_chunk (rcv_cfg rcv))"
  shows "\<exists>j rcv'. poll_rounds k cs (safekeeper_transport repl) rcv repo (sk, net, []) = (Ok j, rcv', repo', (sk, net, [])) \<and>
    m + j = n \<and> cursor rcv' = commit_lsn (consensus sk)"
  using rc w mc
proof (induction k arbitrary: p q rcv repo m)
  let ?cl = "commit_lsn (consensus sk)" and ?s0 = "start_lsn (storage sk)"
  have sinv: "storage_inv (storage sk)" using inv by (simp add: sk_inv_def)
  have le: "unat ?s0 \<le> unat start" "unat start \<le> unat ?cl" "unat ?cl \<le> unat (write_lsn (storage sk))"
    using start lag by (simp_all add: word_le_nat_alt)
  have lenw: "length (committed_wal sk start) = unat ?cl - unat start"
    using length_log_bytes [OF sinv] le by (simp add: committed_wal_def)
  {
    case 0
    then have "q = []" by simp
    then obtain xs d where x: "poll_all (feed_bytes (committed_wal sk start) (decoder_new start)) = (xs, Ok (), d)"
      "ingest_records cs xs 0 repo0 = (Ok m, repo)" and cur: "cursor rcv = start + of_nat (length p)"
      using 0(1,2) by (auto simp: received_def)
    have "m = n" "repo = repo'" using ingest_wal_OkD [OF total] x by auto
    moreover have "unat (start + of_nat (length p)) = unat start + length p"
      using lenw 0(2) \<open>q = []\<close> le unat_bounds(4) [of ?cl] by (simp add: unat_word_ariths unat_of_nat)
    then have "cursor rcv = ?cl" using cur lenw 0(2) \<open>q = []\<close> le by (simp add: word_unat_eq_iff)
    ultimately show ?case by simp
  }
  {
    case (Suc k)
    let ?mc = "unat (max_chunk (rcv_cfg rcv))"
    have cur: "cursor rcv = start + of_nat (length p)" using Suc.prems(1) by (simp add: received_def)
    have pq: "length p + length q = unat ?cl - unat start" using lenw Suc.prems(2) by simp
    then have ucur: "unat (cursor rcv) = unat start + length p"
      using cur le unat_bounds(4) [of ?cl] by (simp add: unat_word_ariths unat_of_nat)
    then have "?s0 \<le> cursor rcv" using le(1) by (simp add: word_le_nat_alt)
    then have mx: "max (cursor rcv) ?s0 = cursor rcv" by (rule max_absorb1)
    let ?req = "\<lparr>rr_tenant = cfg_tenant (rcv_cfg rcv), rr_timeline = cfg_timeline (rcv_cfg rcv),
        rr_start_lsn = cursor rcv, rr_max_bytes = max_chunk (rcv_cfg rcv)\<rparr>"
    let ?resp = "\<lparr>rs_status = STATUS_OK, rs_commit_lsn = ?cl, rs_start_lsn = cursor rcv, rs_payload = take ?mc q\<rparr>"
    have "take (unat ?cl - unat (cursor rcv)) (drop (unat (cursor rcv) - unat ?s0) (log_bytes (storage sk))) = q"
    proof -
      have "q = drop (length p) (committed_wal sk start)" using Suc.prems(2) by simp
      then show ?thesis using ucur le by (simp add: committed_wal_def drop_take add.commute)
    qed
    then have "take (min (unat ?cl - unat (cursor rcv)) ?mc) (drop (unat (cursor rcv) - unat ?s0) (log_bytes (storage sk))) = take ?mc q"
      using take_take [of ?mc "unat ?cl - unat (cursor rcv)" "drop (unat (cursor rcv) - unat ?s0) (log_bytes (storage sk))"]
      by (simp only: min.commute)
    then have "handle_read ?req sk = Ok ?resp" using handle_read_committed [OF inv lag, of ?req] mx by simp
    moreover have "read_response_wf ?resp"
      using unat_bounds(3) [of "max_chunk (rcv_cfg rcv)"] by (simp add: read_response_wf_def)
    ultimately have trip: "read_round_trip (safekeeper_transport repl) ?req (sk, net, []) = (Ok ?resp, (sk, net, []))"
      by (rule read_round_trip_safekeeper)
    show ?case
    proof (cases "q = []")
      case True
      have "poll_once cs (safekeeper_transport repl) rcv repo (sk, net, []) = (Ok 0, rcv, repo, (sk, net, []))"
        using trip True by (simp add: poll_once_def)
      moreover obtain j rcv' where "poll_rounds k cs (safekeeper_transport repl) rcv repo (sk, net, []) = (Ok j, rcv', repo', (sk, net, []))"
        "m + j = n" "cursor rcv' = ?cl"
        using Suc.IH [OF Suc.prems(1,2,3)] True by auto
      ultimately show ?thesis by simp
    next
      case False
      have c: "take ?mc q \<noteq> []" using False Suc.prems(3) by simp
      have whole: "ingest_wal cs start (p @ take ?mc q @ drop ?mc q) repo0 = (Ok n, repo')"
        using total Suc.prems(2) by simp
      obtain i rcv1 repo1 where one: "poll_once cs (safekeeper_transport repl) rcv repo (sk, net, []) = (Ok i, rcv1, repo1, (sk, net, []))"
        "received cs start repo0 (p @ take ?mc q) rcv1 repo1 (m + i)" "rcv_cfg rcv1 = rcv_cfg rcv"
        using receive_chunk [OF Suc.prems(1) whole trip _ _ c] by auto
      have "length (drop ?mc q) \<le> k * ?mc" using Suc.prems(4) by simp
      then obtain j rcv' where "poll_rounds k cs (safekeeper_transport repl) rcv1 repo1 (sk, net, []) = (Ok j, rcv', repo', (sk, net, []))"
        "m + i + j = n" "cursor rcv' = ?cl"
        using Suc.IH [OF one(2), of "drop ?mc q"] Suc.prems(2,3) one(3) by auto
      then show ?thesis using one(1) by simp
    qed
  }
qed

section \<open>Main results\<close>

text \<open>
  C9. The receiver catches up: against a safekeeper whose commit position stands still, enough rounds to
  cover the committed WAL in chunks of the configured size bring its cursor to the commit position without
  an error, whatever records straddle the chunks, and leave the page store exactly as a one-shot ingestion
  of the committed WAL would, with the same number of ingested records.
\<close>

theorem wal_receiver_catches_up:
  assumes "sk_inv sk" "commit_lsn (consensus sk) \<le> write_lsn (storage sk)"
    "start_lsn (storage sk) \<le> cfg_start_lsn cfg" "cfg_start_lsn cfg \<le> commit_lsn (consensus sk)"
    "ingest_wal cs (cfg_start_lsn cfg) (committed_wal sk (cfg_start_lsn cfg)) repo = (Ok n, repo')"
    "0 < unat (max_chunk cfg)" "unat (commit_lsn (consensus sk)) - unat (cfg_start_lsn cfg) \<le> k * unat (max_chunk cfg)"
  shows "\<exists>rcv'. poll_rounds k cs (safekeeper_transport repl) (receiver_connect cfg) repo (sk, net, []) =
    (Ok n, rcv', repo', (sk, net, [])) \<and> cursor rcv' = commit_lsn (consensus sk)"
proof -
  have "length (committed_wal sk (cfg_start_lsn cfg)) \<le> unat (commit_lsn (consensus sk)) - unat (cfg_start_lsn cfg)"
    by (simp add: committed_wal_def)
  then show ?thesis
    using poll_rounds_catch_up [OF assms(1-5) received_connect, of "committed_wal sk (cfg_start_lsn cfg)" k repl net] assms(6,7)
    by (auto simp: receiver_connect_def)
qed

definition sample_wal :: bytes where
  "sample_wal = write_stream page_header 10 [RecordItem (make_record 10 0 1 [255, 0])]"

definition wal_sk :: Safekeeper where
  "wal_sk = \<lparr>storage = fst (storage_append 10 sample_wal sample_store),
             consensus = record_flush 2 42 (record_flush 1 10 (record_flush 3 42 (member_init [1, 2, 3] 1)))\<rparr>"

lemma sample_wal: "length sample_wal = 32"
  "ingest_wal cs 10 sample_wal repo = (Ok 1, repo)"
proof -
  let ?R = "\<lparr>dec_lsn = 16, rmid = 10, info = 0, xid = 1, main_data = [], dec_blocks = []\<rparr>"
  let ?r = "make_record 10 0 1 [255, 0]"
  have r: "write_record ?R = ?r" by (simp add: write_record_def write_main_len_def XLR_BLOCK_ID_DATA_SHORT_def)
  have len: "length ?r = 26" by (simp add: make_record_def)
  have at: "(16 :: u64) mod 8192 \<noteq> 0" "unat ((16 :: u64) mod 8192) = 16" by simp_all
  have lay: "lay_out page_header 16 ?r = ?r"
    using lay_out_plain [OF at(1), of 26 ?r page_header] at(2) len by simp
  have pad: "align_pad 10 = 6" by (simp add: align_pad_def)
  show "length sample_wal = 32" using len lay pad by (simp add: sample_wal_def Let_def)
  have "decode_wal_record 16 ?r = Ok ?R"
    using decode_write_record [of ?R 16] r len by (simp add: record_wf_def)
  then have "ingest_record cs 16 ?r repo = Ok repo"
    by (simp add: ingest_record_def modifications_from_record_def)
  moreover have "list_all item_ok [RecordItem ?r]"
    by (simp add: make_record_def SIZE_OF_XLOG_RECORD_def)
  moreover have "stream_records DEFAULT_WAL_SEG_SIZE page_header 10 [RecordItem ?r] = [(16, ?r)]"
    using at(1) by (simp add: pad payload_start_def Let_def)
  ultimately show "ingest_wal cs 10 sample_wal repo = (Ok 1, repo)"
    using ingest_wal_written [OF page_header_ok, of "[RecordItem ?r]" cs 10 repo] by (simp add: sample_wal_def)
qed

lemma wal_sk: "sk_inv wal_sk" "commit_lsn (consensus wal_sk) = 42" "write_lsn (storage wal_sk) = 42"
  "start_lsn (storage wal_sk) = 10" "committed_wal wal_sk 10 = sample_wal"
proof -
  obtain st' where st': "storage_append 10 sample_wal sample_store = (st', Ok ())" "storage_inv st'"
    "log_bytes st' = sample_wal" "start_lsn st' = 10" "flush_lsn st' = 10" "unat (write_lsn st') = 42"
    using storage_append_ok [OF sample_store_inv(1), of 10 sample_wal] sample_store_inv(3)
      seed_simps(2) [OF sample_store_inv(2)] sample_wal(1)
    by (auto simp: sample_store_def)
  have sk: "storage wal_sk = st'" using st'(1) by (simp add: wal_sk_def)
  have c: "consensus_wf (consensus wal_sk)" "flush_of (consensus wal_sk) 1 = 10" "node_id (consensus wal_sk) = 1"
    by (simp_all add: wal_sk_def consensus_wf_def flush_of_record_flush)
       (simp_all add: member_init_def flush_of_def)
  show "sk_inv wal_sk" using st' c sk by (simp add: sk_inv_def)
  have "map (flush_of (consensus wal_sk)) [1, 2, 3] = [10, 42, 42]"
    by (simp add: wal_sk_def record_flush_def member_init_def flush_of_def)
  moreover have "members (consensus wal_sk) = [1, 2, 3]" "quorum (consensus wal_sk) = 2"
    by (simp_all add: wal_sk_def member_init_def)
  ultimately show cl: "commit_lsn (consensus wal_sk) = 42" unfolding commit_lsn_def by simp
  show "write_lsn (storage wal_sk) = 42" using st'(6) sk by (simp add: word_unat_eq_iff)
  show "start_lsn (storage wal_sk) = 10" using st' sk by simp
  show "committed_wal wal_sk 10 = sample_wal"
    using st'(3,4) sk cl sample_wal(1) by (simp add: committed_wal_def)
qed

theorem wal_receiver_catches_up_witness:
  "\<exists>rcv'. poll_rounds 7 \<lparr>lz4_decompress = \<lambda>_ _. None, zstd_decompress = \<lambda>_ _. None\<rparr>
      (safekeeper_transport (\<lambda>_ _ _ net. (net, [])))
      (receiver_connect \<lparr>cfg_tenant = 0, cfg_timeline = 0, cfg_start_lsn = 10, max_chunk = 5\<rparr>)
      (repository_new 8) (wal_sk, (), []) = (Ok 1, rcv', repository_new 8, (wal_sk, (), [])) \<and> cursor rcv' = 42"
  using wal_receiver_catches_up [where sk = wal_sk and cfg = "\<lparr>cfg_tenant = 0, cfg_timeline = 0, cfg_start_lsn = 10, max_chunk = 5\<rparr>"
      and k = 7 and n = 1 and repo = "repository_new 8" and repo' = "repository_new 8"
      and repl = "\<lambda>_ _ _ net. (net, [])" and net = "()"
      and cs = "\<lparr>lz4_decompress = \<lambda>_ _. None, zstd_decompress = \<lambda>_ _. None\<rparr>"] wal_sk sample_wal(2)
  by simp

end
