(* ===== verification/Page_Control.thy ===== *)
theory Page_Control
  imports Rust_Text Offload Catalog Wal_Receiver
begin

text \<open>
  The line-oriented control endpoint of the page server (\<open>pageserver/src/control.rs\<close>).  A connection is
  the list of lines the client sends; every line is answered by one line.  Parameters are the object
  store's \<open>put\<close> and \<open>delete\<close>, the JSON form of the catalog, the syntax of socket addresses and the attempt
  to connect to a safekeeper.  A WAL receiver that was started is recorded with its tenant; what it then
  does is the subject of \<open>Wal_Receiver\<close>.  A connection keeps a reference to its current tenant; the model
  looks the tenant up by its id, which is the same as long as no other connection removes it meanwhile.
\<close>

section \<open>State and environment\<close>

record 's control_env =
  ce_put :: "string \<Rightarrow> bytes \<Rightarrow> 's \<Rightarrow> (StoreError, unit) result \<times> 's"
  ce_delete :: "(string \<Rightarrow> 's \<Rightarrow> (StoreError, unit) result \<times> 's) option"
  ce_json :: "Catalog \<Rightarrow> bytes"
  ce_addr :: "string \<Rightarrow> string option"
  ce_connect :: "string \<Rightarrow> string option"

record 's control_state =
  cs_manager :: TenantManager
  cs_store :: 's
  cs_receivers :: "(TenantId \<times> WalReceiver) list"

record control_conn =
  cc_tenant :: TenantId
  cc_authed :: bool

definition current_tenant :: "TenantId \<Rightarrow> 's control_state \<Rightarrow> Tenant" where
  "current_tenant i st = snd (manager_get_or_create i (cs_manager st))"

definition set_tenant :: "TenantId \<Rightarrow> Tenant \<Rightarrow> 's control_state \<Rightarrow> 's control_state" where
  "set_tenant i ten st = st\<lparr>cs_manager := manager_update i (\<lambda>_. ten) (cs_manager st)\<rparr>"

definition nth_opt :: "'a list \<Rightarrow> nat \<Rightarrow> 'a option" where
  "nth_opt xs n = (if n < length xs then Some (xs ! n) else None)"

text \<open>\<open>parse().ok()\<close> of an identifier: a malformed one is absent, but slicing inside a character panics.\<close>

definition opt_id :: "string \<Rightarrow> string option \<Rightarrow> (string, 128 word option) result" where
  "opt_id nm w =
     (case w of
        None \<Rightarrow> Ok None
      | Some s \<Rightarrow> (case id_from_str nm s of Ok i \<Rightarrow> Ok (Some i) | Err _ \<Rightarrow> Ok None | Panic \<Rightarrow> Panic))"

definition opt_u64 :: "string option \<Rightarrow> u64 option" where
  "opt_u64 w = Option.bind w parse_u64"

fun tenant_error_display :: "TenantError \<Rightarrow> string" where
  "tenant_error_display (AlreadyExists i) = ''timeline '' @ id_display i @ '' already exists''"
| "tenant_error_display (NoSuchParent i) = ''parent timeline '' @ id_display i @ '' does not exist''"

section \<open>Commands\<close>

type_synonym 's reply = "(string, string) result \<times> 's control_state"

definition list_ids :: "128 word list \<Rightarrow> string" where
  "list_ids ids = ''ok '' @ join '' '' (sort (map id_display ids))"

definition create_command :: "TenantId \<Rightarrow> string list \<Rightarrow> 's control_state \<Rightarrow> 's reply" where
  "create_command i args st =
     (case opt_id ''TimelineId'' (nth_opt args 0) of
        Ok (Some new) \<Rightarrow>
          (case create_timeline new (current_tenant i st) of
             Ok ten \<Rightarrow> (Ok (''ok created '' @ id_display new), set_tenant i ten st)
           | Err e \<Rightarrow> (Ok (''err '' @ tenant_error_display e), st)
           | Panic \<Rightarrow> (Panic, st))
      | Ok None \<Rightarrow> (Ok ''err usage: create <timeline-hex>'', st)
      | Err e \<Rightarrow> (Err e, st)
      | Panic \<Rightarrow> (Panic, st))"

definition branch_command :: "TenantId \<Rightarrow> string list \<Rightarrow> 's control_state \<Rightarrow> 's reply" where
  "branch_command i args st =
     (case rbind (opt_id ''TimelineId'' (nth_opt args 0)) (\<lambda>new.
           rbind (opt_id ''TimelineId'' (nth_opt args 1)) (\<lambda>parent. Ok (new, parent, opt_u64 (nth_opt args 2)))) of
        Ok (Some n, Some p, Some l) \<Rightarrow>
          (case branch_timeline n p l (current_tenant i st) of
             Ok ten \<Rightarrow> (Ok (''ok branched '' @ id_display n @ '' from '' @ id_display p @ '' @ '' @ to_dec (unat l)), set_tenant i ten st)
           | Err e \<Rightarrow> (Ok (''err '' @ tenant_error_display e), st)
           | Panic \<Rightarrow> (Panic, st))
      | Ok _ \<Rightarrow> (Ok ''err usage: branch <new-hex> <parent-hex> <lsn>'', st)
      | Err e \<Rightarrow> (Err e, st)
      | Panic \<Rightarrow> (Panic, st))"

text \<open>The \<open>gc\<close> arm of \<open>exec\<close> is not reached from a connection, which handles that command itself.\<close>

definition exec_gc :: "TenantId \<Rightarrow> string list \<Rightarrow> 's control_state \<Rightarrow> 's reply" where
  "exec_gc i args st =
     (case opt_u64 (nth_opt args 0) of
        Some horizon \<Rightarrow>
          (let (ten, stats) = gc horizon (current_tenant i st) in
           (Ok (''ok gc @ '' @ to_dec (unat horizon) @ '': '' @ to_dec (length stats) @ '' timelines, ''
              @ to_dec (sum_list (map (\<lambda>(_, s). versions_removed s) stats)) @ '' versions removed''), set_tenant i ten st))
      | None \<Rightarrow> (Ok ''err usage: gc <horizon-lsn>'', st))"

definition exec :: "TenantId \<Rightarrow> string \<Rightarrow> 's control_state \<Rightarrow> 's reply" where
  "exec i line st =
     (case split_whitespace line of
        [] \<Rightarrow> (Ok ''err empty command'', st)
      | cmd # args \<Rightarrow>
          if cmd = ''create'' then create_command i args st
          else if cmd = ''branch'' then branch_command i args st
          else if cmd = ''list'' then (Ok (list_ids (timeline_ids (current_tenant i st))), st)
          else if cmd = ''gc'' then exec_gc i args st
          else (Ok (''err unknown command '' @ quoted cmd), st))"

fun delete_layers ::
  "(string \<Rightarrow> 's \<Rightarrow> (StoreError, unit) result \<times> 's) \<Rightarrow> LayerId list \<Rightarrow> 's \<Rightarrow> nat \<times> 's" where
  "delete_layers del [] s = (0, s)"
| "delete_layers del (i # ids) s =
     (let (r, s1) = del (layer_key i) s; (n, s2) = delete_layers del ids s1
      in (if r = Ok () then Suc n else n, s2))"

definition gc_command :: "'s control_env \<Rightarrow> TenantId \<Rightarrow> string \<Rightarrow> 's control_state \<Rightarrow> 's reply" where
  "gc_command env i line st =
     (case opt_u64 (nth_word 1 line) of
        None \<Rightarrow> (Ok ''err usage: gc <horizon-lsn>'', st)
      | Some horizon \<Rightarrow>
          (let (ten, stats) = gc horizon (current_tenant i st);
               versions = sum_list (map (\<lambda>(_, s). versions_removed s) stats);
               (deleted, s) = (case ce_delete env of
                  None \<Rightarrow> (0, cs_store st)
                | Some del \<Rightarrow> delete_layers del (concat (map (\<lambda>(_, s). removed_layer_ids s) stats)) (cs_store st))
           in (Ok (''ok gc @ '' @ to_dec (unat horizon) @ '': '' @ to_dec (length stats) @ '' timelines, ''
                 @ to_dec versions @ '' versions removed, '' @ to_dec deleted @ '' objects deleted''),
               (set_tenant i ten st)\<lparr>cs_store := s\<rparr>)))"

definition receive_command :: "'s control_env \<Rightarrow> TenantId \<Rightarrow> string \<Rightarrow> 's control_state \<Rightarrow> 's reply" where
  "receive_command env i line st =
     (case rbind (opt_id ''TimelineId'' (nth_word 1 line)) (\<lambda>tln.
           Ok (tln, Option.bind (nth_word 2 line) (ce_addr env), opt_u64 (nth_word 3 line))) of
        Ok (Some tln, Some addr, Some l) \<Rightarrow>
          (if get_timeline (current_tenant i st) tln = None
           then (Ok (''err unknown timeline '' @ id_display tln), st)
           else
             (case ce_connect env addr of
                None \<Rightarrow>
                  (Ok (''ok receiving '' @ id_display tln @ '' from '' @ addr @ '' @ '' @ to_dec (unat l)),
                   st\<lparr>cs_receivers := (i, receiver_connect (receiver_config i tln l)) # cs_receivers st\<rparr>)
              | Some e \<Rightarrow> (Ok (''err connecting to safekeeper: '' @ e), st)))
      | Ok _ \<Rightarrow> (Ok ''err usage: receive <timeline-hex> <safekeeper-host:port> <start-lsn>'', st)
      | Err e \<Rightarrow> (Err e, st)
      | Panic \<Rightarrow> (Panic, st))"

section \<open>A connection\<close>

definition auth_line :: "string option \<Rightarrow> string \<Rightarrow> bool \<times> string" where
  "auth_line token line =
     (let p = split_whitespace line in
      if nth_opt p 0 = Some ''auth'' then
        (if nth_opt p 1 \<noteq> None \<and> nth_opt p 1 = token then (True, ''ok authenticated'') else (False, ''err invalid token''))
      else (False, ''err unauthorized: send '' @ quoted ''auth <token>'' @ '' first''))"

definition select_tenant :: "string \<Rightarrow> control_conn \<Rightarrow> 's control_state \<Rightarrow> (string, string) result \<times> control_conn \<times> 's control_state" where
  "select_tenant line c st =
     (case opt_id ''TenantId'' (nth_word 1 line) of
        Ok (Some i) \<Rightarrow>
          (Ok (''ok tenant '' @ id_display i), c\<lparr>cc_tenant := i\<rparr>,
           st\<lparr>cs_manager := fst (manager_get_or_create i (cs_manager st))\<rparr>)
      | Ok None \<Rightarrow> (Ok ''err usage: tenant <tenant-hex>'', c, st)
      | Err e \<Rightarrow> (Err e, c, st)
      | Panic \<Rightarrow> (Panic, c, st))"

definition run_command ::
  "'s control_env \<Rightarrow> string \<Rightarrow> control_conn \<Rightarrow> 's control_state \<Rightarrow> (string, string) result \<times> control_conn \<times> 's control_state" where
  "run_command env line c st =
     (let cmd = nth_word 0 line in
      if cmd = Some ''tenants'' then (Ok (list_ids (tenant_ids (cs_manager st))), c, st)
      else if cmd = Some ''tenant'' then select_tenant line c st
      else
        (let (r, st') =
           (if cmd = Some ''gc'' then gc_command env (cc_tenant c) line st
            else if cmd = Some ''receive'' then receive_command env (cc_tenant c) line st
            else exec (cc_tenant c) line st)
         in (r, c, st')))"

definition control_line ::
  "'s control_env \<Rightarrow> string option \<Rightarrow> string \<Rightarrow> control_conn \<Rightarrow> 's control_state \<Rightarrow>
   (string, string) result \<times> control_conn \<times> 's control_state" where
  "control_line env token line c st =
     (if \<not> cc_authed c then
        (let (ok, reply) = auth_line token line in (Ok reply, c\<lparr>cc_authed := ok\<rparr>, st))
      else
        (case run_command env line c st of
           (Ok reply, c', st') \<Rightarrow>
             (Ok reply, c',
              if nth_word 0 line \<in> {Some ''create'', Some ''branch'', Some ''tenant''} \<and> starts_with reply ''ok''
              then st'\<lparr>cs_store := persist (ce_put env) (ce_json env) (cs_manager st') (cs_store st')\<rparr> else st')
         | other \<Rightarrow> other))"

fun control_lines ::
  "'s control_env \<Rightarrow> string option \<Rightarrow> string list \<Rightarrow> control_conn \<Rightarrow> 's control_state \<Rightarrow>
   string list \<times> control_conn \<times> 's control_state \<times> (string, unit) result" where
  "control_lines env token [] c st = ([], c, st, Ok ())"
| "control_lines env token (l # ls) c st =
     (case control_line env token l c st of
        (Ok reply, c', st') \<Rightarrow>
          (let (replies, rest) = control_lines env token ls c' st' in (reply # replies, rest))
      | (Err e, c', st') \<Rightarrow> ([], c', st', Err e)
      | (Panic, c', st') \<Rightarrow> ([], c', st', Panic))"

definition control_conn_start :: "string option \<Rightarrow> control_conn" where
  "control_conn_start token = \<lparr>cc_tenant = ZERO, cc_authed = (token = None)\<rparr>"

definition handle_conn ::
  "'s control_env \<Rightarrow> string option \<Rightarrow> string list \<Rightarrow> 's control_state \<Rightarrow>
   string list \<times> control_conn \<times> 's control_state \<times> (string, unit) result" where
  "handle_conn env token ls st =
     control_lines env token ls (control_conn_start token)
       (st\<lparr>cs_manager := fst (manager_get_or_create ZERO (cs_manager st))\<rparr>)"

section \<open>Before authentication\<close>

lemma auth_line_refused:
  assumes "take 2 (split_whitespace l) \<noteq> [''auth'', tok]"
  shows "fst (auth_line (Some tok) l) = False \<and> prefix ''err'' (snd (auth_line (Some tok) l))"
  using assms
  by (cases "split_whitespace l"; cases "tl (split_whitespace l)") (auto simp: auth_line_def nth_opt_def Let_def)

lemma control_lines_refused:
  assumes "list_all (\<lambda>l. take 2 (split_whitespace l) \<noteq> [''auth'', tok]) ls" "\<not> cc_authed c"
  shows "\<exists>replies. control_lines env (Some tok) ls c st = (replies, c, st, Ok ()) \<and>
    length replies = length ls \<and> list_all (prefix ''err'') replies"
  using assms
proof (induction ls)
  case (Cons l ls)
  have c: "c\<lparr>cc_authed := False\<rparr> = c" using Cons.prems(2) by (cases c) simp
  have "control_line env (Some tok) l c st = (Ok (snd (auth_line (Some tok) l)), c, st)"
    using auth_line_refused [of l tok] Cons.prems c by (simp add: control_line_def case_prod_beta)
  with Cons auth_line_refused [of l tok] show ?case by auto
qed simp

section \<open>Commands keep the registry well formed\<close>

lemma current_tenant_ok: "manager_ok (cs_manager st) \<Longrightarrow> tenant_ok (current_tenant i st)"
  using manager_get_ok build_tenant_ok
  by (auto simp: current_tenant_def manager_get_or_create_def split: option.splits)

lemma set_tenant_facts:
  assumes "manager_ok (cs_manager st)" "tenant_ok ten"
  shows "manager_ok (cs_manager (set_tenant i ten st))"
    and "j \<noteq> i \<Longrightarrow> manager_get (cs_manager (set_tenant i ten st)) j = manager_get (cs_manager st) j"
  using assms by (simp_all add: set_tenant_def manager_update_ok manager_get_update)

lemma gc_ok: "tenant_ok ten \<Longrightarrow> tenant_ok (fst (gc h ten))"
proof -
  let ?ts = "tenant_timelines ten"
  assume "tenant_ok ten"
  then have ok: "timelines_ok ?ts" by (simp add: tenant_ok_def)
  have "repo_inv (repo u)" if "u \<in> set (compacted h ?ts)" for u
    using that compact_inv timelines_ok_repo [OF ok] by (auto simp: compacted_def)
  then have "timelines_ok (compacted h ?ts)"
    by (intro timelines_ok_cong [OF _ _ _ ok]) (simp_all add: compacted_def)
  then show ?thesis by (simp add: tenant_ok_def gc_timelines)
qed

text \<open>What a command may do to the registry: change the tenant of the connection, keeping it well formed.\<close>

definition changes_only :: "TenantId \<Rightarrow> 's control_state \<Rightarrow> 's control_state \<Rightarrow> bool" where
  "changes_only i st st' \<longleftrightarrow> manager_ok (cs_manager st') \<and>
     (\<forall>j. j \<noteq> i \<longrightarrow> manager_get (cs_manager st') j = manager_get (cs_manager st) j)"

lemma changes_only_refl: "manager_ok (cs_manager st) \<Longrightarrow> changes_only i st st"
  by (simp add: changes_only_def)

lemma changes_only_set: "manager_ok (cs_manager st) \<Longrightarrow> tenant_ok ten \<Longrightarrow> changes_only i st (set_tenant i ten st)"
  using set_tenant_facts [of st ten] by (simp add: changes_only_def)

lemma changes_only_fields:
  "changes_only i st (st'\<lparr>cs_store := s\<rparr>) = changes_only i st st'"
  "changes_only i st (st'\<lparr>cs_receivers := rs\<rparr>) = changes_only i st st'"
  by (simp_all add: changes_only_def)

lemmas command_defs = create_command_def branch_command_def exec_gc_def gc_command_def receive_command_def

lemma commands_change_only:
  assumes ok: "manager_ok (cs_manager st)"
  shows "changes_only i st (snd (create_command i args st))" "changes_only i st (snd (branch_command i args st))"
    "changes_only i st (snd (exec_gc i args st))" "changes_only i st (snd (gc_command env i line st))"
    "changes_only i st (snd (receive_command env i line st))"
proof -
  note ten = current_tenant_ok [OF ok, of i]
  have gc: "changes_only i st (set_tenant i (fst (gc h (current_tenant i st))) st)" for h
    using changes_only_set [OF ok gc_ok [OF ten]] .
  show "changes_only i st (snd (create_command i args st))"
    using changes_only_refl [OF ok] changes_only_set [OF ok] create_timeline_ok(1) [OF ten]
    by (auto simp: create_command_def split: result.splits option.splits)
  show "changes_only i st (snd (branch_command i args st))"
    using changes_only_refl [OF ok] changes_only_set [OF ok] branch_timeline_ok(1) [OF ten]
    by (auto simp: branch_command_def split: result.splits option.splits)
  show "changes_only i st (snd (exec_gc i args st))"
    using changes_only_refl [OF ok] gc by (auto simp: exec_gc_def Let_def case_prod_beta split: option.splits)
  show "changes_only i st (snd (gc_command env i line st))"
    using changes_only_refl [OF ok] gc
    by (auto simp: gc_command_def Let_def case_prod_beta changes_only_fields split: option.splits)
  show "changes_only i st (snd (receive_command env i line st))"
    using changes_only_refl [OF ok]
    by (auto simp: receive_command_def changes_only_fields split: result.splits option.splits)
qed

lemma exec_changes_only: "manager_ok (cs_manager st) \<Longrightarrow> changes_only i st (snd (exec i line st))"
  using commands_change_only [of st i] changes_only_refl [of st i]
  by (auto simp: exec_def split: list.splits)

text \<open>The tenants a connection selects, in order.\<close>

definition selected :: "string \<Rightarrow> TenantId list" where
  "selected line =
     (if nth_word 0 line = Some ''tenant''
      then (case opt_id ''TenantId'' (nth_word 1 line) of Ok (Some i) \<Rightarrow> [i] | _ \<Rightarrow> []) else [])"

definition selected_tenants :: "string list \<Rightarrow> TenantId list" where
  "selected_tenants ls = concat (map selected ls)"

lemma selected_tenants_simps [simp]:
  "selected_tenants [] = []" "selected_tenants (l # ls) = selected l @ selected_tenants ls"
  by (simp_all add: selected_tenants_def)

lemma run_command_changes_only:
  assumes ok: "manager_ok (cs_manager st)" and run: "run_command env line c st = (q, c', st')"
  shows "cc_authed c' = cc_authed c \<and> cc_tenant c' = last (cc_tenant c # selected line) \<and> changes_only (cc_tenant c') st st'"
proof (cases "nth_word 0 line = Some ''tenant''")
  case True
  then have "run_command env line c st = select_tenant line c st"
    by (simp add: run_command_def Let_def)
  then show ?thesis
    using run True manager_get_or_create_ok [OF ok] changes_only_refl [OF ok]
    by (auto simp: select_tenant_def selected_def changes_only_def split: result.splits option.splits)
next
  case False
  note steps = commands_change_only [OF ok, of "cc_tenant c"] exec_changes_only [OF ok, of "cc_tenant c" line]
    changes_only_refl [OF ok, of "cc_tenant c"]
  have "c' = c" "changes_only (cc_tenant c) st st'"
    using run False steps(4) [of env line] steps(5) [of env line] steps(6,7)
    by (auto simp: run_command_def Let_def case_prod_beta split: if_splits)
  with False show ?thesis by (simp add: selected_def)
qed

lemma control_line_changes_only:
  assumes ok: "manager_ok (cs_manager st)" and line: "control_line env token line c st = (r, c', st')"
  shows "changes_only (cc_tenant c') st st'"
    and "cc_tenant c' \<in> set (cc_tenant c # selected line)"
    and "cc_authed c \<Longrightarrow> cc_authed c' \<and> cc_tenant c' = last (cc_tenant c # selected line)"
proof -
  obtain q c1 st1 where run: "run_command env line c st = (q, c1, st1)" by (metis prod_cases3)
  note one = run_command_changes_only [OF ok run]
  have *: "if cc_authed c then c' = c1 \<and> cs_manager st' = cs_manager st1 else cc_tenant c' = cc_tenant c \<and> st' = st"
    using line run by (auto simp: control_line_def case_prod_beta split: result.splits if_splits)
  show "changes_only (cc_tenant c') st st'"
    using * one changes_only_refl [OF ok] by (auto simp: changes_only_def split: if_splits)
  show "cc_tenant c' \<in> set (cc_tenant c # selected line)"
    using * one last_in_set [of "cc_tenant c # selected line"] by (auto split: if_splits)
  show "cc_authed c' \<and> cc_tenant c' = last (cc_tenant c # selected line)" if "cc_authed c"
    using * one that by simp
qed

lemma control_lines_change_only:
  assumes "manager_ok (cs_manager st)" "control_lines env token ls c st = (replies, c', st', r)"
  shows "manager_ok (cs_manager st') \<and>
    (\<forall>j. j \<notin> set (cc_tenant c # selected_tenants ls) \<longrightarrow> manager_get (cs_manager st') j = manager_get (cs_manager st) j) \<and>
    (cc_authed c \<and> r = Ok () \<longrightarrow> cc_tenant c' = last (cc_tenant c # selected_tenants ls))"
  using assms
proof (induction ls arbitrary: c st replies)
  case Nil
  then show ?case by auto
next
  case (Cons l ls)
  obtain q c1 st1 where line: "control_line env token l c st = (q, c1, st1)" by (metis prod_cases3)
  note one = control_line_changes_only [OF Cons.prems(1) line]
  have ok1: "manager_ok (cs_manager st1)" using one(1) by (simp add: changes_only_def)
  have first: "manager_get (cs_manager st1) j = manager_get (cs_manager st) j" if "j \<notin> set (cc_tenant c # selected l)" for j
    using one(1,2) that unfolding changes_only_def by metis
  show ?case
  proof (cases q)
    case (Ok reply)
    then obtain replies' where "control_lines env token ls c1 st1 = (replies', c', st', r)"
      using Cons.prems(2) line by (auto split: prod.splits)
    note rest = Cons.IH [OF ok1 this]
    have "manager_get (cs_manager st') j = manager_get (cs_manager st) j" if "j \<notin> set (cc_tenant c # selected_tenants (l # ls))" for j
    proof -
      have "j \<notin> set (cc_tenant c1 # selected_tenants ls)" using that one(2) by auto
      with rest first [of j] that show ?thesis by simp
    qed
    moreover have "cc_tenant c' = last (cc_tenant c # selected_tenants (l # ls))" if "cc_authed c \<and> r = Ok ()"
      using that rest one(3) by (simp split: if_splits)
    ultimately show ?thesis using rest by blast
  qed (use Cons.prems(2) line ok1 first in auto)
qed

lemma control_lines_snoc:
  assumes "control_lines env token ls c st = (replies, c', st', r)"
  shows "control_lines env token (ls @ [l]) c st =
    (if r \<noteq> Ok () then (replies, c', st', r)
     else case control_line env token l c' st' of
        (Ok reply, c1, st1) \<Rightarrow> (replies @ [reply], c1, st1, Ok ())
      | (Err e, c1, st1) \<Rightarrow> (replies, c1, st1, Err e)
      | (Panic, c1, st1) \<Rightarrow> (replies, c1, st1, Panic))"
  using assms
proof (induction ls arbitrary: c st replies)
  case Nil
  then show ?case by (auto split: prod.splits result.splits)
next
  case (Cons a ls)
  obtain q c1 st1 where line: "control_line env token a c st = (q, c1, st1)" by (metis prod_cases3)
  show ?case
  proof (cases q)
    case (Ok reply)
    then obtain replies' where rest: "control_lines env token ls c1 st1 = (replies', c', st', r)" "replies = reply # replies'"
      using Cons.prems line by (auto split: prod.splits)
    with Cons.IH [OF rest(1)] Ok line show ?thesis by (auto split: prod.splits result.splits)
  qed (use Cons.prems line in auto)
qed

section \<open>What a client prints\<close>

lemma opt_id_display [simp]: "opt_id nm (Some (id_display i)) = Ok (Some i)"
  by (simp add: opt_id_def id_parse_display)

lemma opt_u64_dec [simp]: "opt_u64 (Some (to_dec (unat l))) = Some l"
  by (simp add: opt_u64_def parse_u64_to_dec)

lemma exec_branch:
  "exec i (join '' '' [''branch'', id_display n, id_display p, to_dec (unat l)]) st =
     (case branch_timeline n p l (current_tenant i st) of
        Ok ten \<Rightarrow> (Ok (''ok branched '' @ id_display n @ '' from '' @ id_display p @ '' @ '' @ to_dec (unat l)), set_tenant i ten st)
      | Err e \<Rightarrow> (Ok (''err '' @ tenant_error_display e), st)
      | Panic \<Rightarrow> (Panic, st))"
proof -
  have "split_whitespace (join '' '' [''branch'', id_display n, id_display p, to_dec (unat l)]) =
      [''branch'', id_display n, id_display p, to_dec (unat l)]"
    by (rule split_whitespace_join) (simp add: id_display_graphic to_dec_graphic)
  then show ?thesis by (simp add: exec_def branch_command_def nth_opt_def del: join.simps)
qed

lemma control_line_branch:
  assumes "cc_authed c"
  shows "\<exists>s. control_line env token (join '' '' [''branch'', id_display n, id_display p, to_dec (unat l)]) c st =
     (case branch_timeline n p l (current_tenant (cc_tenant c) st) of
        Ok ten \<Rightarrow> (Ok (''ok branched '' @ id_display n @ '' from '' @ id_display p @ '' @ '' @ to_dec (unat l)), c,
           (set_tenant (cc_tenant c) ten st)\<lparr>cs_store := s\<rparr>)
      | Err e \<Rightarrow> (Ok (''err '' @ tenant_error_display e), c, st)
      | Panic \<Rightarrow> (Panic, c, st))"
proof -
  let ?line = "join '' '' [''branch'', id_display n, id_display p, to_dec (unat l)]"
  have "split_whitespace ?line = [''branch'', id_display n, id_display p, to_dec (unat l)]"
    by (rule split_whitespace_join) (simp add: id_display_graphic to_dec_graphic)
  then have "nth_word 0 ?line = Some ''branch''" by (simp add: nth_word_def del: join.simps)
  then show ?thesis
    using assms exec_branch [of "cc_tenant c" n p l st]
    by (simp add: control_line_def run_command_def Let_def starts_with_def del: join.simps split: result.splits) blast
qed

section \<open>Two tenants with a layer each\<close>

definition layer_tenant :: "u32 \<Rightarrow> Tenant" where
  "layer_tenant blk = \<lparr>tenant_timelines = [timeline_root 1 (one_layer blk)], tenant_threshold = 8, tenant_redo = rust_reconstruct\<rparr>"

definition two_tenants :: TenantManager where
  "two_tenants = \<lparr>tm_threshold = 8, tm_redo = None, tm_store = False, tm_tenants = [(2, layer_tenant 4), (1, layer_tenant 3)]\<rparr>"

definition local_env :: "LocalStore control_env" where
  "local_env = \<lparr>ce_put = local_put, ce_delete = Some local_delete, ce_json = (\<lambda>_. []), ce_addr = Some, ce_connect = (\<lambda>_. None)\<rparr>"

definition uploaded_tenant :: "u32 \<Rightarrow> Tenant" where
  "uploaded_tenant blk = (layer_tenant blk)\<lparr>tenant_timelines := [timeline_root 1 (mark_uploaded 0 (one_layer blk))]\<rparr>"

lemma two_tenants_ok: "manager_ok two_tenants"
proof -
  have "layers (repository_new 8) = []" by (simp add: repository_new_def)
  then have "repo_inv (one_layer blk)" for blk
    unfolding one_layer_def by (simp add: freeze_inv ingest_one_inv repo_inv_new)
  then show ?thesis
    by (simp add: manager_ok_def two_tenants_def tenant_ids_def tenant_ok_def layer_tenant_def timeline_root_def)
qed

lemma offload_two_tenants:
  "\<exists>s. offload_all local_put two_tenants local_new =
      (two_tenants\<lparr>tm_tenants := [(2, uploaded_tenant 4), (1, uploaded_tenant 3)]\<rparr>, s, 2) \<and>
    local_get (layer_key 0) s = Ok (serialize (delta_layer 3))"
proof -
  have new: "fst ` set (files local_new) \<subseteq> {layer_path 0}" "dirs local_new \<subseteq> {[], [''layers'']}"
    by (simp_all add: local_new_def)
  obtain s1 where s1: "offload_pending local_put (one_layer 4) local_new = (mark_uploaded 0 (one_layer 4), s1, 1)"
    "fst ` set (files s1) \<subseteq> {layer_path 0}" "dirs s1 \<subseteq> {[], [''layers'']}"
    using offload_one_layer [OF new] by blast
  obtain s2 where s2: "offload_pending local_put (one_layer 3) s1 = (mark_uploaded 0 (one_layer 3), s2, 1)"
    "local_get (layer_key 0) s2 = Ok (serialize (delta_layer 3))"
    using offload_one_layer [OF s1(2,3)] by blast
  show ?thesis
    using s1 s2
    by (simp add: offload_all_def two_tenants_def offload_tenant_def layer_tenant_def uploaded_tenant_def timeline_root_def)
qed

lemma gc_uploaded_tenant: "map (\<lambda>(_, st). removed_layer_ids st) (snd (gc h (uploaded_tenant blk))) = [[0]]"
  by (simp add: gc_def uploaded_tenant_def timeline_root_def timeline_compact_def compact_def mark_uploaded_def
      one_layer_fields delta_layer_def Let_def case_prod_beta)

lemma local_delete_layer:
  assumes "local_get (layer_key i) s = Ok bs"
  shows "\<exists>s'. local_delete (layer_key i) s = (Ok (), s') \<and> (\<exists>e. local_get (layer_key i) s' = Err e)"
proof -
  have "is_file s (layer_path i)"
    using assms by (auto simp: local_get_def layer_path_for is_file_def image_iff split: option.splits dest!: map_of_SomeD)
       (metis fst_conv map_of_SomeD ok_or_eq_Ok)
  then have "local_delete (layer_key i) s = (Ok (), file_remove (layer_path i) s)"
    by (simp add: local_delete_def layer_path_for)
  then show ?thesis using local_store.delete_get [OF layer_key_good] by blast
qed

lemma select_then_gc:
  fixes h :: u64
  assumes "manager_get (cs_manager st) i = Some ten"
  shows "\<exists>replies c. handle_conn env None [join '' '' [''tenant'', id_display i], join '' '' [''gc'', to_dec (unat h)]] st =
    (replies, c, snd (gc_command env i (join '' '' [''gc'', to_dec (unat h)])
       (let m = fst (manager_get_or_create i (fst (manager_get_or_create ZERO (cs_manager st))))
        in st\<lparr>cs_manager := m, cs_store := persist (ce_put env) (ce_json env) m (cs_store st)\<rparr>)), Ok ())"
proof -
  have ws: "split_whitespace (join '' '' [''tenant'', id_display i]) = [''tenant'', id_display i]"
    "split_whitespace (join '' '' [''gc'', to_dec (unat h)]) = [''gc'', to_dec (unat h)]"
    by (rule split_whitespace_join, simp add: id_display_graphic to_dec_graphic)+
  have "\<exists>reply. fst (gc_command env i (join '' '' [''gc'', to_dec (unat h)]) st') = Ok reply" for st'
    using ws(2) by (simp add: gc_command_def nth_word_def case_prod_beta Let_def del: join.simps)
  then obtain reply where "fst (gc_command env i (join '' '' [''gc'', to_dec (unat h)]) st') = Ok (reply st')" for st'
    by metis
  then show ?thesis
    by (auto simp: handle_conn_def control_conn_start_def control_line_def run_command_def select_tenant_def nth_word_def ws
        Let_def starts_with_def case_prod_beta simp del: join.simps split: result.splits)
qed

section \<open>Main results\<close>



text \<open>
  C14.  A control connection stays within the tenants it selects.  It keeps the registry well formed, leaves
  every tenant but the root tenant and the ones its \<open>tenant\<close> lines name exactly as before, and every single
  line changes at most the tenant that is selected once the line has run, which is the last one named (the
  root tenant before any).  A branch command, as a client prints it, branches in the selected tenant and
  is answered with what it did.
\<close>

theorem control_conn_isolated:
  assumes "manager_ok (cs_manager st)"
    and "handle_conn env token ls st = (replies, c, st', r)"
    and "handle_conn env token (ls @ [line]) st = (replies1, c1, st1, r1)"
  shows "manager_ok (cs_manager st') \<and>
    (\<forall>j. j \<notin> set (ZERO # selected_tenants ls) \<longrightarrow> manager_get (cs_manager st') j = manager_get (cs_manager st) j) \<and>
    (token = None \<and> r = Ok () \<longrightarrow> cc_tenant c = last (ZERO # selected_tenants ls)) \<and>
    (\<forall>j. j \<noteq> cc_tenant c1 \<longrightarrow> manager_get (cs_manager st1) j = manager_get (cs_manager st') j) \<and>
    (cc_authed c \<and> r = Ok () \<and> line = join '' '' [''branch'', id_display n, id_display p, to_dec (unat l)] \<longrightarrow>
      c1 = c \<and>
      (case branch_timeline n p l (current_tenant (cc_tenant c) st') of
         Ok ten \<Rightarrow> cs_manager st1 = cs_manager (set_tenant (cc_tenant c) ten st') \<and>
           replies1 = replies @ [''ok branched '' @ id_display n @ '' from '' @ id_display p @ '' @ '' @ to_dec (unat l)]
       | Err e \<Rightarrow> st1 = st' \<and> replies1 = replies @ [''err '' @ tenant_error_display e]
       | Panic \<Rightarrow> st1 = st' \<and> r1 = Panic))"
proof -
  let ?st = "st\<lparr>cs_manager := fst (manager_get_or_create ZERO (cs_manager st))\<rparr>"
  note start = manager_get_or_create_ok [OF assms(1), of ZERO]
  have conn: "control_lines env token ls (control_conn_start token) ?st = (replies, c, st', r)"
    using assms(2) by (simp add: handle_conn_def)
  have "manager_ok (cs_manager ?st)" using start(1) by simp
  note all = control_lines_change_only [OF this conn]
  obtain q c2 st2 where one: "control_line env token line c st' = (q, c2, st2)" by (metis prod_cases3)
  have next_line: "if r = Ok () then c1 = c2 \<and> st1 = st2 \<and>
      (case q of Ok reply \<Rightarrow> replies1 = replies @ [reply] | Err e \<Rightarrow> r1 = Err e | Panic \<Rightarrow> r1 = Panic) else st1 = st'"
    using assms(3) control_lines_snoc [OF conn, of line] one by (auto simp: handle_conn_def split: result.splits)
  have "manager_get (cs_manager st1) j = manager_get (cs_manager st') j" if "j \<noteq> cc_tenant c1" for j
    using next_line control_line_changes_only(1) [OF conjunct1 [OF all] one] that
    by (auto simp: changes_only_def split: if_splits)
  moreover have "c1 = c \<and>
      (case branch_timeline n p l (current_tenant (cc_tenant c) st') of
         Ok ten \<Rightarrow> cs_manager st1 = cs_manager (set_tenant (cc_tenant c) ten st') \<and>
           replies1 = replies @ [''ok branched '' @ id_display n @ '' from '' @ id_display p @ '' @ '' @ to_dec (unat l)]
       | Err e \<Rightarrow> st1 = st' \<and> replies1 = replies @ [''err '' @ tenant_error_display e]
       | Panic \<Rightarrow> st1 = st' \<and> r1 = Panic)"
    if "cc_authed c \<and> r = Ok () \<and> line = join '' '' [''branch'', id_display n, id_display p, to_dec (unat l)]"
    using that next_line one control_line_branch [of c env token n p l st']
    by (auto simp del: join.simps split: result.splits)
  ultimately show ?thesis
    using all start(2) by (auto simp: control_conn_start_def)
qed

lemma tenant_line_selects:
  assumes "control_lines env None ls c st = (replies, c', st', Ok ())" "cc_authed c'"
  shows "\<exists>s. control_lines env None (ls @ [join '' '' [''tenant'', id_display i]]) c st =
    (replies @ [''ok tenant '' @ id_display i], c'\<lparr>cc_tenant := i\<rparr>,
     st'\<lparr>cs_manager := fst (manager_get_or_create i (cs_manager st')), cs_store := s\<rparr>, Ok ())"
proof -
  have "split_whitespace (join '' '' [''tenant'', id_display i]) = [''tenant'', id_display i]"
    by (rule split_whitespace_join) (simp add: id_display_graphic)
  then show ?thesis
    using control_lines_snoc [OF assms(1), of "join '' '' [''tenant'', id_display i]"] assms(2)
    by (simp add: control_line_def run_command_def select_tenant_def nth_word_def Let_def starts_with_def del: join.simps) blast
qed

text \<open>Branching timeline 7 off timeline 1 of tenant 2 adds it there, and tenant 1 does not see it.\<close>

theorem control_conn_isolated_witness:
  "\<exists>replies c st1 r ten.
     handle_conn local_env None [join '' '' [''tenant'', id_display 2], join '' '' [''branch'', id_display 7, id_display 1, to_dec (unat (5 :: u64))]]
       \<lparr>cs_manager = two_tenants, cs_store = local_new, cs_receivers = []\<rparr> = (replies, c, st1, r) \<and>
     branch_timeline 7 1 5 (layer_tenant 4) = Ok ten \<and>
     manager_get (cs_manager st1) 2 = Some ten \<and> manager_get (cs_manager st1) 1 = Some (layer_tenant 3)"
proof -
  let ?st = "\<lparr>cs_manager = two_tenants, cs_store = local_new, cs_receivers = []\<rparr>"
  let ?sel = "join '' '' [''tenant'', id_display 2]"
  let ?br = "join '' '' [''branch'', id_display 7, id_display 1, to_dec (unat (5 :: u64))]"
  let ?m = "fst (manager_get_or_create 2 (fst (manager_get_or_create ZERO two_tenants)))"
  obtain s where sel: "handle_conn local_env None [?sel] ?st =
      ([''ok tenant '' @ id_display 2], \<lparr>cc_tenant = 2, cc_authed = True\<rparr>, \<lparr>cs_manager = ?m, cs_store = s, cs_receivers = []\<rparr>, Ok ())"
  proof -
    let ?st0 = "\<lparr>cs_manager = fst (manager_get_or_create ZERO two_tenants), cs_store = local_new, cs_receivers = []\<rparr>"
    have "control_lines local_env None [] \<lparr>cc_tenant = ZERO, cc_authed = True\<rparr> ?st0 = ([], \<lparr>cc_tenant = ZERO, cc_authed = True\<rparr>, ?st0, Ok ())"
      by simp
    from tenant_line_selects [OF this, of 2] that show thesis
      unfolding handle_conn_def control_conn_start_def by (auto simp del: join.simps control_lines.simps(2))
  qed
  obtain replies c st1 r where conn: "handle_conn local_env None ([?sel] @ [?br]) ?st = (replies, c, st1, r)" by (rule prod_cases4)
  have get: "manager_get ?m 2 = Some (layer_tenant 4)" "manager_get ?m 1 = Some (layer_tenant 3)"
    by (simp_all add: manager_get_or_create_def manager_get_def ZERO_def two_tenants_def)
  have cur: "current_tenant 2 \<lparr>cs_manager = ?m, cs_store = s, cs_receivers = []\<rparr> = layer_tenant 4"
    using get(1) by (simp add: current_tenant_def manager_get_or_create_def)
  obtain ten where ten: "branch_timeline 7 1 5 (layer_tenant 4) = Ok ten"
    by (simp add: branch_timeline_def get_timeline_def layer_tenant_def timeline_root_def)
  note * = control_conn_isolated [OF _ sel conn, of 7 1 5]
  have "c = \<lparr>cc_tenant = 2, cc_authed = True\<rparr> \<and> cs_manager st1 = manager_update 2 (\<lambda>_. ten) ?m"
    using * two_tenants_ok cur ten by (simp add: set_tenant_def del: join.simps)
  then have "manager_get (cs_manager st1) 2 = Some ten" "manager_get (cs_manager st1) 1 = Some (layer_tenant 3)"
    using get * two_tenants_ok by (simp_all add: manager_get_update del: join.simps)
  with conn ten show ?thesis unfolding append_Cons append_Nil by blast
qed

text \<open>
  C10.  Collecting one tenant deletes another tenant's data.  Layer ids count from zero in every timeline and
  are all the object key holds, so the object a collection deletes may be another tenant's.  Two tenants
  have one layer each and an offload pass has uploaded both, tenant 1's last, so that the object under the
  shared key is tenant 1's layer.  Selecting tenant 2 and collecting it deletes that object: tenant 1 is
  exactly as before, its layer is marked as uploaded and not pending, and the store no longer has it.
\<close>

theorem gc_deletes_foreign_layer:
  "\<exists>m s replies c st ten t e. offload_all local_put two_tenants local_new = (m, s, 2) \<and>
     manager_get m 1 = Some ten \<and> tenant_timelines ten = [t] \<and> layers (repo t) = [delta_layer 3] \<and> pending_offload (repo t) = [] \<and>
     local_get (layer_key 0) s = Ok (serialize (delta_layer 3)) \<and>
     handle_conn local_env None [join '' '' [''tenant'', id_display 2], join '' '' [''gc'', to_dec (unat (100 :: u64))]]
       \<lparr>cs_manager = m, cs_store = s, cs_receivers = []\<rparr> = (replies, c, st, Ok ()) \<and>
     manager_get (cs_manager st) 1 = Some ten \<and> local_get (layer_key 0) (cs_store st) = Err e"
proof -
  let ?m = "two_tenants\<lparr>tm_tenants := [(2, uploaded_tenant 4), (1, uploaded_tenant 3)]\<rparr>"
  let ?gc = "join '' '' [''gc'', to_dec (unat (100 :: u64))]"
  obtain s where off: "offload_all local_put two_tenants local_new = (?m, s, 2)" "local_get (layer_key 0) s = Ok (serialize (delta_layer 3))"
    using offload_two_tenants by blast
  let ?st = "\<lparr>cs_manager = ?m, cs_store = s, cs_receivers = []\<rparr>"
  let ?m1 = "fst (manager_get_or_create 2 (fst (manager_get_or_create ZERO ?m)))"
  let ?st1 = "\<lparr>cs_manager = ?m1, cs_store = s, cs_receivers = []\<rparr>"
  have get: "manager_get ?m 2 = Some (uploaded_tenant 4)" "manager_get ?m 1 = Some (uploaded_tenant 3)" by (simp_all add: manager_get_def)
  have m1: "manager_get ?m1 2 = Some (uploaded_tenant 4)" "manager_get ?m1 1 = Some (uploaded_tenant 3)" "tm_store ?m1 = False"
    by (simp_all add: manager_get_or_create_def manager_get_def ZERO_def two_tenants_def)
  have cur: "current_tenant 2 ?st1 = uploaded_tenant 4"
    using m1(1) by (simp add: current_tenant_def manager_get_or_create_def)
  have ws: "split_whitespace ?gc = [''gc'', to_dec (unat (100 :: u64))]"
    by (rule split_whitespace_join) (simp add: to_dec_graphic)
  obtain replies c where conn: "handle_conn local_env None [join '' '' [''tenant'', id_display 2], ?gc] ?st =
      (replies, c, snd (gc_command local_env 2 ?gc ?st1), Ok ())"
    using select_then_gc [of ?st 2 "uploaded_tenant 4" local_env 100] get(1) m1(3)
    by (auto simp: persist_def Let_def simp del: join.simps)
  obtain s' e where del: "local_delete (layer_key 0) s = (Ok (), s')" "local_get (layer_key 0) s' = Err e"
    using local_delete_layer [OF off(2)] by blast
  let ?st2 = "snd (gc_command local_env 2 ?gc ?st1)"
  have "cs_store ?st2 = s'" "manager_get (cs_manager ?st2) 1 = Some (uploaded_tenant 3)"
    using ws cur gc_uploaded_tenant [of 100 4] del(1) m1(2) opt_u64_dec [of 100]
    by (simp_all add: gc_command_def nth_word_def local_env_def set_tenant_def manager_get_update case_prod_beta Let_def
        del: join.simps opt_u64_dec)
  moreover have "layers (repo (timeline_root 1 (mark_uploaded 0 (one_layer 3)))) = [delta_layer 3]"
      "pending_offload (repo (timeline_root 1 (mark_uploaded 0 (one_layer 3)))) = []"
    by (simp_all add: timeline_root_def mark_uploaded_def pending_offload_def one_layer_fields delta_layer_def)
  ultimately show ?thesis
    using off get(2) conn del(2) by (fastforce simp: uploaded_tenant_def simp del: join.simps)
qed

end
