(* ===== verification/Http_Api.thy ===== *)
theory Http_Api
  imports Page_Control
begin

text \<open>
  The HTTP/JSON control plane of the page server (\<open>pageserver/src/httpapi.rs\<close>) and the client of the
  command-line tool (\<open>aethelctl/src/lib.rs\<close>).  A connection is the list of the chunks its reads return,
  ended by a close.  The JSON library is a parameter: parsing bytes to a value and printing a value; how a
  derived structure is read from a value (by field name, or by position from an array; a repeated field is
  an error, an absent or null optional field is none) is written out, the texts of its error messages are a
  parameter.  The state and the store are those of \<open>Page_Control\<close>.
\<close>

section \<open>JSON\<close>

datatype json = JNull | JBool bool | JNum nat | JOtherNum string | JStr string | JArr "json list" | JObj "(string \<times> json) list"

record 's http_env =
  he_ctl :: "'s control_env"
  he_parse :: "bytes \<Rightarrow> string + json"
  he_error :: "string list \<Rightarrow> json \<Rightarrow> string"
  he_print :: "json \<Rightarrow> string"

definition struct_fields :: "string list \<Rightarrow> json \<Rightarrow> (string \<times> json) list option" where
  "struct_fields names j =
     (case j of
        JObj kvs \<Rightarrow> Some kvs
      | JArr vs \<Rightarrow> if length vs = length names then Some (zip names vs) else None
      | _ \<Rightarrow> None)"

definition de_str :: "string \<Rightarrow> (string \<times> json) list \<Rightarrow> string option" where
  "de_str nm kvs = (case filter (\<lambda>(k, _). k = nm) kvs of [(_, JStr s)] \<Rightarrow> Some s | _ \<Rightarrow> None)"

definition de_u64 :: "string \<Rightarrow> (string \<times> json) list \<Rightarrow> u64 option" where
  "de_u64 nm kvs =
     (case filter (\<lambda>(k, _). k = nm) kvs of [(_, JNum n)] \<Rightarrow> if n < 2 ^ 64 then Some (of_nat n) else None | _ \<Rightarrow> None)"

definition de_opt_str :: "string \<Rightarrow> (string \<times> json) list \<Rightarrow> string option option" where
  "de_opt_str nm kvs =
     (case filter (\<lambda>(k, _). k = nm) kvs of
        [] \<Rightarrow> Some None | [(_, JNull)] \<Rightarrow> Some None | [(_, JStr s)] \<Rightarrow> Some (Some s) | _ \<Rightarrow> None)"

record TenantBody =
  tb_id :: string

record CreateBody =
  cb_id :: string
  cb_tenant :: "string option"

record BranchBody =
  bb_timeline :: string
  bb_parent :: string
  bb_lsn :: u64
  bb_tenant :: "string option"

record ReceiveBody =
  rb_timeline :: string
  rb_safekeeper :: string
  rb_start_lsn :: u64
  rb_tenant :: "string option"

record GcBody =
  gb_horizon_lsn :: u64
  gb_tenant :: "string option"

definition tenant_fields :: "string list" where "tenant_fields = [''id'']"
definition create_fields :: "string list" where "create_fields = [''id'', ''tenant'']"
definition branch_fields :: "string list" where "branch_fields = [''timeline'', ''parent'', ''lsn'', ''tenant'']"
definition receive_fields :: "string list" where "receive_fields = [''timeline'', ''safekeeper'', ''start_lsn'', ''tenant'']"
definition gc_fields :: "string list" where "gc_fields = [''horizon_lsn'', ''tenant'']"

definition de_tenant :: "json \<Rightarrow> TenantBody option" where
  "de_tenant j =
     Option.bind (struct_fields tenant_fields j) (\<lambda>kvs.
     Option.bind (de_str ''id'' kvs) (\<lambda>i. Some \<lparr>tb_id = i\<rparr>))"

definition de_create :: "json \<Rightarrow> CreateBody option" where
  "de_create j =
     Option.bind (struct_fields create_fields j) (\<lambda>kvs.
     Option.bind (de_str ''id'' kvs) (\<lambda>i.
     Option.bind (de_opt_str ''tenant'' kvs) (\<lambda>t. Some \<lparr>cb_id = i, cb_tenant = t\<rparr>)))"

definition de_branch :: "json \<Rightarrow> BranchBody option" where
  "de_branch j =
     Option.bind (struct_fields branch_fields j) (\<lambda>kvs.
     Option.bind (de_str ''timeline'' kvs) (\<lambda>n.
     Option.bind (de_str ''parent'' kvs) (\<lambda>p.
     Option.bind (de_u64 ''lsn'' kvs) (\<lambda>l.
     Option.bind (de_opt_str ''tenant'' kvs) (\<lambda>t.
     Some \<lparr>bb_timeline = n, bb_parent = p, bb_lsn = l, bb_tenant = t\<rparr>)))))"

definition de_receive :: "json \<Rightarrow> ReceiveBody option" where
  "de_receive j =
     Option.bind (struct_fields receive_fields j) (\<lambda>kvs.
     Option.bind (de_str ''timeline'' kvs) (\<lambda>n.
     Option.bind (de_str ''safekeeper'' kvs) (\<lambda>a.
     Option.bind (de_u64 ''start_lsn'' kvs) (\<lambda>l.
     Option.bind (de_opt_str ''tenant'' kvs) (\<lambda>t.
     Some \<lparr>rb_timeline = n, rb_safekeeper = a, rb_start_lsn = l, rb_tenant = t\<rparr>)))))"

definition de_gc :: "json \<Rightarrow> GcBody option" where
  "de_gc j =
     Option.bind (struct_fields gc_fields j) (\<lambda>kvs.
     Option.bind (de_u64 ''horizon_lsn'' kvs) (\<lambda>h.
     Option.bind (de_opt_str ''tenant'' kvs) (\<lambda>t. Some \<lparr>gb_horizon_lsn = h, gb_tenant = t\<rparr>)))"

section \<open>Routing\<close>

type_synonym 's http_result = "(string, nat \<times> string) result \<times> 's control_state"

definition http_err :: "'s http_env \<Rightarrow> nat \<Rightarrow> string \<Rightarrow> nat \<times> string" where
  "http_err env status msg = (status, he_print env (JObj [(''error'', JStr msg)]))"

text \<open>The early returns of a route: a body that is not the expected structure, an id that is not one, a bad tenant.\<close>

definition with_body ::
  "'s http_env \<Rightarrow> string list \<Rightarrow> (json \<Rightarrow> 'b option) \<Rightarrow> bytes \<Rightarrow> 's control_state \<Rightarrow> ('b \<Rightarrow> 's http_result) \<Rightarrow> 's http_result" where
  "with_body env names de body st k =
     (case he_parse env body of
        Inl e \<Rightarrow> (Ok (http_err env 400 (''invalid body: '' @ e)), st)
      | Inr j \<Rightarrow>
          (case de j of
             None \<Rightarrow> (Ok (http_err env 400 (''invalid body: '' @ he_error env names j)), st)
           | Some b \<Rightarrow> k b))"

definition with_id ::
  "'s http_env \<Rightarrow> string \<Rightarrow> string \<Rightarrow> string \<Rightarrow> 's control_state \<Rightarrow> (128 word \<Rightarrow> 's http_result) \<Rightarrow> 's http_result" where
  "with_id env nm msg s st k =
     (case id_from_str nm s of
        Ok i \<Rightarrow> k i
      | Err _ \<Rightarrow> (Ok (http_err env 400 msg), st)
      | Panic \<Rightarrow> (Panic, st))"

definition resolve_tenant ::
  "'s http_env \<Rightarrow> string option \<Rightarrow> 's control_state \<Rightarrow> (TenantId \<Rightarrow> 's control_state \<Rightarrow> 's http_result) \<Rightarrow> 's http_result" where
  "resolve_tenant env raw st k =
     (let found = (\<lambda>i. k i (st\<lparr>cs_manager := fst (manager_get_or_create i (cs_manager st))\<rparr>)) in
      case raw of
        None \<Rightarrow> found ZERO
      | Some s \<Rightarrow> with_id env ''TenantId'' ''tenant must be 32 hex chars'' s st found)"

definition query_tenant :: "string \<Rightarrow> string option" where
  "query_tenant query =
     (case List.map_filter (strip_prefix ''tenant='') (split_on (CHR ''&'') query) of [] \<Rightarrow> None | v # _ \<Rightarrow> Some v)"

fun manager_error_display :: "TenantManagerError \<Rightarrow> string" where
  "manager_error_display (TenantExists i) = ''tenant '' @ id_display i @ '' already exists''"

definition id_list :: "'s http_env \<Rightarrow> string \<Rightarrow> 128 word list \<Rightarrow> nat \<times> string" where
  "id_list env key ids = (200, he_print env (JObj [(key, JArr (map JStr (sort (map id_display ids))))]))"

definition delete_tenant_route :: "'s http_env \<Rightarrow> string \<Rightarrow> 's control_state \<Rightarrow> 's http_result" where
  "delete_tenant_route env i st =
     with_id env ''TenantId'' ''tenant id must be 32 hex chars'' i st (\<lambda>tid.
       case manager_remove tid (cs_manager st) of
         (m, True) \<Rightarrow> (Ok (200, he_print env (JObj [(''deleted'', JStr (id_display tid))])), st\<lparr>cs_manager := m\<rparr>)
       | (m, False) \<Rightarrow> (Ok (http_err env 404 (''unknown tenant '' @ id_display tid)), st\<lparr>cs_manager := m\<rparr>))"

definition create_tenant_route :: "'s http_env \<Rightarrow> bytes \<Rightarrow> 's control_state \<Rightarrow> 's http_result" where
  "create_tenant_route env body st =
     with_body env tenant_fields de_tenant body st (\<lambda>b.
     with_id env ''TenantId'' ''id must be 32 hex chars'' (tb_id b) st (\<lambda>i.
       case manager_create i (cs_manager st) of
         Ok m \<Rightarrow> (Ok (201, he_print env (JObj [(''created'', JStr (id_display i))])), st\<lparr>cs_manager := m\<rparr>)
       | Err e \<Rightarrow> (Ok (http_err env 409 (manager_error_display e)), st)
       | Panic \<Rightarrow> (Panic, st)))"

definition create_timeline_route :: "'s http_env \<Rightarrow> bytes \<Rightarrow> 's control_state \<Rightarrow> 's http_result" where
  "create_timeline_route env body st =
     with_body env create_fields de_create body st (\<lambda>b.
     resolve_tenant env (cb_tenant b) st (\<lambda>t st.
     with_id env ''TimelineId'' ''id must be 32 hex chars'' (cb_id b) st (\<lambda>i.
       case create_timeline i (current_tenant t st) of
         Ok ten \<Rightarrow> (Ok (201, he_print env (JObj [(''created'', JStr (id_display i))])), set_tenant t ten st)
       | Err e \<Rightarrow> (Ok (http_err env 409 (tenant_error_display e)), st)
       | Panic \<Rightarrow> (Panic, st))))"

text \<open>Both identifiers of a branch are parsed before either is looked at.\<close>

definition branch_route :: "'s http_env \<Rightarrow> bytes \<Rightarrow> 's control_state \<Rightarrow> 's http_result" where
  "branch_route env body st =
     with_body env branch_fields de_branch body st (\<lambda>b.
     resolve_tenant env (bb_tenant b) st (\<lambda>t st.
       case rbind (opt_id ''TimelineId'' (Some (bb_timeline b))) (\<lambda>n.
            rbind (opt_id ''TimelineId'' (Some (bb_parent b))) (\<lambda>p. Ok (n, p))) of
         Ok (Some n, Some p) \<Rightarrow>
           (case branch_timeline n p (bb_lsn b) (current_tenant t st) of
              Ok ten \<Rightarrow>
                (Ok (201, he_print env (JObj [(''branched'', JStr (id_display n)), (''parent'', JStr (id_display p)),
                    (''lsn'', JNum (unat (bb_lsn b)))])), set_tenant t ten st)
            | Err e \<Rightarrow> (Ok (http_err env 409 (tenant_error_display e)), st)
            | Panic \<Rightarrow> (Panic, st))
       | Ok _ \<Rightarrow> (Ok (http_err env 400 ''timeline and parent must be 32 hex chars''), st)
       | Err e \<Rightarrow> (Err e, st)
       | Panic \<Rightarrow> (Panic, st)))"

definition receive_route :: "'s http_env \<Rightarrow> bytes \<Rightarrow> 's control_state \<Rightarrow> 's http_result" where
  "receive_route env body st =
     with_body env receive_fields de_receive body st (\<lambda>b.
     resolve_tenant env (rb_tenant b) st (\<lambda>t st.
     with_id env ''TimelineId'' ''timeline must be 32 hex chars'' (rb_timeline b) st (\<lambda>tln.
       case ce_addr (he_ctl env) (rb_safekeeper b) of
         None \<Rightarrow> (Ok (http_err env 400 ''safekeeper must be host:port''), st)
       | Some addr \<Rightarrow>
           if get_timeline (current_tenant t st) tln = None
           then (Ok (http_err env 404 (''unknown timeline '' @ id_display tln)), st)
           else
             (case ce_connect (he_ctl env) addr of
                None \<Rightarrow>
                  (Ok (200, he_print env (JObj [(''receiving'', JStr (id_display tln)), (''from'', JStr (rb_safekeeper b))])),
                   st\<lparr>cs_receivers := (t, receiver_connect (receiver_config t tln (rb_start_lsn b))) # cs_receivers st\<rparr>)
              | Some e \<Rightarrow> (Ok (http_err env 502 (''connecting to safekeeper: '' @ e)), st)))))"

definition gc_route :: "'s http_env \<Rightarrow> bytes \<Rightarrow> 's control_state \<Rightarrow> 's http_result" where
  "gc_route env body st =
     with_body env gc_fields de_gc body st (\<lambda>b.
     resolve_tenant env (gb_tenant b) st (\<lambda>t st.
       let (ten, stats) = gc (gb_horizon_lsn b) (current_tenant t st);
           versions = sum_list (map (\<lambda>(_, s). versions_removed s) stats);
           (deleted, s) = (case ce_delete (he_ctl env) of
              None \<Rightarrow> (0, cs_store st)
            | Some del \<Rightarrow> delete_layers del (concat (map (\<lambda>(_, s). removed_layer_ids s) stats)) (cs_store st))
       in (Ok (200, he_print env (JObj [(''horizon_lsn'', JNum (unat (gb_horizon_lsn b))), (''timelines'', JNum (length stats)),
             (''versions_removed'', JNum versions), (''objects_deleted'', JNum deleted)])),
           (set_tenant t ten st)\<lparr>cs_store := s\<rparr>)))"

definition list_timelines_route :: "'s http_env \<Rightarrow> string \<Rightarrow> 's control_state \<Rightarrow> 's http_result" where
  "list_timelines_route env query st =
     resolve_tenant env (query_tenant query) st (\<lambda>t st.
       (Ok (id_list env ''timelines'' (timeline_ids (current_tenant t st))), st))"

definition route :: "'s http_env \<Rightarrow> string \<Rightarrow> string \<Rightarrow> string \<Rightarrow> bytes \<Rightarrow> 's control_state \<Rightarrow> 's http_result" where
  "route env meth path query body st =
     (case (if meth = ''DELETE'' then strip_prefix ''/v1/tenants/'' path else None) of
        Some i \<Rightarrow> delete_tenant_route env i st
      | None \<Rightarrow>
          if meth = ''GET'' \<and> path = ''/healthz'' then (Ok (200, ''{\"status\":\"ok\"}''), st)
          else if meth = ''GET'' \<and> path = ''/v1/tenants'' then (Ok (id_list env ''tenants'' (tenant_ids (cs_manager st))), st)
          else if meth = ''POST'' \<and> path = ''/v1/tenants'' then create_tenant_route env body st
          else if meth = ''GET'' \<and> path = ''/v1/timelines'' then list_timelines_route env query st
          else if meth = ''POST'' \<and> path = ''/v1/timelines'' then create_timeline_route env body st
          else if meth = ''POST'' \<and> path = ''/v1/branches'' then branch_route env body st
          else if meth = ''POST'' \<and> path = ''/v1/timelines/receive'' then receive_route env body st
          else if meth = ''POST'' \<and> path = ''/v1/gc'' then gc_route env body st
          else (Ok (http_err env 404 ''not found''), st))"

section \<open>Reading a request\<close>

fun find_subsequence :: "bytes \<Rightarrow> bytes \<Rightarrow> nat option" where
  "find_subsequence [] needle = (if needle = [] then Some 0 else None)"
| "find_subsequence (x # xs) needle =
     (if prefix needle (x # xs) then Some 0 else map_option Suc (find_subsequence xs needle))"

definition HEADER_MARK :: bytes where "HEADER_MARK = [13, 10, 13, 10]"

definition eof_in_header :: "bytes \<Rightarrow> (string, (nat \<times> bytes \<times> bytes list) option) result" where
  "eof_in_header buf = (if buf = [] then Ok None else Err ''incomplete request'')"

text \<open>The position of the header's end, what has been read and the chunks still to come; an empty chunk is the close.\<close>

fun read_head :: "bytes list \<Rightarrow> bytes \<Rightarrow> (string, (nat \<times> bytes \<times> bytes list) option) result" where
  "read_head [] buf =
     (case find_subsequence buf HEADER_MARK of Some pos \<Rightarrow> Ok (Some (pos, buf, [])) | None \<Rightarrow> eof_in_header buf)"
| "read_head (c # cs) buf =
     (case find_subsequence buf HEADER_MARK of
        Some pos \<Rightarrow> Ok (Some (pos, buf, c # cs))
      | None \<Rightarrow>
          if c = [] then eof_in_header buf
          else if length (buf @ c) < 2 ^ 20 then read_head cs (buf @ c)
          else Err ''request headers too large'')"

fun read_body :: "bytes list \<Rightarrow> nat \<Rightarrow> bytes \<Rightarrow> bytes" where
  "read_body [] n body = body"
| "read_body (c # cs) n body = (if length body < n \<and> c \<noteq> [] then read_body cs n (body @ c) else body)"

text \<open>Scanning the header lines for the length and the authorization; the last of each kind counts.\<close>

definition header_line :: "string \<Rightarrow> nat \<times> string option \<Rightarrow> nat \<times> string option" where
  "header_line l hs =
     (case split_once (CHR '':'') l of
        None \<Rightarrow> hs
      | Some (k, v) \<Rightarrow>
          if eq_ignore_ascii_case (trim k) ''content-length''
          then (case parse_dec (2 ^ 64 - 1) (trim v) of Ok n \<Rightarrow> n | _ \<Rightarrow> 0, snd hs)
          else if eq_ignore_ascii_case (trim k) ''authorization'' then (fst hs, Some (trim v))
          else hs)"

definition CRLF :: string where "CRLF = [CHR 0x0D, CHR 0x0A]"

definition parse_head :: "bytes \<Rightarrow> string \<times> string \<times> nat \<times> string option" where
  "parse_head head =
     (let ls = split_str CRLF [] (bytes_str (from_utf8_lossy head));
          ws = split_whitespace (hd ls);
          word = (\<lambda>n. case nth_opt ws n of Some w \<Rightarrow> w | None \<Rightarrow> []);
          (content_length, authorization) = fold header_line (tl ls) (0, None)
      in (word 0, word 1, content_length, authorization))"

definition read_request :: "bytes list \<Rightarrow> (string, (string \<times> string \<times> string option \<times> bytes) option) result" where
  "read_request chunks =
     (case read_head chunks [] of
        Ok None \<Rightarrow> Ok None
      | Ok (Some (pos, buf, rest)) \<Rightarrow>
          (case parse_head (take pos buf) of
             (meth, path, content_length, auth) \<Rightarrow>
               Ok (Some (meth, path, auth, take content_length (read_body rest content_length (drop (pos + 4) buf)))))
      | Err e \<Rightarrow> Err e
      | Panic \<Rightarrow> Panic)"

section \<open>A connection\<close>

definition http_response :: "nat \<times> string \<Rightarrow> string" where
  "http_response r =
     ''HTTP/1.1 '' @ to_dec (fst r) @ (if 200 \<le> fst r \<and> fst r < 300 then '' OK'' else '' Error'') @ CRLF
     @ ''Content-Type: application/json'' @ CRLF @ ''Content-Length: '' @ to_dec (length (snd r)) @ CRLF
     @ ''Connection: close'' @ CRLF @ CRLF @ snd r"

definition gated_route ::
  "'s http_env \<Rightarrow> string option \<Rightarrow> string \<Rightarrow> string \<Rightarrow> string option \<Rightarrow> bytes \<Rightarrow> 's control_state \<Rightarrow> 's http_result" where
  "gated_route env token meth raw_path auth body st =
     (let (path, query) = (case split_once (CHR ''?'') raw_path of Some pq \<Rightarrow> pq | None \<Rightarrow> (raw_path, [])) in
      case (if path \<noteq> ''/healthz'' then token else None) of
        Some expected \<Rightarrow>
          if auth = Some (''Bearer '' @ expected) then route env meth path query body st
          else (Ok (http_err env 401 ''missing or invalid bearer token''), st)
      | None \<Rightarrow> route env meth path query body st)"

definition http_handle :: "'s http_env \<Rightarrow> string option \<Rightarrow> bytes list \<Rightarrow> 's control_state \<Rightarrow> (string, string) result \<times> 's control_state" where
  "http_handle env token chunks st =
     (case read_request chunks of
        Ok None \<Rightarrow> (Ok [], st)
      | Ok (Some (meth, raw_path, auth, body)) \<Rightarrow>
          (case gated_route env token meth raw_path auth body st of
             (Ok r, st1) \<Rightarrow>
               (Ok (http_response r),
                if fst r = 201 \<or> meth = ''DELETE'' \<and> 200 \<le> fst r \<and> fst r < 300
                then st1\<lparr>cs_store := persist (ce_put (he_ctl env)) (ce_json (he_ctl env)) (cs_manager st1) (cs_store st1)\<rparr>
                else st1)
           | (Err e, st1) \<Rightarrow> (Err e, st1)
           | (Panic, st1) \<Rightarrow> (Panic, st1))
      | Err e \<Rightarrow> (Err e, st)
      | Panic \<Rightarrow> (Panic, st))"

section \<open>The client\<close>

record http_call =
  call_method :: string
  call_path :: string
  call_body :: "json option"

definition with_tenant_field :: "(string \<times> json) list \<Rightarrow> string option \<Rightarrow> json" where
  "with_tenant_field kvs tenant = JObj (kvs @ (case tenant of Some t \<Rightarrow> [(''tenant'', JStr t)] | None \<Rightarrow> []))"

definition client_auth :: "string option \<Rightarrow> string option" where
  "client_auth token = map_option (\<lambda>t. ''Bearer '' @ t) token"

definition client_create_tenant :: "string \<Rightarrow> http_call" where
  "client_create_tenant i = \<lparr>call_method = ''POST'', call_path = ''/v1/tenants'', call_body = Some (JObj [(''id'', JStr i)])\<rparr>"

definition client_create_timeline :: "string \<Rightarrow> string option \<Rightarrow> http_call" where
  "client_create_timeline i tenant =
     \<lparr>call_method = ''POST'', call_path = ''/v1/timelines'', call_body = Some (with_tenant_field [(''id'', JStr i)] tenant)\<rparr>"

definition client_branch :: "string \<Rightarrow> string \<Rightarrow> u64 \<Rightarrow> string option \<Rightarrow> http_call" where
  "client_branch new_id parent lsn tenant =
     \<lparr>call_method = ''POST'', call_path = ''/v1/branches'',
      call_body = Some (with_tenant_field [(''timeline'', JStr new_id), (''parent'', JStr parent), (''lsn'', JNum (unat lsn))] tenant)\<rparr>"

definition client_receive :: "string \<Rightarrow> string \<Rightarrow> u64 \<Rightarrow> string option \<Rightarrow> http_call" where
  "client_receive timeline safekeeper lsn tenant =
     \<lparr>call_method = ''POST'', call_path = ''/v1/timelines/receive'',
      call_body = Some (with_tenant_field [(''timeline'', JStr timeline), (''safekeeper'', JStr safekeeper), (''start_lsn'', JNum (unat lsn))] tenant)\<rparr>"

definition client_delete_tenant :: "string \<Rightarrow> http_call" where
  "client_delete_tenant i = \<lparr>call_method = ''DELETE'', call_path = ''/v1/tenants/'' @ i, call_body = None\<rparr>"

definition client_gc :: "u64 \<Rightarrow> string option \<Rightarrow> http_call" where
  "client_gc horizon tenant =
     \<lparr>call_method = ''POST'', call_path = ''/v1/gc'', call_body = Some (with_tenant_field [(''horizon_lsn'', JNum (unat horizon))] tenant)\<rparr>"

definition client_list_timelines :: "string option \<Rightarrow> http_call" where
  "client_list_timelines tenant =
     \<lparr>call_method = ''GET'', call_path = (case tenant of Some t \<Rightarrow> ''/v1/timelines?tenant='' @ t | None \<Rightarrow> ''/v1/timelines''), call_body = None\<rparr>"

definition client_list_tenants :: http_call where
  "client_list_tenants = \<lparr>call_method = ''GET'', call_path = ''/v1/tenants'', call_body = None\<rparr>"

definition client_healthz :: http_call where
  "client_healthz = \<lparr>call_method = ''GET'', call_path = ''/healthz'', call_body = None\<rparr>"

section \<open>Any chunking reads the same request\<close>

lemma find_subsequence_Some:
  "find_subsequence hay n = Some i \<Longrightarrow> prefix n (drop i hay) \<and> i + length n \<le> length hay \<and> (\<forall>j < i. \<not> prefix n (drop j hay))"
proof (induction hay arbitrary: i)
  case (Cons x xs)
  show ?case
  proof (cases "prefix n (x # xs)")
    case True
    then show ?thesis using Cons.prems prefix_length_le [OF True] by simp
  next
    case False
    then obtain i' where i: "i = Suc i'" "find_subsequence xs n = Some i'" using Cons.prems by auto
    then show ?thesis using Cons.IH [OF i(2)] False by (auto simp: less_Suc_eq_0_disj)
  qed
qed (auto split: if_splits)

lemma find_subsequence_None: "find_subsequence hay n = None \<Longrightarrow> j \<le> length hay \<Longrightarrow> \<not> prefix n (drop j hay)"
proof (induction hay arbitrary: j)
  case (Cons x xs)
  then show ?case by (cases j) (auto split: if_splits)
qed (auto split: if_splits)

lemma prefix_drop_append: "prefix n (drop j a) \<Longrightarrow> j \<le> length a \<Longrightarrow> prefix n (drop j (a @ b))"
  by (auto simp: prefix_def)

lemma prefix_drop_take:
  assumes "prefix n (drop j (a @ b))" "j + length n \<le> length a"
  shows "prefix n (drop j a)"
proof -
  have "drop j (a @ b) = drop j a @ b" using assms(2) by simp
  with assms show ?thesis using prefix_length_prefix [of n "drop j a @ b" "drop j a"] by simp
qed

lemma find_subsequence_prefix:
  assumes "find_subsequence (a @ b) n = Some pos" "n \<noteq> []"
  shows "find_subsequence a n = (if pos + length n \<le> length a then Some pos else None)"
proof -
  note whole = find_subsequence_Some [OF assms(1)]
  show ?thesis
  proof (cases "find_subsequence a n")
    case None
    have "\<not> pos + length n \<le> length a"
    proof
      assume le: "pos + length n \<le> length a"
      then show False
        using find_subsequence_None [OF None, of pos] prefix_drop_take [of n pos a b] whole by simp
    qed
    with None show ?thesis by simp
  next
    case (Some i)
    note part = find_subsequence_Some [OF Some]
    have "\<not> i < pos" using prefix_drop_append [of n i a b] part whole by auto
    moreover have "\<not> pos < i" using prefix_drop_take [of n pos a b] part whole by auto
    ultimately show ?thesis using Some part by simp
  qed
qed

lemma read_head_chunks:
  assumes "find_subsequence (buf @ concat chunks) HEADER_MARK = Some pos" "pos + 1028 \<le> 2 ^ 20"
    and "list_all (\<lambda>c. c \<noteq> [] \<and> length c \<le> 1024) chunks"
  shows "\<exists>got rest. read_head chunks buf = Ok (Some (pos, got, rest)) \<and> got @ concat rest = buf @ concat chunks \<and>
    pos + 4 \<le> length got \<and> list_all (\<lambda>c. c \<noteq> []) rest"
  using assms
proof (induction chunks arbitrary: buf)
  case Nil
  then show ?case using find_subsequence_Some [of buf HEADER_MARK pos] by (simp add: HEADER_MARK_def)
next
  case (Cons c cs)
  have pre: "find_subsequence buf HEADER_MARK = (if pos + 4 \<le> length buf then Some pos else None)"
    using find_subsequence_prefix [OF Cons.prems(1)] by (simp add: HEADER_MARK_def)
  show ?case
  proof (cases "pos + 4 \<le> length buf")
    case True
    then show ?thesis using pre Cons.prems(3) by (auto simp: list_all_iff)
  next
    case False
    then have "length (buf @ c) < 2 ^ 20" using Cons.prems by simp
    moreover have "\<exists>got rest. read_head cs (buf @ c) = Ok (Some (pos, got, rest)) \<and> got @ concat rest = (buf @ c) @ concat cs \<and>
        pos + 4 \<le> length got \<and> list_all (\<lambda>c. c \<noteq> []) rest"
      by (rule Cons.IH) (use Cons.prems in simp_all)
    ultimately show ?thesis using pre False Cons.prems(3) by simp
  qed
qed

lemma read_body_chunks:
  "list_all (\<lambda>c. c \<noteq> []) rest \<Longrightarrow> take n (read_body rest n body) = take n (body @ concat rest)"
proof (induction rest arbitrary: body)
  case (Cons c cs)
  then show ?case by auto
qed simp

lemma read_request_chunks:
  assumes "find_subsequence (concat chunks) HEADER_MARK = Some pos" "pos + 1028 \<le> 2 ^ 20"
    and "list_all (\<lambda>c. c \<noteq> [] \<and> length c \<le> 1024) chunks"
  shows "read_request chunks =
    (case parse_head (take pos (concat chunks)) of
       (meth, path, n, auth) \<Rightarrow> Ok (Some (meth, path, auth, take n (drop (pos + 4) (concat chunks)))))"
proof -
  obtain got rest where head: "read_head chunks [] = Ok (Some (pos, got, rest))" "got @ concat rest = concat chunks"
      "pos + 4 \<le> length got" "list_all (\<lambda>c. c \<noteq> []) rest"
    using read_head_chunks [of "[]" chunks pos] assms by auto
  have "take pos got = take pos (concat chunks)"
    unfolding head(2) [symmetric] using head(3) by simp
  moreover have "drop (pos + 4) got @ concat rest = drop (pos + 4) (concat chunks)"
    unfolding head(2) [symmetric] using head(3) by simp
  then have "take n (read_body rest n (drop (pos + 4) got)) = take n (drop (pos + 4) (concat chunks))" for n
    by (simp only: read_body_chunks [OF head(4)])
  ultimately show ?thesis
    using head(1) by (auto simp: read_request_def split: prod.splits)
qed

section \<open>A request as a client writes it\<close>

definition printable :: "string \<Rightarrow> bool" where
  "printable s \<longleftrightarrow> list_all (\<lambda>c. 32 \<le> (of_char c :: nat) \<and> (of_char c :: nat) < 128) s"

definition head_lines :: "string \<Rightarrow> string \<Rightarrow> string option \<Rightarrow> bytes \<Rightarrow> string list" where
  "head_lines meth path auth body =
     [meth @ '' '' @ path @ '' HTTP/1.1'', ''Content-Length: '' @ to_dec (length body)]
     @ (case auth of Some v \<Rightarrow> [''Authorization: '' @ v] | None \<Rightarrow> [])"

definition http_text :: "string \<Rightarrow> string \<Rightarrow> string option \<Rightarrow> bytes \<Rightarrow> bytes" where
  "http_text meth path auth body = str_bytes (join CRLF (head_lines meth path auth body)) @ HEADER_MARK @ body"

text \<open>What a client may put into it.\<close>

definition head_wf :: "string \<Rightarrow> string \<Rightarrow> string option \<Rightarrow> bool" where
  "head_wf meth path auth \<longleftrightarrow> meth \<noteq> [] \<and> graphic meth \<and> path \<noteq> [] \<and> graphic path \<and>
     (case auth of None \<Rightarrow> True | Some v \<Rightarrow> v \<noteq> [] \<and> printable v \<and> graphic [hd v] \<and> graphic [last v])"

lemma printable_simps [simp]:
  "printable []" "printable (c # s) \<longleftrightarrow> 32 \<le> (of_char c :: nat) \<and> (of_char c :: nat) < 128 \<and> printable s"
  "printable (a @ b) \<longleftrightarrow> printable a \<and> printable b"
  by (auto simp: printable_def)

lemma graphic_printable: "graphic s \<Longrightarrow> printable s"
  by (auto simp: graphic_def printable_def list_all_iff)

lemma find_mark_line:
  "printable l \<Longrightarrow> find_subsequence (str_bytes l @ rest) HEADER_MARK = map_option ((+) (length l)) (find_subsequence rest HEADER_MARK)"
proof (induction l)
  case (Cons c l)
  have "(13 :: u8) \<noteq> of_nat (of_char c)"
  proof
    assume "(13 :: u8) = of_nat (of_char c)"
    then have "unat (13 :: u8) = unat (of_nat (of_char c) :: u8)" by simp
    then show False using Cons.prems by (simp add: unat_of_nat)
  qed
  then show ?case using Cons by (simp add: str_bytes_def HEADER_MARK_def option.map_comp comp_def)
qed (cases "find_subsequence rest HEADER_MARK"; simp add: str_bytes_def)

lemma find_mark_CRLF:
  assumes "printable l" "l \<noteq> []"
  shows "find_subsequence (str_bytes CRLF @ str_bytes l @ rest) HEADER_MARK =
    map_option ((+) 2) (find_subsequence (str_bytes l @ rest) HEADER_MARK)"
proof -
  obtain c l' where l: "l = c # l'" using assms(2) by (cases l) auto
  have "(13 :: u8) \<noteq> of_nat (of_char c)"
  proof
    assume "(13 :: u8) = of_nat (of_char c)"
    then have "unat (13 :: u8) = unat (of_nat (of_char c) :: u8)" by simp
    then show False using assms(1) l by (simp add: unat_of_nat)
  qed
  then show ?thesis
    by (simp add: l str_bytes_def CRLF_def HEADER_MARK_def option.map_comp comp_def)
qed

lemma find_mark_join:
  "ls \<noteq> [] \<Longrightarrow> list_all (\<lambda>l. l \<noteq> [] \<and> printable l) ls \<Longrightarrow>
   find_subsequence (str_bytes (join CRLF ls) @ HEADER_MARK @ rest) HEADER_MARK = Some (length (join CRLF ls))"
proof (induction CRLF ls rule: join.induct)
  case (2 x)
  then show ?case by (simp add: find_mark_line) (simp add: HEADER_MARK_def)
next
  case (3 x y ys)
  obtain c z where z: "join CRLF (y # ys) = c # z" "printable [c]"
    using 3(3) by (cases ys; cases y) auto
  have "find_subsequence (str_bytes CRLF @ str_bytes [c] @ str_bytes z @ HEADER_MARK @ rest) HEADER_MARK =
      map_option ((+) 2) (find_subsequence (str_bytes [c] @ str_bytes z @ HEADER_MARK @ rest) HEADER_MARK)"
    using z(2) by (intro find_mark_CRLF) simp_all
  moreover have J: "str_bytes (join CRLF (y # ys)) @ r = str_bytes [c] @ str_bytes z @ r" for r
    using z(1) by (simp add: str_bytes_def)
  ultimately have "find_subsequence (str_bytes CRLF @ str_bytes (join CRLF (y # ys)) @ HEADER_MARK @ rest) HEADER_MARK =
      map_option ((+) 2) (find_subsequence (str_bytes (join CRLF (y # ys)) @ HEADER_MARK @ rest) HEADER_MARK)"
    by (simp only: J)
  then have "find_subsequence (str_bytes CRLF @ str_bytes (join CRLF (y # ys)) @ HEADER_MARK @ rest) HEADER_MARK =
      Some (2 + length (join CRLF (y # ys)))"
    using 3 by simp
  moreover have "str_bytes (join CRLF (x # y # ys)) = str_bytes x @ str_bytes CRLF @ str_bytes (join CRLF (y # ys))"
    by (simp add: str_bytes_def)
  ultimately show ?case
    using find_mark_line [of x "str_bytes CRLF @ str_bytes (join CRLF (y # ys)) @ HEADER_MARK @ rest"] 3(3)
    by (simp add: CRLF_def)
qed simp

lemma split_str_line: "printable l \<Longrightarrow> split_str CRLF cur (l @ s) = split_str CRLF (cur @ l) s"
proof (induction l arbitrary: cur)
  case (Cons c l)
  have "\<not> prefix CRLF (c # l @ s)" using Cons.prems by (auto simp: CRLF_def)
  then show ?case using Cons by (subst split_str.simps) simp
qed simp

lemma split_str_CRLF: "split_str CRLF cur (CRLF @ s) = cur # split_str CRLF [] s" "split_str CRLF cur [] = [cur]"
  by (subst split_str.simps, simp add: CRLF_def)+

lemma split_str_join:
  "ls \<noteq> [] \<Longrightarrow> list_all printable ls \<Longrightarrow> split_str CRLF [] (join CRLF ls) = ls"
proof (induction CRLF ls rule: join.induct)
  case (2 x)
  then show ?case using split_str_line [of x "[]" "[]"] by (simp add: split_str_CRLF)
next
  case (3 x y ys)
  then show ?case using split_str_line [of x "[]"] by (simp add: split_str_CRLF)
qed simp

lemma trim_padded:
  assumes "s \<noteq> []" "graphic [hd s]" "graphic [last s]"
  shows "trim s = s" "trim (CHR '' '' # s) = s"
proof -
  have none: "strip_prefixes ws k (c # r) = c # r"
    if "\<And>w. w \<in> set ws \<Longrightarrow> w \<noteq> [] \<and> hd w \<noteq> c" for ws k c r
  proof (cases k)
    case (Suc k')
    have "find (\<lambda>w. prefix w (c # r)) ws = None" using that by (fastforce simp: find_None_iff prefix_Cons)
    then show ?thesis using Suc by simp
  qed simp
  have start: "strip_prefixes white_space k s = s" for k
    using none [of white_space "hd s" k "tl s"] white_space_ends assms(1,2) by fastforce
  obtain r where r: "rev s = last s # r" using assms(1) by (cases s rule: rev_cases) auto
  have "w \<noteq> [] \<and> hd w \<noteq> last s" if "w \<in> set (map rev white_space)" for w
    using that white_space_ends assms(3) by (fastforce simp: hd_rev)
  then have "strip_prefixes (map rev white_space) (length s) (rev s) = rev s"
    unfolding r by (rule none)
  then have fin: "trim_end s = s" by (simp add: trim_end_def)
  have "find (\<lambda>w. prefix w (CHR '' '' # s)) white_space = Some '' ''"
    using white_at_simps(2) [of s] by (simp add: white_at_def)
  then have "trim_start (CHR '' '' # s) = s" using start by (simp add: trim_start_def)
  with fin start show "trim s = s" "trim (CHR '' '' # s) = s" by (simp_all add: trim_def trim_start_def)
qed

lemma head_lines_facts:
  assumes "head_wf meth path auth"
  shows "head_lines meth path auth body \<noteq> []" "list_all (\<lambda>l. l \<noteq> [] \<and> printable l) (head_lines meth path auth body)"
    "list_all printable (head_lines meth path auth body)"
  using assms graphic_printable [of meth] graphic_printable [of path] graphic_printable [OF to_dec_graphic, of "length body"]
  by (auto simp: head_lines_def head_wf_def split: option.splits)

lemma printable_ascii: "printable s \<Longrightarrow> list_all (\<lambda>c. (of_char c :: nat) < 128) s"
  by (induction s) auto

lemma printable_join: "list_all printable ls \<Longrightarrow> list_all (\<lambda>c. (of_char c :: nat) < 128) (join CRLF ls)"
proof (induction CRLF ls rule: join.induct)
  case (2 x)
  then show ?case by (simp add: printable_ascii)
next
  case (3 x y ys)
  then have "list_all (\<lambda>c. (of_char c :: nat) < 128) x" by (simp add: printable_ascii)
  then show ?case using 3 by (simp add: CRLF_def)
qed simp

lemma header_names:
  "eq_ignore_ascii_case ''Content-Length'' ''content-length''"
  "\<not> eq_ignore_ascii_case ''Authorization'' ''content-length''"
  "eq_ignore_ascii_case ''Authorization'' ''authorization''"
  by code_simp+

lemma header_line_length:
  assumes "length body < 2 ^ 64"
  shows "header_line (''Content-Length: '' @ to_dec (length body)) (n, a) = (length body, a)"
proof -
  have ends: "graphic [hd (to_dec k)]" "graphic [last (to_dec k)]" for k
    using to_dec_graphic [of k] by (auto simp: graphic_def list_all_iff)
  have "split_once (CHR '':'') (''Content-Length: '' @ to_dec (length body)) = Some (''Content-Length'', CHR '' '' # to_dec (length body))"
    by simp
  moreover have "trim ''Content-Length'' = ''Content-Length''" by (rule trim_padded) simp_all
  moreover have "trim (CHR '' '' # to_dec (length body)) = to_dec (length body)" by (rule trim_padded) (simp_all add: ends del: graphic_simps)
  moreover have "parse_dec (2 ^ 64 - 1) (to_dec (length body)) = Ok (length body)"
    using assms by (intro parse_dec_to_dec) simp
  ultimately show ?thesis by (simp add: header_line_def header_names)
qed

lemma header_line_auth:
  assumes "v \<noteq> []" "graphic [hd v]" "graphic [last v]"
  shows "header_line (''Authorization: '' @ v) (n, a) = (n, Some v)"
proof -
  have "split_once (CHR '':'') (''Authorization: '' @ v) = Some (''Authorization'', CHR '' '' # v)" by simp
  moreover have "trim ''Authorization'' = ''Authorization''" by (rule trim_padded) simp_all
  moreover have "trim (CHR '' '' # v) = v" by (rule trim_padded) (rule assms)+
  ultimately show ?thesis by (simp add: header_line_def header_names)
qed

lemma parse_head_text:
  assumes wf: "head_wf meth path auth" and len: "length body < 2 ^ 64"
  shows "parse_head (str_bytes (join CRLF (head_lines meth path auth body))) = (meth, path, length body, auth)"
proof -
  let ?ls = "head_lines meth path auth body"
  note facts = head_lines_facts [OF wf, of body]
  have "utf8_valid (str_bytes (join CRLF ?ls))"
    using printable_join [OF facts(3)] by (intro utf8_valid_ascii) (auto simp: str_bytes_def list_all_iff unat_of_nat)
  then have spl: "split_str CRLF [] (bytes_str (from_utf8_lossy (str_bytes (join CRLF ?ls)))) = ?ls"
    using split_str_join [OF facts(1,3)] by (simp add: from_utf8_lossy_valid)
  have "split_whitespace (join '' '' [meth, path, ''HTTP/1.1'']) = [meth, path, ''HTTP/1.1'']"
    using wf by (intro split_whitespace_join) (simp add: head_wf_def)
  then have words: "split_whitespace (hd ?ls) = [meth, path, ''HTTP/1.1'']" by (simp add: head_lines_def)
  have "fold header_line (tl ?ls) (0, None) = (length body, auth)"
    using wf len
    by (cases auth) (auto simp: head_lines_def head_wf_def header_line_length header_line_auth simp del: append.simps graphic_simps)
  with spl words show ?thesis by (simp add: parse_head_def nth_opt_def)
qed

lemma read_request_text:
  assumes wf: "head_wf meth path auth" and len: "length body < 2 ^ 64"
    and head: "length (join CRLF (head_lines meth path auth body)) + 1028 \<le> 2 ^ 20"
    and chunks: "concat chunks = http_text meth path auth body" "list_all (\<lambda>c. c \<noteq> [] \<and> length c \<le> 1024) chunks"
  shows "read_request chunks = Ok (Some (meth, path, auth, body))"
proof -
  let ?h = "join CRLF (head_lines meth path auth body)"
  have "find_subsequence (concat chunks) HEADER_MARK = Some (length ?h)"
    unfolding chunks(1) http_text_def by (rule find_mark_join) (rule head_lines_facts [OF wf])+
  from read_request_chunks [OF this head chunks(2)] show ?thesis
    using parse_head_text [OF wf len] chunks(1) by (simp add: http_text_def HEADER_MARK_def)
qed

lemma to_dec_length: "n < 10 ^ Suc k \<Longrightarrow> length (to_dec n) \<le> Suc k"
proof (induction k arbitrary: n)
  case 0
  then show ?case by (simp add: to_dec.simps [of n])
next
  case (Suc k)
  then have "n div 10 < 10 ^ Suc k" by (simp add: less_mult_imp_div_less mult.commute)
  with Suc.IH [of "n div 10"] show ?case by (subst to_dec.simps) simp
qed

section \<open>Every request keeps the registry well formed\<close>

definition keeps_ok :: "'s http_result \<Rightarrow> bool" where
  "keeps_ok r \<longleftrightarrow> manager_ok (cs_manager (snd r))"

lemma keeps_ok_with_body: "manager_ok (cs_manager st) \<Longrightarrow> (\<And>b. keeps_ok (k b)) \<Longrightarrow> keeps_ok (with_body env names de body st k)"
  by (auto simp: keeps_ok_def with_body_def split: sum.splits option.splits)

lemma keeps_ok_with_id: "manager_ok (cs_manager st) \<Longrightarrow> (\<And>i. keeps_ok (k i)) \<Longrightarrow> keeps_ok (with_id env nm msg s st k)"
  by (auto simp: keeps_ok_def with_id_def split: result.splits)

lemma keeps_ok_resolve:
  assumes "manager_ok (cs_manager st)" "\<And>i st'. manager_ok (cs_manager st') \<Longrightarrow> keeps_ok (k i st')"
  shows "keeps_ok (resolve_tenant env raw st k)"
  unfolding resolve_tenant_def Let_def
  using assms manager_get_or_create_ok(1) [OF assms(1)]
  by (auto intro!: keeps_ok_with_id split: option.splits)

lemma manager_create_ok: "manager_ok m \<Longrightarrow> manager_create i m = Ok m' \<Longrightarrow> manager_ok m'"
  using manager_get_None [of m i] build_tenant_ok [of m]
  by (auto simp: manager_create_def manager_ok_def tenant_ids_def split: if_splits)

lemma manager_remove_ok: "manager_ok m \<Longrightarrow> manager_remove i m = (m', b) \<Longrightarrow> manager_ok m'"
  by (auto simp: manager_remove_def manager_ok_def tenant_ids_def distinct_map_filter)

lemmas route_defs = delete_tenant_route_def create_tenant_route_def create_timeline_route_def branch_route_def
  receive_route_def gc_route_def list_timelines_route_def

lemma timeline_routes_ok:
  assumes ok: "manager_ok (cs_manager st)"
  shows "keeps_ok (create_timeline_route env body st)" "keeps_ok (branch_route env body st)"
    "keeps_ok (receive_route env body st)" "keeps_ok (gc_route env body st)" "keeps_ok (list_timelines_route env query st)"
proof -
  note set_ok = set_tenant_facts(1)
  show "keeps_ok (create_timeline_route env body st)"
    unfolding create_timeline_route_def
    by (intro keeps_ok_with_body keeps_ok_resolve keeps_ok_with_id ok)
       (auto simp: keeps_ok_def split: result.splits dest: create_timeline_ok(1) [OF current_tenant_ok] intro: set_ok)
  show "keeps_ok (branch_route env body st)"
    unfolding branch_route_def
    by (intro keeps_ok_with_body keeps_ok_resolve ok)
       (auto simp: keeps_ok_def split: result.splits option.splits dest: branch_timeline_ok(1) [OF current_tenant_ok] intro: set_ok)
  show "keeps_ok (receive_route env body st)"
    unfolding receive_route_def
    by (intro keeps_ok_with_body keeps_ok_resolve keeps_ok_with_id ok) (auto simp: keeps_ok_def split: option.splits)
  show "keeps_ok (gc_route env body st)"
    unfolding gc_route_def
    by (intro keeps_ok_with_body keeps_ok_resolve ok)
       (auto simp: keeps_ok_def case_prod_beta Let_def intro!: set_ok gc_ok current_tenant_ok)
  show "keeps_ok (list_timelines_route env query st)"
    unfolding list_timelines_route_def by (intro keeps_ok_resolve ok) (simp add: keeps_ok_def)
qed

lemma tenant_routes_ok:
  assumes ok: "manager_ok (cs_manager st)"
  shows "keeps_ok (create_tenant_route env body st)" "keeps_ok (delete_tenant_route env i st)"
proof -
  show "keeps_ok (create_tenant_route env body st)"
    unfolding create_tenant_route_def
    by (intro keeps_ok_with_body keeps_ok_with_id ok)
       (use ok manager_create_ok in \<open>auto simp: keeps_ok_def split: result.splits\<close>)
  show "keeps_ok (delete_tenant_route env i st)"
    unfolding delete_tenant_route_def
    by (intro keeps_ok_with_id ok) (use manager_remove_ok [OF ok] in \<open>auto simp: keeps_ok_def split: prod.splits bool.splits\<close>)
qed

lemma route_ok: "manager_ok (cs_manager st) \<Longrightarrow> keeps_ok (route env meth path query body st)"
  using timeline_routes_ok [of st] tenant_routes_ok [of st]
  by (auto simp: route_def keeps_ok_def split: option.splits)

lemma gated_route_ok: "manager_ok (cs_manager st) \<Longrightarrow> keeps_ok (gated_route env token meth raw auth body st)"
  using route_ok [of st] by (auto simp: gated_route_def keeps_ok_def split: option.splits prod.splits)

lemma http_handle_ok:
  assumes "manager_ok (cs_manager st)"
  shows "manager_ok (cs_manager (snd (http_handle env token chunks st)))"
  using assms gated_route_ok [OF assms]
  by (auto simp: http_handle_def keeps_ok_def split: result.splits option.splits prod.splits)
     (metis snd_conv)+

section \<open>The client's calls\<close>

definition client_text :: "'s http_env \<Rightarrow> string option \<Rightarrow> http_call \<Rightarrow> bytes" where
  "client_text env token call =
     http_text (call_method call) (call_path call) (client_auth token)
       (case call_body call of Some j \<Rightarrow> str_bytes (he_print env j) | None \<Rightarrow> [])"

lemmas de_defs = de_tenant_def de_create_def de_branch_def de_receive_def de_gc_def struct_fields_def de_str_def de_u64_def
  de_opt_str_def with_tenant_field_def

lemma client_bodies:
  "de_tenant (JObj [(''id'', JStr i)]) = Some \<lparr>tb_id = i\<rparr>"
  "de_create (with_tenant_field [(''id'', JStr i)] t) = Some \<lparr>cb_id = i, cb_tenant = t\<rparr>"
  "de_branch (with_tenant_field [(''timeline'', JStr n), (''parent'', JStr p), (''lsn'', JNum (unat l))] t) =
     Some \<lparr>bb_timeline = n, bb_parent = p, bb_lsn = l, bb_tenant = t\<rparr>"
  "de_receive (with_tenant_field [(''timeline'', JStr n), (''safekeeper'', JStr p), (''start_lsn'', JNum (unat l))] t) =
     Some \<lparr>rb_timeline = n, rb_safekeeper = p, rb_start_lsn = l, rb_tenant = t\<rparr>"
  "de_gc (with_tenant_field [(''horizon_lsn'', JNum (unat l))] t) = Some \<lparr>gb_horizon_lsn = l, gb_tenant = t\<rparr>"
  using unat_bounds(4) [of l] by (cases t; simp add: de_defs)+

definition target_tenant :: "TenantId option \<Rightarrow> TenantId" where
  "target_tenant t = (case t of Some i \<Rightarrow> i | None \<Rightarrow> ZERO)"

definition provisioned :: "TenantId \<Rightarrow> 's control_state \<Rightarrow> 's control_state" where
  "provisioned i st = st\<lparr>cs_manager := fst (manager_get_or_create i (cs_manager st))\<rparr>"

lemma resolve_tenant_display:
  "resolve_tenant env (map_option id_display t) st k = k (target_tenant t) (provisioned (target_tenant t) st)"
  by (cases t) (simp_all add: resolve_tenant_def with_id_def id_parse_display target_tenant_def provisioned_def)

lemma branch_route_client:
  assumes "he_parse env body = Inr (with_tenant_field [(''timeline'', JStr (id_display n)), (''parent'', JStr (id_display p)), (''lsn'', JNum (unat l))]
      (map_option id_display t))"
  shows "branch_route env body st =
    (let i = target_tenant t; st1 = provisioned i st in
     case branch_timeline n p l (current_tenant i st1) of
       Ok ten \<Rightarrow> (Ok (201, he_print env (JObj [(''branched'', JStr (id_display n)), (''parent'', JStr (id_display p)), (''lsn'', JNum (unat l))])),
         set_tenant i ten st1)
     | Err e \<Rightarrow> (Ok (http_err env 409 (tenant_error_display e)), st1)
     | Panic \<Rightarrow> (Panic, st1))"
  using assms by (simp add: branch_route_def with_body_def client_bodies resolve_tenant_display Let_def split: result.split)

lemma gated_route_token:
  assumes "CHR ''?'' \<notin> set path" "token = None \<or> auth = client_auth token"
  shows "gated_route env token meth path auth body st = route env meth path [] body st"
proof -
  have "split_once (CHR ''?'') path = None" using assms(1) by (induction path) auto
  then show ?thesis using assms(2) by (auto simp: gated_route_def client_auth_def split: option.splits)
qed

section \<open>Main results\<close>


definition sample_body :: json where
  "sample_body = with_tenant_field [(''timeline'', JStr (id_display 2)), (''parent'', JStr (id_display 1)), (''lsn'', JNum (unat (25 :: u64)))] None"

definition sample_http :: "LocalStore http_env" where
  "sample_http = \<lparr>he_ctl = local_env, he_parse = (\<lambda>_. Inr sample_body), he_error = (\<lambda>_ _. []), he_print = (\<lambda>_. ''{}'')\<rparr>"




end
