(* ===== verification/Redo_Proto.thy ===== *)
theory Redo_Proto
  imports Wal_Redo
begin

text \<open>
  The pipe protocol between the page server and a wal-redo process (\<open>pageserver/src/walredo_proto.rs\<close>).
  Constants that share a name with those of the WAL service are prefixed with \<open>REDO_\<close>.  Both messages
  satisfy the contract \<open>codec\<close>.
\<close>

unbundle bit_operations_syntax

section \<open>Messages\<close>

definition REQ_MAGIC :: u32 where "REQ_MAGIC = 0x57524431"
definition RESP_MAGIC :: u32 where "RESP_MAGIC = 0x57525231"
definition REDO_VERSION :: u8 where "REDO_VERSION = 1"
definition FLAG_HAS_BASE :: u8 where "FLAG_HAS_BASE = 1"
definition RESP_HEADER_LEN :: nat where "RESP_HEADER_LEN = 8"
definition REDO_STATUS_OK :: u8 where "REDO_STATUS_OK = 0"
definition REDO_STATUS_ERR :: u8 where "REDO_STATUS_ERR = 1"

datatype ProtoError =
    ProtoTruncated string
  | BadMagic u32 u32
  | BadVersion u8
  | BadBaseSize nat
  | BadStatus u8

record RedoRequest =
  rq_rel :: RelTag
  rq_blkno :: u32
  base_image :: "bytes option"
  rq_records :: "(Lsn \<times> bytes) list"

datatype RedoResponse = RedoPage bytes | RedoErrorMsg string

definition slice_get :: "bytes \<Rightarrow> nat \<Rightarrow> nat \<Rightarrow> string \<Rightarrow> (ProtoError, bytes) result" where
  "slice_get b off n what = (if off + n \<le> length b then Ok (take n (drop off b)) else Err (ProtoTruncated what))"

definition slice_u8 :: "bytes \<Rightarrow> nat \<Rightarrow> string \<Rightarrow> (ProtoError, u8) result" where
  "slice_u8 b off what = (if off < length b then Ok (b ! off) else Err (ProtoTruncated what))"

definition redo_get_u32 :: "bytes \<Rightarrow> nat \<Rightarrow> string \<Rightarrow> (ProtoError, u32) result" where
  "redo_get_u32 b off what = rbind (slice_get b off 4 what) (\<lambda>s. Ok (u32_of_be s))"

definition redo_get_u64 :: "bytes \<Rightarrow> nat \<Rightarrow> string \<Rightarrow> (ProtoError, u64) result" where
  "redo_get_u64 b off what = rbind (slice_get b off 8 what) (\<lambda>s. Ok (u64_of_be s))"

section \<open>Requests\<close>

definition redo_request_header :: "RedoRequest \<Rightarrow> bytes" where
  "redo_request_header r =
     u32_to_be REQ_MAGIC @ [REDO_VERSION, if base_image r \<noteq> None then FLAG_HAS_BASE else 0, 0, 0]
     @ u32_to_be (spc_node (rq_rel r)) @ u32_to_be (db_node (rq_rel r)) @ u32_to_be (rel_node (rq_rel r))
     @ [fork_raw (fork (rq_rel r)), 0, 0, 0] @ u32_to_be (rq_blkno r)"

definition redo_record_encode :: "Lsn \<times> bytes \<Rightarrow> bytes" where
  "redo_record_encode x = u64_to_be (fst x) @ u32_to_be (of_nat (length (snd x))) @ snd x"

definition redo_request_encode :: "RedoRequest \<Rightarrow> bytes" where
  "redo_request_encode r =
     redo_request_header r
     @ (case base_image r of Some img \<Rightarrow> img | None \<Rightarrow> [])
     @ u32_to_be (of_nat (length (rq_records r)))
     @ concat (map redo_record_encode (rq_records r))"

fun redo_read_records :: "bytes \<Rightarrow> nat \<Rightarrow> nat \<Rightarrow> (ProtoError, (Lsn \<times> bytes) list) result" where
  "redo_read_records buf 0 pos = Ok []"
| "redo_read_records buf (Suc n) pos =
     rbind (redo_get_u64 buf pos ''record lsn'') (\<lambda>lsn.
     rbind (redo_get_u32 buf (pos + 8) ''record len'') (\<lambda>len.
     rbind (slice_get buf (pos + 12) (unat len) ''record bytes'') (\<lambda>r.
     rbind (redo_read_records buf n (pos + 12 + unat len)) (\<lambda>rs.
     Ok ((lsn, r) # rs)))))"

definition redo_request_decode :: "bytes \<Rightarrow> (ProtoError, RedoRequest) result" where
  "redo_request_decode buf =
     rbind (redo_get_u32 buf 0 ''magic'') (\<lambda>magic.
     if magic \<noteq> REQ_MAGIC then Err (BadMagic magic REQ_MAGIC)
     else rbind (slice_u8 buf 4 ''version'') (\<lambda>version.
     if version \<noteq> REDO_VERSION then Err (BadVersion version)
     else rbind (slice_u8 buf 5 ''flags'') (\<lambda>flags.
     rbind (redo_get_u32 buf 8 ''spc'') (\<lambda>spc.
     rbind (redo_get_u32 buf 12 ''db'') (\<lambda>db.
     rbind (redo_get_u32 buf 16 ''relnode'') (\<lambda>relnode.
     rbind (slice_u8 buf 20 ''fork'') (\<lambda>raw.
     rbind (ok_or (from_raw raw) (ProtoTruncated ''fork'')) (\<lambda>fk.
     rbind (redo_get_u32 buf 24 ''blkno'') (\<lambda>blk.
     rbind (if flags AND FLAG_HAS_BASE \<noteq> 0
            then rbind (slice_get buf 28 PAGE_SIZE ''base image'') (\<lambda>img. Ok (Some img, 28 + PAGE_SIZE))
            else Ok (None, 28)) (\<lambda>(base, pos).
     rbind (redo_get_u32 buf pos ''n_records'') (\<lambda>n.
     rbind (redo_read_records buf (unat n) (pos + 4)) (\<lambda>rs.
     Ok \<lparr>rq_rel = RelTag spc db relnode fk, rq_blkno = blk, base_image = base, rq_records = rs\<rparr>))))))))))))"

section \<open>Responses\<close>

definition redo_response_encode :: "RedoResponse \<Rightarrow> bytes" where
  "redo_response_encode r =
     u32_to_be RESP_MAGIC @ [REDO_VERSION]
     @ (case r of
          RedoPage page \<Rightarrow> [REDO_STATUS_OK, 0, 0] @ page
        | RedoErrorMsg msg \<Rightarrow> [REDO_STATUS_ERR, 0, 0] @ u32_to_be (of_nat (length (str_bytes msg))) @ str_bytes msg)"

definition redo_response_decode :: "bytes \<Rightarrow> (ProtoError, RedoResponse) result" where
  "redo_response_decode buf =
     rbind (redo_get_u32 buf 0 ''magic'') (\<lambda>magic.
     if magic \<noteq> RESP_MAGIC then Err (BadMagic magic RESP_MAGIC)
     else rbind (slice_u8 buf 4 ''version'') (\<lambda>version.
     if version \<noteq> REDO_VERSION then Err (BadVersion version)
     else rbind (slice_u8 buf 5 ''status'') (\<lambda>status.
     if status = REDO_STATUS_OK then
       rbind (slice_get buf RESP_HEADER_LEN PAGE_SIZE ''page'') (\<lambda>page. Ok (RedoPage page))
     else if status = REDO_STATUS_ERR then
       rbind (redo_get_u32 buf RESP_HEADER_LEN ''error len'') (\<lambda>len.
       rbind (slice_get buf (RESP_HEADER_LEN + 4) (unat len) ''error msg'') (\<lambda>msg.
       Ok (RedoErrorMsg (bytes_str (from_utf8_lossy msg)))))
     else Err (BadStatus status))))"

section \<open>Round trips\<close>

definition redo_request_wf :: "RedoRequest \<Rightarrow> bool" where
  "redo_request_wf r \<longleftrightarrow> (\<forall>img. base_image r = Some img \<longrightarrow> length img = PAGE_SIZE) \<and>
     length (rq_records r) < 2 ^ 32 \<and> (\<forall>x \<in> set (rq_records r). length (snd x) < 2 ^ 32)"

fun redo_response_wf :: "RedoResponse \<Rightarrow> bool" where
  "redo_response_wf (RedoPage page) \<longleftrightarrow> length page = PAGE_SIZE"
| "redo_response_wf (RedoErrorMsg msg) \<longleftrightarrow> length msg < 2 ^ 32 \<and> utf8_valid (str_bytes msg)"

lemma slice_skip [codec]:
  "length xs \<le> off \<Longrightarrow> slice_get (xs @ ys) off n what = slice_get ys (off - length xs) n what"
  "length xs \<le> off \<Longrightarrow> slice_u8 (xs @ ys) off what = slice_u8 ys (off - length xs) what"
  "length xs \<le> off \<Longrightarrow> redo_get_u32 (xs @ ys) off what = redo_get_u32 ys (off - length xs) what"
  "length xs \<le> off \<Longrightarrow> redo_get_u64 (xs @ ys) off what = redo_get_u64 ys (off - length xs) what"
  by (auto simp: slice_get_def slice_u8_def redo_get_u32_def redo_get_u64_def nth_append)

lemma slice_skip1 [codec]:
  "0 < off \<Longrightarrow> slice_get (x # ys) off n what = slice_get ys (off - 1) n what"
  "0 < off \<Longrightarrow> slice_u8 (x # ys) off what = slice_u8 ys (off - 1) what"
  "0 < off \<Longrightarrow> redo_get_u32 (x # ys) off what = redo_get_u32 ys (off - 1) what"
  "0 < off \<Longrightarrow> redo_get_u64 (x # ys) off what = redo_get_u64 ys (off - 1) what"
  using slice_skip [of "[x]" off ys] by simp_all

lemma slice_here [codec]:
  "length xs = n \<Longrightarrow> slice_get (xs @ ys) 0 n what = Ok xs" "length xs = n \<Longrightarrow> slice_get xs 0 n what = Ok xs"
  "slice_u8 (x # ys) 0 what = Ok x"
  "redo_get_u32 (u32_to_be v @ ys) 0 what = Ok v" "redo_get_u64 (u64_to_be w @ ys) 0 what = Ok w"
  by (auto simp: slice_get_def slice_u8_def redo_get_u32_def redo_get_u64_def)

lemma redo_read_records_encode:
  "\<forall>x \<in> set rs. length (snd x) < 2 ^ 32 \<Longrightarrow>
   redo_read_records (pre @ concat (map redo_record_encode rs) @ rest) (length rs) (length pre) = Ok rs"
proof (induction rs arbitrary: pre)
  case (Cons x rs)
  have "redo_read_records ((pre @ redo_record_encode x) @ concat (map redo_record_encode rs) @ rest) (length rs)
      (length (pre @ redo_record_encode x)) = Ok rs"
    using Cons by (intro Cons.IH) simp
  moreover have "length (redo_record_encode x) = 12 + length (snd x)" by (simp add: redo_record_encode_def)
  moreover obtain lsn r where x: "x = (lsn, r)" by (cases x)
  ultimately show ?case
    using Cons.prems by (simp add: redo_record_encode_def [of "(lsn, r)"] codec unat_of_nat add.assoc)
qed simp

lemma redo_request_decode_encode:
  assumes "redo_request_wf r"
  shows "redo_request_decode (redo_request_encode r @ rest) = Ok r"
proof -
  let ?h = "redo_request_header r" and ?b = "case base_image r of Some img \<Rightarrow> img | None \<Rightarrow> []"
  let ?n = "u32_to_be (of_nat (length (rq_records r)))" and ?rs = "concat (map redo_record_encode (rq_records r))"
  have h: "length ?h = 28" by (simp add: redo_request_header_def)
  have n: "unat (of_nat (length (rq_records r)) :: u32) = length (rq_records r)"
    using assms by (simp add: redo_request_wf_def unat_of_nat)
  have b: "length ?b = (if base_image r = None then 0 else PAGE_SIZE)"
    using assms by (auto simp: redo_request_wf_def split: option.splits)
  have recs: "redo_read_records (?h @ ?b @ ?n @ ?rs @ rest) (length (rq_records r)) (32 + length ?b) = Ok (rq_records r)"
    using redo_read_records_encode [of "rq_records r" "?h @ ?b @ ?n" rest] assms h
    by (simp add: redo_request_wf_def add.commute)
  show ?thesis
    using n recs b
    by (cases "base_image r"; cases "rq_rel r")
       (simp_all add: redo_request_decode_def redo_request_encode_def redo_request_header_def codec FLAG_HAS_BASE_def PAGE_SIZE_def)
qed

interpretation redo_request_codec: codec redo_request_encode redo_request_decode redo_request_wf
  by unfold_locales (rule redo_request_decode_encode)

interpretation redo_response_codec: codec redo_response_encode redo_response_decode redo_response_wf
proof
  fix r rest
  assume "redo_response_wf r"
  then show "redo_response_decode (redo_response_encode r @ rest) = Ok r"
    by (cases r)
       (simp_all add: redo_response_decode_def redo_response_encode_def codec RESP_HEADER_LEN_def REDO_STATUS_OK_def
         REDO_STATUS_ERR_def unat_of_nat from_utf8_lossy_valid)
qed

lemma redo_read_records_no_panic: "redo_read_records buf n pos \<noteq> Panic"
  by (induction buf n pos rule: redo_read_records.induct)
     (auto simp: rbind_eq_Panic redo_get_u64_def redo_get_u32_def slice_get_def)

lemma redo_decode_no_panic: "redo_request_decode buf \<noteq> Panic" "redo_response_decode buf \<noteq> Panic"
  by (auto simp: redo_request_decode_def redo_response_decode_def rbind_eq_Panic redo_get_u32_def slice_get_def
      slice_u8_def redo_read_records_no_panic split: if_splits)

section \<open>Main results\<close>

text \<open>
  The pipe protocol: decoding an encoded request or response, whatever follows it in the buffer, gives
  it back, and decoding arbitrary bytes ends in a message or an error, never in a panic.
\<close>

theorem redo_messages_round_trip:
  "(redo_request_wf q \<longrightarrow> redo_request_decode (redo_request_encode q @ rest) = Ok q) \<and>
   (redo_response_wf a \<longrightarrow> redo_response_decode (redo_response_encode a @ rest) = Ok a) \<and>
   redo_request_decode buf \<noteq> Panic \<and> redo_response_decode buf \<noteq> Panic"
  using redo_request_codec.dec_enc_append redo_response_codec.dec_enc_append redo_decode_no_panic by blast

end
