(* ===== verification/Redo_Process.thy ===== *)
theory Redo_Process
  imports Redo_Proto
begin

text \<open>
  The redo backend that drives a child process (\<open>pageserver/src/walredo_process.rs\<close>).  The operating
  system is a parameter: starting a child, writing to and reading from its pipes, each of which may fail
  with a message.  Killing a dropped child has no effect the page server observes.  The locale
  \<open>redo_pipe\<close> holds the one law of \<open>read_exact\<close> the code relies on; any such child makes the manager
  satisfy the repository's contract \<open>redo_backend\<close>.  The theory \<open>Redo_Mock\<close> interprets it on the
  reference child.
\<close>

unbundle bit_operations_syntax

section \<open>The child's pipes\<close>

record ('w, 'p) redo_env =
  spawn_child :: "'w \<Rightarrow> (string + 'p) \<times> 'w"
  pipe_write :: "bytes \<Rightarrow> 'p \<Rightarrow> string + 'p"
  pipe_flush :: "'p \<Rightarrow> string + 'p"
  pipe_read :: "nat \<Rightarrow> 'p \<Rightarrow> string + (bytes \<times> 'p)"

definition read_reply :: "('w, 'p) redo_env \<Rightarrow> bytes \<Rightarrow> 'p \<Rightarrow> (RedoError, bytes) result \<times> 'p" where
  "read_reply env header p =
     (let magic = u32_of_be (take 4 header) in
      if magic \<noteq> RESP_MAGIC
      then (Err (Process (''bad response magic 0x'' @ concat (map hex_byte (u32_to_be magic)))), p)
      else if header ! 4 \<noteq> REDO_VERSION
      then (Err (Process (''bad response version '' @ to_dec (unat (header ! 4)))), p)
      else if header ! 5 = REDO_STATUS_OK then
        (case pipe_read env PAGE_SIZE p of
           Inl e \<Rightarrow> (Err (Process (''read page: '' @ e)), p)
         | Inr (page, p1) \<Rightarrow> (Ok page, p1))
      else if header ! 5 = REDO_STATUS_ERR then
        (case pipe_read env 4 p of
           Inl e \<Rightarrow> (Err (Process (''read error len: '' @ e)), p)
         | Inr (len, p1) \<Rightarrow>
             (case pipe_read env (unat (u32_of_be len)) p1 of
                Inl e \<Rightarrow> (Err (Process (''read error msg: '' @ e)), p1)
              | Inr (msg, p2) \<Rightarrow> (Err (RedoFailed (bytes_str (from_utf8_lossy msg))), p2)))
      else (Err (Process (''unknown response status '' @ to_dec (unat (header ! 5)))), p))"

definition exchange :: "('w, 'p) redo_env \<Rightarrow> RedoRequest \<Rightarrow> 'p \<Rightarrow> (RedoError, bytes) result \<times> 'p" where
  "exchange env req p =
     (case pipe_write env (redo_request_encode req) p of
        Inl e \<Rightarrow> (Err (Process (''write request: '' @ e)), p)
      | Inr p1 \<Rightarrow>
          (case pipe_flush env p1 of
             Inl e \<Rightarrow> (Err (Process (''flush request: '' @ e)), p1)
           | Inr p2 \<Rightarrow>
               (case pipe_read env RESP_HEADER_LEN p2 of
                  Inl e \<Rightarrow> (Err (Process (''read response header: '' @ e)), p2)
                | Inr (header, p3) \<Rightarrow> read_reply env header p3)))"

section \<open>The manager\<close>

text \<open>The state is the running child, if any, and the operating system; two attempts per request.\<close>

fun redo_attempts ::
  "('w, 'p) redo_env \<Rightarrow> RedoRequest \<Rightarrow> nat \<Rightarrow> 'p option \<times> 'w \<Rightarrow> (RedoError, bytes) result \<times> 'p option \<times> 'w" where
  "redo_attempts env req 0 st = (Panic, st)"
| "redo_attempts env req (Suc k) (proc, w) =
     (case (case proc of Some p \<Rightarrow> (Inr p, w) | None \<Rightarrow> spawn_child env w) of
        (Inl e, w1) \<Rightarrow> (Err (Process e), None, w1)
      | (Inr p, w1) \<Rightarrow>
          (case exchange env req p of
             (Ok page, p1) \<Rightarrow> (Ok page, Some p1, w1)
           | (Err (RedoFailed m), p1) \<Rightarrow> (Err (RedoFailed m), Some p1, w1)
           | (Err e, p1) \<Rightarrow> (if k = 0 then (Err e, None, w1) else redo_attempts env req k (None, w1))
           | (Panic, p1) \<Rightarrow> (Panic, Some p1, w1)))"

definition redo_page ::
  "('w, 'p) redo_env \<Rightarrow> RelTag \<Rightarrow> u32 \<Rightarrow> bytes option \<Rightarrow> (Lsn \<times> bytes) list \<Rightarrow> 'p option \<times> 'w \<Rightarrow>
   (RedoError, bytes) result \<times> 'p option \<times> 'w" where
  "redo_page env rl blk base records st =
     redo_attempts env \<lparr>rq_rel = rl, rq_blkno = blk, base_image = base, rq_records = records\<rparr> 2 st"

text \<open>The page under reconstruction, whether it holds a base, and the records not yet sent.\<close>

type_synonym redo_acc = "bytes \<times> bool \<times> (Lsn \<times> bytes) list"

definition flush_pending ::
  "('w, 'p) redo_env \<Rightarrow> PageKey \<Rightarrow> redo_acc \<Rightarrow> 'p option \<times> 'w \<Rightarrow> (RedoError, redo_acc) result \<times> 'p option \<times> 'w" where
  "flush_pending env key acc st =
     (case acc of (page, have_base, pending) \<Rightarrow>
        if pending = [] then (Ok acc, st)
        else
          (case redo_page env (rel key) (block key) (if have_base then Some page else None) pending st of
             (Ok result, st1) \<Rightarrow> (if length result \<noteq> length page then (Panic, st1) else (Ok (result, True, []), st1))
           | (Err e, st1) \<Rightarrow> (Err e, st1)
           | (Panic, st1) \<Rightarrow> (Panic, st1)))"

fun pg_replay ::
  "('w, 'p) redo_env \<Rightarrow> PageKey \<Rightarrow> history \<Rightarrow> redo_acc \<Rightarrow> 'p option \<times> 'w \<Rightarrow> (RedoError, bytes) result \<times> 'p option \<times> 'w" where
  "pg_replay env key [] acc st =
     (case flush_pending env key acc st of
        (Ok (page, _), st1) \<Rightarrow> (Ok page, st1)
      | (Err e, st1) \<Rightarrow> (Err e, st1)
      | (Panic, st1) \<Rightarrow> (Panic, st1))"
| "pg_replay env key ((lsn, v) # vs) acc st =
     (case v of
        WalRecord w \<Rightarrow>
          (case acc of (page, have_base, pending) \<Rightarrow> pg_replay env key vs (page, have_base, pending @ [(lsn, rec w)]) st)
      | _ \<Rightarrow>
          (case flush_pending env key acc st of
             (Ok (page, _, pending), st1) \<Rightarrow>
               (case apply_to v page of
                  Ok page1 \<Rightarrow> pg_replay env key vs (page1, True, pending) st1
                | Err e \<Rightarrow> (Err (Apply e), st1)
                | Panic \<Rightarrow> (Panic, st1))
           | (Err e, st1) \<Rightarrow> (Err e, st1)
           | (Panic, st1) \<Rightarrow> (Panic, st1)))"

definition pg_install_base :: "Lsn \<times> PageVersion \<Rightarrow> (RedoError, redo_acc) result" where
  "pg_install_base b =
     (case snd b of
        Image _ \<Rightarrow> rbind (map_err Apply (apply_to (snd b) (replicate PAGE_SIZE 0))) (\<lambda>page. Ok (page, True, []))
      | WalRecord w \<Rightarrow> Ok (replicate PAGE_SIZE 0, False, [(fst b, rec w)])
      | Delta _ \<Rightarrow> Panic)"

definition pg_reconstruct ::
  "('w, 'p) redo_env \<Rightarrow> PageKey \<Rightarrow> Lsn \<Rightarrow> history \<Rightarrow> 'p option \<times> 'w \<Rightarrow> (RedoError, bytes option) result \<times> 'p option \<times> 'w" where
  "pg_reconstruct env key request_lsn versions st =
     (case rposition (\<lambda>(_, v). is_base v) versions of
        None \<Rightarrow> (Ok None, st)
      | Some base \<Rightarrow>
          (case pg_install_base (versions ! base) of
             Ok acc \<Rightarrow>
               (case pg_replay env key (drop (base + 1) versions) acc st of
                  (Ok page, st1) \<Rightarrow> (Ok (Some page), st1)
                | (Err e, st1) \<Rightarrow> (Err e, st1)
                | (Panic, st1) \<Rightarrow> (Panic, st1))
           | Err e \<Rightarrow> (Err e, st)
           | Panic \<Rightarrow> (Panic, st)))"

section \<open>Any child\<close>

locale redo_pipe =
  fixes env :: "('w, 'p) redo_env"
  assumes read_length: "pipe_read env n p = Inr (bs, p') \<Longrightarrow> length bs = n"
begin

lemma read_reply_page: "read_reply env h p = (r, p') \<Longrightarrow> r \<noteq> Panic \<and> (\<forall>page. r = Ok page \<longrightarrow> length page = PAGE_SIZE)"
  by (auto simp: read_reply_def Let_def split: if_splits sum.splits prod.splits dest: read_length)

lemma exchange_page: "exchange env req p = (r, p') \<Longrightarrow> r \<noteq> Panic \<and> (\<forall>page. r = Ok page \<longrightarrow> length page = PAGE_SIZE)"
  by (auto simp: exchange_def split: sum.splits prod.splits dest: read_reply_page)

lemma redo_attempts_page:
  "redo_attempts env req (Suc k) st = (r, st') \<Longrightarrow> r \<noteq> Panic \<and> (\<forall>page. r = Ok page \<longrightarrow> length page = PAGE_SIZE)"
proof (induction k arbitrary: st)
  case 0
  then show ?case
    by (cases st) (auto split: sum.splits prod.splits option.splits result.splits RedoError.splits dest!: exchange_page)
next
  case (Suc k)
  obtain pr w where st: "st = (pr, w)" by (cases st)
  obtain m w1 where m: "(case pr of Some p \<Rightarrow> (Inr p, w) | None \<Rightarrow> spawn_child env w) = (m, w1)" by force
  show ?case
  proof (cases m)
    case (Inr p)
    obtain x p1 where x: "exchange env req p = (x, p1)" by (cases "exchange env req p")
    show ?thesis
    proof (cases x)
      case (Err e)
      then show ?thesis
        using Suc.prems st m Inr x Suc.IH [of "(None, w1)"]
        by (cases e) (auto simp del: redo_attempts.simps(2) simp: redo_attempts.simps(2) [of env req "Suc k"])
    qed (use Suc.prems st m Inr x exchange_page [OF x] in auto)
  qed (use Suc.prems st m in auto)
qed

lemma redo_page_page:
  "redo_page env rl blk base rs st = (r, st') \<Longrightarrow> r \<noteq> Panic \<and> (\<forall>page. r = Ok page \<longrightarrow> length page = PAGE_SIZE)"
  using redo_attempts_page [of _ 1] by (simp add: redo_page_def numeral_2_eq_2)

lemma flush_pending_page:
  assumes "flush_pending env key (page, hb, pend) st = (r, st')" "length page = PAGE_SIZE"
  shows "r \<noteq> Panic \<and> (\<forall>page' hb' pend'. r = Ok (page', hb', pend') \<longrightarrow> length page' = PAGE_SIZE)"
  using assms redo_page_page [of "rel key" "block key" "if hb then Some page else None" pend st]
  by (auto simp: flush_pending_def split: if_splits result.splits prod.splits)

lemma pg_replay_page:
  "pg_replay env key vs (page, hb, pend) st = (r, st') \<Longrightarrow> length page = PAGE_SIZE \<Longrightarrow>
   r \<noteq> Panic \<and> (\<forall>page'. r = Ok page' \<longrightarrow> length page' = PAGE_SIZE)"
proof (induction vs arbitrary: page hb pend st)
  case Nil
  then show ?case
    using flush_pending_page [of key page hb pend st] by (auto split: result.splits prod.splits)
next
  case (Cons e vs)
  obtain lsn v where e: "e = (lsn, v)" by (cases e)
  show ?case
  proof (cases "\<exists>w. v = WalRecord w")
    case True
    then obtain w where w: "v = WalRecord w" by blast
    show ?thesis using Cons.prems e w by (intro Cons.IH [of page hb "pend @ [(lsn, rec w)]" st]) simp_all
  next
    case False
    obtain f st1 where f: "flush_pending env key (page, hb, pend) st = (f, st1)" by (cases "flush_pending env key (page, hb, pend) st")
    note fp = flush_pending_page [OF f Cons.prems(2)]
    show ?thesis
    proof (cases f)
      case (Ok acc)
      obtain page1 hb1 pend1 where acc: "acc = (page1, hb1, pend1)" by (cases acc)
      have len: "length page1 = PAGE_SIZE" using fp Ok acc by auto
      have "pg_replay env key (e # vs) (page, hb, pend) st =
          (case apply_to v page1 of Ok page2 \<Rightarrow> pg_replay env key vs (page2, True, pend1) st1
           | Err x \<Rightarrow> (Err (Apply x), st1) | Panic \<Rightarrow> (Panic, st1))"
        using False e f Ok acc by (cases v) (simp_all del: apply_to.simps)
      then show ?thesis
        using Cons.prems(1) Cons.IH apply_to_length [OF _ len] apply_to_no_panic [OF len]
        by (cases "apply_to v page1") auto
    qed (use Cons.prems e f fp False in \<open>cases v; auto\<close>)+
  qed
qed

end

lemma pg_install_base_page: "pg_install_base b = Ok (page, hb, pend) \<Longrightarrow> length page = PAGE_SIZE"
  by (auto simp: pg_install_base_def rbind_eq_Ok split: PageVersion.splits if_splits)

lemma pg_install_base_no_panic: "is_base (snd b) \<Longrightarrow> pg_install_base b \<noteq> Panic"
  by (auto simp: pg_install_base_def split: PageVersion.splits)

lemma pg_reconstruct_at:
  assumes "is_base (snd b)" "\<forall>e \<in> set ys. \<not> is_base (snd e)"
  shows "pg_reconstruct env k l (xs @ b # ys) st =
    (case pg_install_base b of
       Ok acc \<Rightarrow>
         (case pg_replay env k ys acc st of
            (Ok page, st1) \<Rightarrow> (Ok (Some page), st1) | (Err e, st1) \<Rightarrow> (Err e, st1) | (Panic, st1) \<Rightarrow> (Panic, st1))
     | Err e \<Rightarrow> (Err e, st) | Panic \<Rightarrow> (Panic, st))"
proof -
  have "rposition (\<lambda>(_, v). is_base v) ys = None"
    using assms(2) by (simp add: rposition_None case_prod_beta)
  then have "rposition (\<lambda>(_, v). is_base v) (xs @ b # ys) = Some (length xs)"
    using assms(1) by (simp add: rposition_append case_prod_beta)
  then show ?thesis by (cases "pg_install_base b") (simp_all add: pg_reconstruct_def)
qed

lemma pg_reconstruct_no_base: "\<forall>e \<in> set vs. \<not> is_base (snd e) \<Longrightarrow> pg_reconstruct env k l vs st = (Ok None, st)"
  using rposition_None [of "\<lambda>(_, v). is_base v" vs] by (force simp: pg_reconstruct_def)

lemma history_cases:
  obtains "\<forall>e \<in> set vs. \<not> is_base (snd e)"
  | xs b ys where "vs = xs @ b # ys" "is_base (snd b)" "\<forall>e \<in> set ys. \<not> is_base (snd e)"
proof (cases "rposition (\<lambda>(_, v). is_base v) vs")
  case None
  then show ?thesis using that(1) by (simp add: rposition_None case_prod_beta)
next
  case (Some i)
  show ?thesis using rposition_split [OF Some] by (intro that(2) [of "take i vs" "vs ! i" "drop (Suc i) vs"]) (auto simp: case_prod_beta)
qed

context redo_pipe
begin

lemma pg_reconstruct_page:
  assumes "pg_reconstruct env k l vs st = (r, st')"
  shows "r \<noteq> Panic \<and> (\<forall>page. r = Ok (Some page) \<longrightarrow> length page = PAGE_SIZE)"
proof (cases rule: history_cases [of vs])
  case 1
  then show ?thesis using assms by (auto simp: pg_reconstruct_no_base)
next
  case (2 xs b ys)
  show ?thesis
  proof (cases "pg_install_base b")
    case (Ok acc)
    obtain page hb pend where acc: "acc = (page, hb, pend)" by (cases acc)
    obtain q st1 where q: "pg_replay env k ys acc st = (q, st1)" by (cases "pg_replay env k ys acc st")
    have "q \<noteq> Panic \<and> (\<forall>page'. q = Ok page' \<longrightarrow> length page' = PAGE_SIZE)"
      using pg_replay_page q acc Ok pg_install_base_page by blast
    then show ?thesis using assms 2 Ok q by (auto simp: pg_reconstruct_at split: result.splits)
  qed (use assms 2 pg_install_base_no_panic in \<open>auto simp: pg_reconstruct_at\<close>)
qed

end

sublocale redo_pipe \<subseteq> process: redo_backend "\<lambda>k l vs. fst (pg_reconstruct env k l vs st)" for st
proof
  fix vs :: history and k l b ys xs page bl and img :: bytes
  show "length img = PAGE_SIZE \<Longrightarrow> fst (pg_reconstruct env k l [(bl, Image img)] st) = Ok (Some img)"
    using pg_reconstruct_at [of "(bl, Image img)" "[]" env k l "[]" st] by (simp add: pg_install_base_def flush_pending_def)
  show "\<forall>e \<in> set vs. \<not> is_base (snd e) \<Longrightarrow> fst (pg_reconstruct env k l vs st) = Ok None"
    by (simp add: pg_reconstruct_no_base)
  show "is_base (snd b) \<Longrightarrow> \<forall>e \<in> set ys. \<not> is_base (snd e) \<Longrightarrow>
      fst (pg_reconstruct env k l (xs @ b # ys) st) = fst (pg_reconstruct env k l (b # ys) st)"
    using pg_reconstruct_at [of b ys env k l xs] pg_reconstruct_at [of b ys env k l "[]"] by simp
  show "is_base (snd b) \<Longrightarrow> b \<in> set vs \<Longrightarrow> fst (pg_reconstruct env k l vs st) \<noteq> Ok None"
    by (rule history_cases [of vs]) (auto simp: pg_reconstruct_at split: result.splits prod.splits)
  show "fst (pg_reconstruct env k l vs st) = Ok (Some page) \<Longrightarrow> length page = PAGE_SIZE"
    using pg_reconstruct_page by (metis prod.collapse)
  show "fst (pg_reconstruct env k l vs st) \<noteq> Panic"
    using pg_reconstruct_page by (metis prod.collapse)
qed

context redo_pipe
begin

lemma is_backend: "redo_backend (\<lambda>k l vs. fst (pg_reconstruct env k l vs st))"
  by (rule process.redo_backend_axioms)

end

section \<open>Main results\<close>

text \<open>
  C18.  Whatever the child answers and however the pipes fail, the manager is a redo backend for the
  repository: a history without a base has no image and any other has one or an error, only the versions
  from the last base on matter, a lone image is returned as it is, an image has 8192 bytes, and nothing
  panics.  The one thing asked of the operating system is that a read of n bytes that succeeds returns n
  bytes.
\<close>

theorem process_redo_is_backend:
  assumes "\<And>n p bs p'. pipe_read env n p = Inr (bs, p') \<Longrightarrow> length bs = n"
  shows "redo_backend (\<lambda>key lsn versions. fst (pg_reconstruct env key lsn versions st))"
  by (rule redo_pipe.is_backend [OF redo_pipe.intro]) (rule assms)

text \<open>A child whose pipes are closed.\<close>

definition dead_env :: "(nat, unit) redo_env" where
  "dead_env = \<lparr>spawn_child = (\<lambda>n. (Inr (), n + 1)), pipe_write = (\<lambda>bs p. Inr p), pipe_flush = Inr,
     pipe_read = (\<lambda>n p. Inl ''failed to fill whole buffer'')\<rparr>"

theorem process_redo_is_backend_witness:
  "redo_backend (\<lambda>key lsn versions. fst (pg_reconstruct dead_env key lsn versions (None, 0)))"
  by (rule process_redo_is_backend) (simp add: dead_env_def)

end
