(* ===== verification/Redo_Mock.thy ===== *)
theory Redo_Mock
  imports Redo_Process
begin

text \<open>
  The reference wal-redo process (\<open>pageserver/src/bin/aethel-walredo-mock.rs\<close>) behind the pipes of the
  manager of \<open>Redo_Process\<close>.  The process is a function of the bytes it has been sent: the bytes it has
  answered, and whether it has exited.  The flags \<open>--fail\<close> and \<open>--exit-after=N\<close> are arguments.  A child
  that has exited answers nothing more; whether a write to it still succeeds is up to the operating
  system and a parameter.  The main result is that the manager's batching, and restarting a child that
  went away between two requests, cannot be observed: the page is the one obtained by applying the
  versions one by one.
\<close>

unbundle bit_operations_syntax

section \<open>The process\<close>

datatype mock_error = MockEof | MockInvalid ProtoError

definition mock_read_exact :: "nat \<Rightarrow> bytes \<Rightarrow> (mock_error, bytes \<times> bytes) result" where
  "mock_read_exact n r = (if n \<le> length r then Ok (take n r, drop n r) else Err MockEof)"

fun mock_read_records :: "nat \<Rightarrow> bytes \<Rightarrow> bytes \<Rightarrow> (mock_error, bytes \<times> bytes) result" where
  "mock_read_records 0 buf r = Ok (buf, r)"
| "mock_read_records (Suc n) buf r =
     rbind (mock_read_exact 12 r) (\<lambda>(hdr, r1).
     rbind (mock_read_exact (unat (u32_of_be (drop 8 hdr))) r1) (\<lambda>(rc, r2).
     mock_read_records n (buf @ hdr @ rc) r2))"

definition mock_read_request :: "bytes \<Rightarrow> (mock_error, (RedoRequest \<times> bytes) option) result" where
  "mock_read_request r =
     (if length r < 28 then Ok None
      else
        let buf = take 28 r in
        rbind (if buf ! 5 AND FLAG_HAS_BASE \<noteq> 0
               then rbind (mock_read_exact PAGE_SIZE (drop 28 r)) (\<lambda>(base, r1). Ok (buf @ base, r1))
               else Ok (buf, drop 28 r)) (\<lambda>(buf, r1).
        rbind (mock_read_exact 4 r1) (\<lambda>(nbuf, r2).
        rbind (mock_read_records (unat (u32_of_be nbuf)) (buf @ nbuf) r2) (\<lambda>(buf, r3).
        rbind (map_err MockInvalid (redo_request_decode buf)) (\<lambda>req. Ok (Some (req, r3)))))))"

function apply_toy_edits :: "bytes \<Rightarrow> bytes \<Rightarrow> bytes" where
  "apply_toy_edits page r =
     (if length r < 4 then page
      else
        let off = unat (u16_of_be (take 2 r)); n = unat (u16_of_be (take 2 (drop 2 r))); r1 = drop 4 r in
        if length r1 < n then page
        else apply_toy_edits
          (if off + n \<le> length page then take off page @ take n r1 @ drop (off + n) page else page)
          (drop n r1))"
  by auto
termination by (relation "measure (\<lambda>(page, r). length r)") auto

definition mock_respond :: "bool \<Rightarrow> RedoRequest \<Rightarrow> RedoResponse" where
  "mock_respond fail req =
     (if fail then RedoErrorMsg ''forced failure (mock --fail)''
      else RedoPage (fold (\<lambda>(lsn, r) page. apply_toy_edits page r) (rq_records req)
        (case base_image req of Some img \<Rightarrow> img | None \<Rightarrow> replicate PAGE_SIZE 0)))"

lemma mock_read_records_shorter: "mock_read_records n buf r = Ok (buf', r') \<Longrightarrow> length r' \<le> length r"
  by (induction n buf r rule: mock_read_records.induct)
     (fastforce simp: rbind_eq_Ok mock_read_exact_def split: if_splits prod.splits)+

lemma mock_read_request_shorter:
  assumes "mock_read_request r = Ok (Some (req, r'))"
  shows "length r' < length r"
  using assms
  by (fastforce simp: mock_read_request_def Let_def rbind_eq_Ok mock_read_exact_def split: if_splits prod.splits
      dest!: mock_read_records_shorter)

text \<open>What has been answered when \<open>r\<close> has been sent, and whether the process is gone.\<close>

function mock_main :: "bool \<Rightarrow> u64 option \<Rightarrow> u64 \<Rightarrow> bytes \<Rightarrow> bytes \<times> bool" where
  "mock_main fail exit_after served r =
     (case mock_read_request r of
        Ok (Some (req, r1)) \<Rightarrow>
          (let resp = redo_response_encode (mock_respond fail req) in
           if exit_after = Some (served + 1) then (resp, True)
           else (case mock_main fail exit_after (served + 1) r1 of (out, gone) \<Rightarrow> (resp @ out, gone)))
      | Ok None \<Rightarrow> ([], False)
      | Err MockEof \<Rightarrow> ([], False)
      | Err (MockInvalid e) \<Rightarrow> ([], True)
      | Panic \<Rightarrow> ([], True))"
  by auto
termination by (relation "measure (\<lambda>(fail, exit_after, served, r). length r)") (auto dest: mock_read_request_shorter)

declare apply_toy_edits.simps [simp del] mock_main.simps [simp del]

section \<open>Its pipes\<close>

text \<open>A child is what it has been sent and how much of its answers has been read.\<close>

type_synonym mock_child = "bytes \<times> nat"

definition mock_env :: "bool \<Rightarrow> u64 option \<Rightarrow> (bytes \<Rightarrow> bool) \<Rightarrow> (nat, mock_child) redo_env" where
  "mock_env fail exit_after broken =
     \<lparr>spawn_child = (\<lambda>n. (Inr ([], 0), n + 1)),
      pipe_write = (\<lambda>bs (sent, pos).
        if snd (mock_main fail exit_after 0 sent) \<and> broken sent then Inl ''Broken pipe (os error 32)''
        else Inr (sent @ bs, pos)),
      pipe_flush = Inr,
      pipe_read = (\<lambda>n (sent, pos).
        let out = fst (mock_main fail exit_after 0 sent) in
        if pos + n \<le> length out then Inr (take n (drop pos out), (sent, pos + n))
        else Inl ''failed to fill whole buffer'')\<rparr>"

interpretation mock_pipe: redo_pipe "mock_env fail exit_after broken"
  by unfold_locales (auto simp: mock_env_def Let_def split: if_splits prod.splits)

section \<open>The requests the process serves\<close>

fun mock_serve :: "bool \<Rightarrow> u64 option \<Rightarrow> u64 \<Rightarrow> RedoRequest list \<Rightarrow> bytes \<times> bool" where
  "mock_serve fail exit_after served [] = ([], False)"
| "mock_serve fail exit_after served (q # qs) =
     (if exit_after = Some (served + 1) then (redo_response_encode (mock_respond fail q), True)
      else (redo_response_encode (mock_respond fail q) @ fst (mock_serve fail exit_after (served + 1) qs),
            snd (mock_serve fail exit_after (served + 1) qs)))"

lemma mock_read_records_encode:
  "\<forall>x \<in> set rs. length (snd x) < 2 ^ 32 \<Longrightarrow>
   mock_read_records (length rs) buf (concat (map redo_record_encode rs) @ rest) =
     Ok (buf @ concat (map redo_record_encode rs), rest)"
proof (induction rs arbitrary: buf)
  case (Cons x rs)
  obtain lsn r where x: "x = (lsn, r)" by (cases x)
  let ?hdr = "u64_to_be lsn @ u32_to_be (of_nat (length r))"
  have "mock_read_exact 12 (?hdr @ r @ concat (map redo_record_encode rs) @ rest) =
      Ok (?hdr, r @ concat (map redo_record_encode rs) @ rest)"
    using mock_read_exact_def [of 12 "?hdr @ r @ concat (map redo_record_encode rs) @ rest"] by simp
  moreover have "mock_read_exact (length r) (r @ concat (map redo_record_encode rs) @ rest) =
      Ok (r, concat (map redo_record_encode rs) @ rest)"
    by (simp add: mock_read_exact_def)
  ultimately show ?case
    using Cons x by (simp add: redo_record_encode_def [of "(lsn, r)"] unat_of_nat)
qed simp

lemma mock_read_request_encode:
  assumes "redo_request_wf q"
  shows "mock_read_request (redo_request_encode q @ rest) = Ok (Some (q, rest))"
proof -
  let ?h = "redo_request_header q" and ?b = "case base_image q of Some img \<Rightarrow> img | None \<Rightarrow> []"
  let ?n = "u32_to_be (of_nat (length (rq_records q)))" and ?rs = "concat (map redo_record_encode (rq_records q))"
  have h: "length ?h = 28" by (simp add: redo_request_header_def)
  have flag: "?h ! 5 = (if base_image q \<noteq> None then FLAG_HAS_BASE else 0)"
    by (simp add: redo_request_header_def nth_append)
  have n: "unat (of_nat (length (rq_records q)) :: u32) = length (rq_records q)"
    using assms by (simp add: redo_request_wf_def unat_of_nat)
  have b: "base_image q = Some img \<Longrightarrow> length img = PAGE_SIZE" for img
    using assms by (simp add: redo_request_wf_def)
  have count: "mock_read_exact 4 (?n @ ?rs @ rest) = Ok (?n, ?rs @ rest)"
    by (simp add: mock_read_exact_def)
  have recs: "mock_read_records (length (rq_records q)) ((?h @ ?b) @ ?n) (?rs @ rest) = Ok (redo_request_encode q, rest)"
    using mock_read_records_encode [of "rq_records q" "(?h @ ?b) @ ?n" rest] assms
    by (simp add: redo_request_wf_def redo_request_encode_def)
  have "redo_request_decode (redo_request_encode q) = Ok q"
    using redo_request_decode_encode [OF assms, of "[]"] by simp
  moreover have "redo_request_encode q @ rest = ?h @ ?b @ ?n @ ?rs @ rest" by (simp add: redo_request_encode_def)
  moreover have "base_image q = Some img \<Longrightarrow> mock_read_exact PAGE_SIZE (img @ r) = Ok (img, r)" for img r
    using b by (simp add: mock_read_exact_def)
  ultimately show ?thesis
    using h count recs n
    by (cases "base_image q") (simp_all add: mock_read_request_def Let_def flag FLAG_HAS_BASE_def)
qed

lemma mock_main_serves:
  "\<forall>q \<in> set qs. redo_request_wf q \<Longrightarrow>
   mock_main fail exit_after served (concat (map redo_request_encode qs)) = mock_serve fail exit_after served qs"
proof (induction qs arbitrary: served)
  case Nil
  show ?case by (subst mock_main.simps) (simp add: mock_read_request_def)
next
  case (Cons q qs)
  then show ?case
    by (subst mock_main.simps) (simp add: mock_read_request_encode Let_def case_prod_beta)
qed

lemma mock_serve_append:
  "mock_serve fail exit_after served (qs @ [q]) =
     (if snd (mock_serve fail exit_after served qs) then mock_serve fail exit_after served qs
      else (fst (mock_serve fail exit_after served qs) @ redo_response_encode (mock_respond fail q),
            exit_after = Some (served + of_nat (length qs) + 1)))"
  by (induction qs arbitrary: served) (auto simp: algebra_simps)

section \<open>One request\<close>

text \<open>A child is in sync when it has been sent whole requests and all its answers have been read.\<close>

fun in_sync :: "u64 option \<Rightarrow> mock_child option \<Rightarrow> bool" where
  "in_sync exit_after None \<longleftrightarrow> True"
| "in_sync exit_after (Some (sent, pos)) \<longleftrightarrow>
     (\<exists>qs. (\<forall>q \<in> set qs. redo_request_wf q) \<and> sent = concat (map redo_request_encode qs)) \<and>
     pos = length (fst (mock_main False exit_after 0 sent))"

abbreviation toy_records :: "(Lsn \<times> bytes) list \<Rightarrow> bytes \<Rightarrow> bytes" where
  "toy_records \<equiv> fold (\<lambda>(lsn, r) page. apply_toy_edits page r)"

abbreviation toy_page :: "RedoRequest \<Rightarrow> bytes" where
  "toy_page q \<equiv> toy_records (rq_records q) (case base_image q of Some img \<Rightarrow> img | None \<Rightarrow> replicate PAGE_SIZE 0)"

lemma apply_toy_edits_length [simp]: "length (apply_toy_edits page r) = length page"
proof (induction page r rule: apply_toy_edits.induct)
  case (1 page r)
  then show ?case by (subst apply_toy_edits.simps) (auto simp: Let_def)
qed

lemma toy_records_length [simp]: "length (toy_records rs page) = length page"
  by (induction rs arbitrary: page) auto

lemma toy_page_length: "redo_request_wf q \<Longrightarrow> length (toy_page q) = PAGE_SIZE"
  by (auto simp: redo_request_wf_def split: option.splits)

lemma mock_main_next:
  assumes "in_sync exit_after (Some (sent, pos))" "redo_request_wf q"
  defines "done \<equiv> mock_main False exit_after 0 sent"
    and "next \<equiv> mock_main False exit_after 0 (sent @ redo_request_encode q)"
  shows "snd done \<Longrightarrow> next = done"
    and "\<not> snd done \<Longrightarrow> fst next = fst done @ redo_response_encode (RedoPage (toy_page q))"
    and "\<exists>qs. (\<forall>x \<in> set qs. redo_request_wf x) \<and> sent @ redo_request_encode q = concat (map redo_request_encode qs)"
proof -
  obtain qs where qs: "\<forall>x \<in> set qs. redo_request_wf x" "sent = concat (map redo_request_encode qs)"
    using assms(1) by auto
  have d: "done = mock_serve False exit_after 0 qs"
    using qs by (simp add: done_def mock_main_serves)
  have "next = mock_serve False exit_after 0 (qs @ [q])"
    using qs assms(2) mock_main_serves [of "qs @ [q]" False exit_after 0] by (simp add: next_def)
  then show "snd done \<Longrightarrow> next = done" "\<not> snd done \<Longrightarrow> fst next = fst done @ redo_response_encode (RedoPage (toy_page q))"
    using d by (simp_all add: mock_serve_append mock_respond_def)
  show "\<exists>qs. (\<forall>x \<in> set qs. redo_request_wf x) \<and> sent @ redo_request_encode q = concat (map redo_request_encode qs)"
    using qs assms(2) by (intro exI [of _ "qs @ [q]"]) auto
qed

lemma exchange_gone:
  assumes "in_sync exit_after (Some (sent, pos))" "redo_request_wf q" "snd (mock_main False exit_after 0 sent)"
  shows "\<exists>m p. exchange (mock_env False exit_after broken) q (sent, pos) = (Err (Process m), p)"
  using mock_main_next(1) [OF assms] assms(1,3)
  by (simp add: exchange_def mock_env_def Let_def RESP_HEADER_LEN_def)

lemma exchange_live:
  assumes "in_sync exit_after (Some (sent, pos))" "redo_request_wf q" "\<not> snd (mock_main False exit_after 0 sent)"
  shows "\<exists>p. exchange (mock_env False exit_after broken) q (sent, pos) = (Ok (toy_page q), p) \<and> in_sync exit_after (Some p)"
proof -
  let ?h = "u32_to_be RESP_MAGIC @ [REDO_VERSION, REDO_STATUS_OK, 0, 0]"
  have "redo_response_encode (RedoPage (toy_page q)) = ?h @ toy_page q"
    by (simp add: redo_response_encode_def)
  then have out: "fst (mock_main False exit_after 0 (sent @ redo_request_encode q)) =
      fst (mock_main False exit_after 0 sent) @ ?h @ toy_page q"
    using mock_main_next(2) [OF assms] by simp
  have pos: "pos = length (fst (mock_main False exit_after 0 sent))" using assms(1) by simp
  have reply: "read_reply (mock_env False exit_after broken) ?h p =
      (case pipe_read (mock_env False exit_after broken) PAGE_SIZE p of
         Inl e \<Rightarrow> (Err (Process (''read page: '' @ e)), p) | Inr (page, p1) \<Rightarrow> (Ok page, p1))" for p
    by (simp add: read_reply_def Let_def nth_append)
  have "exchange (mock_env False exit_after broken) q (sent, pos) =
      (Ok (toy_page q), (sent @ redo_request_encode q, pos + 8 + PAGE_SIZE))"
    using out pos reply [of "(sent @ redo_request_encode q, pos + 8)"] toy_page_length [OF assms(2)] assms(3)
    by (simp add: exchange_def RESP_HEADER_LEN_def mock_env_def Let_def)
  moreover have "in_sync exit_after (Some (sent @ redo_request_encode q, pos + 8 + PAGE_SIZE))"
    using mock_main_next(3) [OF assms(1,2)] out pos toy_page_length [OF assms(2)] by simp
  ultimately show ?thesis by blast
qed

lemma redo_attempts_mock:
  assumes "in_sync exit_after proc" "redo_request_wf q"
  shows "\<exists>proc' w'. redo_attempts (mock_env False exit_after broken) q 2 (proc, w) = (Ok (toy_page q), proc', w') \<and>
    in_sync exit_after proc'"
proof -
  let ?env = "mock_env False exit_after broken"
  have fresh: "in_sync exit_after (Some ([], 0))" "\<not> snd (mock_main False exit_after 0 [])"
    using mock_main_serves [of "[]" False exit_after 0] by (auto intro!: exI [of _ "[]"])
  obtain p where p: "exchange ?env q ([], 0) = (Ok (toy_page q), p)" "in_sync exit_after (Some p)"
    using exchange_live [OF fresh(1) assms(2) fresh(2)] by blast
  have spawn: "redo_attempts ?env q (Suc k) (None, w) = (Ok (toy_page q), Some p, w + 1)" for k w
    using p by (simp add: mock_env_def)
  show ?thesis
  proof (cases proc)
    case None
    then show ?thesis using spawn [of 1 w] p(2) by (simp add: numeral_2_eq_2)
  next
    case (Some c)
    obtain sent pos where c: "c = (sent, pos)" by (cases c)
    show ?thesis
    proof (cases "snd (mock_main False exit_after 0 sent)")
      case True
      then obtain m p' where "exchange ?env q (sent, pos) = (Err (Process m), p')"
        using exchange_gone assms Some c by blast
      then have "redo_attempts ?env q (Suc 1) (proc, w) = redo_attempts ?env q (Suc 0) (None, w)"
        using Some c by (simp del: redo_attempts.simps(2) add: redo_attempts.simps(2) [of ?env q "Suc 0"])
      then show ?thesis using spawn [of 0 w] p(2) by (simp add: numeral_2_eq_2)
    next
      case False
      then show ?thesis
        using exchange_live [of exit_after sent pos q broken] assms Some c by (fastforce simp: numeral_2_eq_2)
    qed
  qed
qed

section \<open>A history\<close>

text \<open>The reference: the versions from the last base on, applied one by one.\<close>

fun toy_replay :: "history \<Rightarrow> bytes \<Rightarrow> (RedoError, bytes) result" where
  "toy_replay [] page = Ok page"
| "toy_replay ((lsn, v) # vs) page =
     (case v of
        WalRecord w \<Rightarrow> toy_replay vs (apply_toy_edits page (rec w))
      | _ \<Rightarrow> rbind (map_err Apply (apply_to v page)) (toy_replay vs))"

definition toy_reconstruct :: redo_manager where
  "toy_reconstruct key request_lsn versions =
     (if relevant versions = [] then Ok None
      else rbind (toy_replay (relevant versions) (replicate PAGE_SIZE 0)) (\<lambda>page. Ok (Some page)))"

definition history_wf :: "history \<Rightarrow> bool" where
  "history_wf vs \<longleftrightarrow> length vs < 2 ^ 32 \<and> list_all (\<lambda>(lsn, v). case v of WalRecord w \<Rightarrow> length (rec w) < 2 ^ 32 | _ \<Rightarrow> True) vs"

text \<open>The accumulator of the manager, and the page it stands for.\<close>

definition acc_wf :: "redo_acc \<Rightarrow> bool" where
  "acc_wf acc \<longleftrightarrow> (case acc of (page, have_base, pending) \<Rightarrow>
     length page = PAGE_SIZE \<and> (\<not> have_base \<longrightarrow> page = replicate PAGE_SIZE 0) \<and>
     length pending < 2 ^ 32 \<and> (\<forall>x \<in> set pending. length (snd x) < 2 ^ 32))"

definition acc_page :: "redo_acc \<Rightarrow> bytes" where
  "acc_page acc = (case acc of (page, have_base, pending) \<Rightarrow> toy_records pending page)"

lemma flush_pending_mock:
  assumes "in_sync exit_after proc" "acc_wf acc"
  shows "\<exists>hb proc' w'. flush_pending (mock_env False exit_after broken) key acc (proc, w) = (Ok (acc_page acc, hb, []), proc', w') \<and>
    in_sync exit_after proc' \<and> acc_wf (acc_page acc, hb, [])"
proof -
  obtain page hb pend where acc: "acc = (page, hb, pend)" by (cases acc)
  show ?thesis
  proof (cases "pend = []")
    case True
    then show ?thesis using assms acc by (simp add: flush_pending_def acc_page_def)
  next
    case False
    let ?q = "\<lparr>rq_rel = rel key, rq_blkno = block key, base_image = if hb then Some page else None, rq_records = pend\<rparr>"
    have wf: "redo_request_wf ?q" using assms(2) acc by (auto simp: acc_wf_def redo_request_wf_def)
    have "toy_page ?q = acc_page acc" using assms(2) acc by (auto simp: acc_page_def acc_wf_def)
    with redo_attempts_mock [OF assms(1) wf, of broken w] False assms(2) acc show ?thesis
      by (auto simp: flush_pending_def redo_page_def acc_wf_def acc_page_def)
  qed
qed

lemma pg_replay_mock:
  assumes "in_sync exit_after proc" "acc_wf acc" "history_wf vs" "length (snd (snd acc)) + length vs < 2 ^ 32"
  shows "\<exists>proc' w'. pg_replay (mock_env False exit_after broken) key vs acc (proc, w) = (toy_replay vs (acc_page acc), proc', w') \<and>
    in_sync exit_after proc'"
  using assms
proof (induction vs arbitrary: acc proc w)
  case Nil
  then show ?case using flush_pending_mock [of exit_after proc acc broken key w] by auto
next
  case (Cons e vs)
  obtain lsn v where e: "e = (lsn, v)" by (cases e)
  have vs: "history_wf vs" using Cons.prems(3) by (simp add: history_wf_def)
  show ?case
  proof (cases "\<exists>wr. v = WalRecord wr")
    case True
    then obtain wr where v: "v = WalRecord wr" by blast
    obtain page hb pend where acc: "acc = (page, hb, pend)" by (cases acc)
    have "acc_wf (page, hb, pend @ [(lsn, rec wr)])"
      using Cons.prems e v acc by (auto simp: acc_wf_def history_wf_def)
    from Cons.IH [OF Cons.prems(1) this vs] Cons.prems(4) acc e v show ?thesis
      by (simp add: acc_page_def)
  next
    case False
    obtain hb proc1 w1 where f: "flush_pending (mock_env False exit_after broken) key acc (proc, w) = (Ok (acc_page acc, hb, []), proc1, w1)"
        "in_sync exit_after proc1" "acc_wf (acc_page acc, hb, [])"
      using flush_pending_mock [OF Cons.prems(1,2)] by blast
    have step: "pg_replay (mock_env False exit_after broken) key (e # vs) acc (proc, w) =
        (case apply_to v (acc_page acc) of
           Ok page1 \<Rightarrow> pg_replay (mock_env False exit_after broken) key vs (page1, True, []) (proc1, w1)
         | Err x \<Rightarrow> (Err (Apply x), proc1, w1) | Panic \<Rightarrow> (Panic, proc1, w1))"
      using f(1) e False by (cases v) (simp_all del: apply_to.simps)
    have toy: "toy_replay (e # vs) (acc_page acc) = rbind (map_err Apply (apply_to v (acc_page acc))) (toy_replay vs)"
      using e False by (cases v) (simp_all del: apply_to.simps)
    show ?thesis
    proof (cases "apply_to v (acc_page acc)")
      case (Ok page1)
      have "acc_wf (page1, True, [])"
        using apply_to_length [OF Ok] f(3) by (simp add: acc_wf_def)
      from Cons.IH [OF f(2) this vs] Cons.prems(4) show ?thesis
        using step toy Ok by (simp add: acc_page_def)
    qed (use step toy f(2) in simp_all)
  qed
qed

lemma pg_reconstruct_mock:
  assumes "in_sync exit_after proc" "history_wf vs"
  shows "\<exists>proc' w'. pg_reconstruct (mock_env False exit_after broken) key lsn vs (proc, w) = (toy_reconstruct key lsn vs, proc', w') \<and>
    in_sync exit_after proc'"
proof (cases rule: history_cases [of vs])
  case 1
  then show ?thesis using assms(1) by (simp add: pg_reconstruct_no_base toy_reconstruct_def relevant_Nil)
next
  case (2 xs b ys)
  have "rposition (\<lambda>(_, v). is_base v) vs = Some (length xs)"
    using 2 rposition_None [of "\<lambda>(_, v). is_base v" ys] by (auto simp: rposition_append case_prod_beta)
  then have rel: "relevant vs = b # ys" using 2(1) by (simp add: relevant_def)
  have ys: "history_wf ys" "length ys < 2 ^ 32 - 1" using assms(2) 2(1) by (simp_all add: history_wf_def)
  obtain bl v where b: "b = (bl, v)" by (cases b)
  show ?thesis
  proof (cases "pg_install_base b")
    case (Ok acc)
    have acc: "acc_wf acc" "length (snd (snd acc)) \<le> 1" "toy_replay (b # ys) (replicate PAGE_SIZE 0) = toy_replay ys (acc_page acc)"
      using Ok b 2(2) assms(2) 2(1)
      by (auto simp: pg_install_base_def acc_wf_def acc_page_def rbind_eq_Ok history_wf_def split: PageVersion.splits if_splits)
    from pg_replay_mock [OF assms(1) acc(1) ys(1), of broken key w] acc(2) ys(2)
    obtain proc' w' where "pg_replay (mock_env False exit_after broken) key ys acc (proc, w) = (toy_replay ys (acc_page acc), proc', w')"
        "in_sync exit_after proc'"
      by auto
    then show ?thesis
      using Ok 2 acc(3) rel
      by (cases "toy_replay ys (acc_page acc)") (simp_all add: pg_reconstruct_at toy_reconstruct_def)
  next
    case (Err x)
    then have "toy_replay (b # ys) (replicate PAGE_SIZE 0) = Err x"
      using b by (auto simp: pg_install_base_def split: PageVersion.splits if_splits)
    then show ?thesis using Err 2 rel assms(1) by (simp add: pg_reconstruct_at toy_reconstruct_def)
  qed (use 2(2) pg_install_base_no_panic in blast)
qed

section \<open>Main results\<close>

text \<open>
  C17.  The process boundary cannot be observed.  Whatever number of requests each child serves before it
  exits, and whether or not writing to a child that is gone fails, the manager that batches records,
  exchanges them over the pipes and restarts the child returns what applying the versions from the last
  base one by one returns, errors of native versions included, and leaves a child it can go on with.
\<close>

theorem redo_process_unobservable:
  assumes "in_sync exit_after proc" "history_wf vs"
  shows "\<exists>proc' w'. pg_reconstruct (mock_env False exit_after broken) key lsn vs (proc, w) = (toy_reconstruct key lsn vs, proc', w') \<and>
    in_sync exit_after proc'"
  by (rule pg_reconstruct_mock) (rule assms)+

theorem redo_process_unobservable_witness:
  "fst (pg_reconstruct (mock_env False (Some 1) (\<lambda>_. True)) (PageKey (RelTag 1 2 3 Main) 0) 30
     [(10, WalRecord (WalRec True [0, 0, 0, 1, 7])), (20, Delta [ByteEdit 1 [8]]), (30, WalRecord (WalRec False [0, 2, 0, 1, 9]))]
     (None, 0)) =
   toy_reconstruct (PageKey (RelTag 1 2 3 Main) 0) 30
     [(10, WalRecord (WalRec True [0, 0, 0, 1, 7])), (20, Delta [ByteEdit 1 [8]]), (30, WalRecord (WalRec False [0, 2, 0, 1, 9]))]"
  using redo_process_unobservable [of "Some 1" None
      "[(10, WalRecord (WalRec True [0, 0, 0, 1, 7])), (20, Delta [ByteEdit 1 [8]]), (30, WalRecord (WalRec False [0, 2, 0, 1, 9]))]"
      "\<lambda>_. True" "PageKey (RelTag 1 2 3 Main) 0" 30 0]
  by (force simp: history_wf_def)

end
