(* ===== verification/Spec2Isabelle.thy ===== *)
theory Spec2Isabelle
  imports Page_Server Http_Api Redo_Mock
begin

text \<open>
  AethelDB splits a PostgreSQL server into services: safekeepers make the write-ahead log (WAL) durable on a
  quorum, page servers turn that log into versioned pages and serve them at any LSN and on any branch, and a
  control plane creates and branches timelines.  This development models these services from
  their Rust sources and proves what makes them correct.

  \<^bold>\<open>Foundations.\<close>  \<^verbatim>\<open>Prelude\<close> has machine words, big- and little-endian byte codecs, the type
  \<^typ>\<open>('e, 'a) result\<close> in which a Rust panic is a value of its own, and the locales \<open>codec\<close> and
  \<open>framed_codec\<close>: whatever is encoded decodes again, whatever bytes follow it.  Arithmetic is that
  of a release build, so it wraps at the width of its type.  \<^verbatim>\<open>Common_Types\<close> is common/src/lsn.rs, ids.rs and
  page.rs; \<^verbatim>\<open>Wal_Service\<close> and \<^verbatim>\<open>Page_Service\<close> are common/src/wal_service.rs and page_service.rs, one
  interpretation of a codec locale for each message.  \<^verbatim>\<open>Rust_Text\<close> has what the sources use of Rust's strings.

  \<^bold>\<open>Safekeeper.\<close>  \<^verbatim>\<open>Consensus\<close> (consensus.rs) has the node's state and its handlers, and the group as an
  inductive step relation over every interleaving of votes, appends and acknowledgements; quorums are a locale
  interpreted on majorities.  Election safety, the durability of the commit position on a majority, and
  what a restart does to the in-memory term are proved by rule induction.  \<^verbatim>\<open>Wal_Storage\<close> (storage.rs) models
  segment files, the ring of cached bytes, the metadata file and recovery on a disk whose synced and unsynced
  content differ; its abstract specification is one contiguous log, and appending, reading, flushing,
  removing segments and crashing refine it.  \<^verbatim>\<open>Safekeeper\<close> (replicator.rs, server.rs) is the request
  handlers and the connection loop; the two replicators are interpretations of one locale.

  \<^bold>\<open>Page server storage.\<close>  \<^verbatim>\<open>Btree_Map\<close> is the part of Rust's ordered map the sources use.
  \<^verbatim>\<open>Page_Version\<close> (page.rs, layer.rs) has versions, edits and layer files.  \<^verbatim>\<open>Wal_Redo\<close> (walredo.rs) is the
  reconstruction contract as a locale and the native backend as its interpretation; \<^verbatim>\<open>Redo_Proto\<close>,
  \<^verbatim>\<open>Redo_Process\<close> and \<^verbatim>\<open>Redo_Mock\<close> (walredo_proto.rs, walredo_process.rs, the reference redo process) are the
  pipe protocol, the process manager with its restart after a failure, and the child: the manager is shown
  to be a backend in the sense of that locale, and its child to be unobservable.  \<^verbatim>\<open>Repository\<close>,
  \<^verbatim>\<open>Timeline\<close>, \<^verbatim>\<open>Tenant\<close> and \<^verbatim>\<open>Tenant_Manager\<close> (the files of the same names) are the memtable and frozen
  layers, branches that read through their ancestors, garbage collection and compaction.  A read is a function of
  the history of a page; freezing, compaction, collection above the horizon and later writes do not change it.
  \<^verbatim>\<open>Object_Store\<close>, \<^verbatim>\<open>Offload\<close> and \<^verbatim>\<open>Catalog\<close> (objstore.rs, offload.rs, catalog.rs) are the local object store,
  the upload of layers and the persistence of the topology.

  \<^bold>\<open>From the log to pages.\<close>  \<^verbatim>\<open>Wal_Decode\<close> and \<^verbatim>\<open>Wal_Stream\<close> (waldecode.rs) decode records, page images and
  the framing of records in WAL pages; the stream is decoded to the same records however it is cut into chunks.
  \<^verbatim>\<open>Wal_Receiver\<close> (walreceiver.rs) pulls from a safekeeper, and is composed with the connection handler
  of \<^verbatim>\<open>Safekeeper\<close>: repeated pulls reach the commit position.

  \<^bold>\<open>Endpoints.\<close>  \<^verbatim>\<open>Page_Server\<close> (server.rs), \<^verbatim>\<open>Page_Control\<close> (control.rs) and \<^verbatim>\<open>Http_Api\<close> (httpapi.rs and the
  client of aethelctl/src/lib.rs) are the page, ingest and control connections.
\<close>

section \<open>Wire and file formats\<close>

text \<open>
  C38.  Everything the services exchange or store reads back as it was written: the messages of the WAL
  service, the page service and the wal-redo pipe, whatever bytes follow them in the stream, the ingest
  records and the layer files, and the printed forms of LSNs and identifiers.  And no byte string makes a
  message decoder panic.
\<close>

theorem wire_formats_round_trip:
  "(append_wf a \<longrightarrow> append_decode (append_encode a @ rest) = Ok a \<and> append_decode (encode_replicate a @ rest) = Ok a) \<and>
   append_response_decode (append_response_encode b @ rest) = Ok b \<and>
   read_request_decode (read_request_encode c @ rest) = Ok c \<and>
   (read_response_wf d \<longrightarrow> read_response_decode (read_response_encode d @ rest) = Ok d) \<and>
   vote_request_decode (vote_request_encode e @ rest) = Ok e \<and>
   vote_response_decode (vote_response_encode f @ rest) = Ok f \<and>
   request_decode (request_encode r @ rest) = Ok r \<and>
   total_len (take HEADER_LEN (request_encode r)) = Ok (length (request_encode r)) \<and>
   (response_wf p \<longrightarrow> response_decode (response_encode p @ rest) = Ok p) \<and>
   (redo_request_wf q \<longrightarrow> redo_request_decode (redo_request_encode q @ rest) = Ok q) \<and>
   (redo_response_wf w \<longrightarrow> redo_response_decode (redo_response_encode w @ rest) = Ok w) \<and>
   (version_wf (mod_version m) \<and> layer_wf l \<longrightarrow>
      modification_decode (modification_encode m) = Ok m \<and> deserialize (serialize l) = Ok l) \<and>
   lsn_from_str (lsn_display lsn) = Ok lsn \<and> id_from_str nm (id_display i) = Ok i \<and>
   append_decode buf \<noteq> Panic \<and> append_response_decode buf \<noteq> Panic \<and> read_request_decode buf \<noteq> Panic \<and>
   read_response_decode buf \<noteq> Panic \<and> vote_request_decode buf \<noteq> Panic \<and> vote_response_decode buf \<noteq> Panic \<and>
   request_decode buf \<noteq> Panic \<and> response_decode buf \<noteq> Panic \<and>
   redo_request_decode buf \<noteq> Panic \<and> redo_response_decode buf \<noteq> Panic"
  using wal_messages_round_trip [of a rest b c d e f buf] page_messages_round_trip [of r rest p buf]
    redo_messages_round_trip [of q rest w buf] ingest_and_layer_round_trip [of m l] identifiers_round_trip [of lsn i nm]
  by simp

theorem wire_formats_round_trip_witness:
  "append_decode (append_encode \<lparr>ar_tenant = 7, ar_timeline = 9, ar_term = 3, ar_start_lsn = 4096, ar_payload = [1, 2, 3]\<rparr>) =
     Ok \<lparr>ar_tenant = 7, ar_timeline = 9, ar_term = 3, ar_start_lsn = 4096, ar_payload = [1, 2, 3]\<rparr> \<and>
   read_response_decode (read_response_encode \<lparr>rs_status = 0, rs_commit_lsn = 5, rs_start_lsn = 4, rs_payload = [9]\<rparr>) =
     Ok \<lparr>rs_status = 0, rs_commit_lsn = 5, rs_start_lsn = 4, rs_payload = [9]\<rparr> \<and>
   response_decode (response_encode (Response.Page (replicate PAGE_SIZE 4))) = Ok (Response.Page (replicate PAGE_SIZE 4)) \<and>
   redo_response_decode (redo_response_encode (RedoPage (replicate PAGE_SIZE 4))) = Ok (RedoPage (replicate PAGE_SIZE 4)) \<and>
   redo_request_decode (redo_request_encode \<lparr>rq_rel = RelTag 1 2 3 Main, rq_blkno = 7, base_image = None, rq_records = [(16, [1, 2])]\<rparr>) =
     Ok \<lparr>rq_rel = RelTag 1 2 3 Main, rq_blkno = 7, base_image = None, rq_records = [(16, [1, 2])]\<rparr> \<and>
   deserialize (serialize sample_layer) = Ok sample_layer"
  using wire_formats_round_trip
    [where rest = "[]"
      and a = "\<lparr>ar_tenant = 7, ar_timeline = 9, ar_term = 3, ar_start_lsn = 4096, ar_payload = [1, 2, 3]\<rparr>"
      and d = "\<lparr>rs_status = 0, rs_commit_lsn = 5, rs_start_lsn = 4, rs_payload = [9]\<rparr>"
      and p = "Response.Page (replicate PAGE_SIZE 4)" and w = "RedoPage (replicate PAGE_SIZE 4)"
      and q = "\<lparr>rq_rel = RelTag 1 2 3 Main, rq_blkno = 7, base_image = None, rq_records = [(16, [1, 2])]\<rparr>"
      and m = "\<lparr>mod_rel = RelTag 1 2 3 Main, mod_block = 0, mod_lsn = 4, mod_version = Delta []\<rparr>" and l = sample_layer]
  by (simp add: append_wf_def read_response_wf_def response_wf_def redo_request_wf_def version_wf_def edit_wf_def
      layer_wf_def sample_layer_def bt_inv_def)

end
